(* ===== verification/Prelude.thy ===== *)
theory Prelude
  imports Main "HOL-Library.Word"
begin

text \<open>
  Shared vocabulary of the development: the machine integers of the C++ sources, the
  exceptions the chain library throws, results that are either an exception or a value,
  and the generic lemmas on results, lists and association lists that the component
  theories use.

  Integers.  A \<^verbatim>\<open>uint64_t\<close> on which the code works bitwise is a \<open>64 word\<close>; one on which it
  only calculates is a \<open>nat\<close> with the wrap-around written out by \<open>u64\<close> (likewise \<open>u32\<close>,
  \<open>u16\<close>, \<open>u8\<close>, \<open>u128\<close>).  An \<^verbatim>\<open>int64_t\<close> is an \<open>int\<close> with the two's complement wrap-around
  written out by \<open>i64\<close>.
\<close>

unbundle bit_operations_syntax

named_theorems result_simps \<open>simplification rules for results and assertions\<close>
named_theorems wrap_simps \<open>values that need no wrap-around\<close>

section \<open>Machine integers\<close>

type_synonym word64 = "64 word"

definition u8 :: "nat \<Rightarrow> nat" where
  "u8 x = x mod 2 ^ 8"

definition u16 :: "nat \<Rightarrow> nat" where
  "u16 x = x mod 2 ^ 16"

definition u32 :: "nat \<Rightarrow> nat" where
  "u32 x = x mod 2 ^ 32"

definition u64 :: "nat \<Rightarrow> nat" where
  "u64 x = x mod 2 ^ 64"

definition u128 :: "nat \<Rightarrow> nat" where
  "u128 x = x mod 2 ^ 128"

text \<open>Two's complement truncation to 64 bits, and the value of a signed number read as unsigned.\<close>

definition i64 :: "int \<Rightarrow> int" where
  "i64 x = (x + 2 ^ 63) mod 2 ^ 64 - 2 ^ 63"

definition to_u64 :: "int \<Rightarrow> nat" where
  "to_u64 x = nat (x mod 2 ^ 64)"

text \<open>Unsigned subtraction wraps around.\<close>

definition u32_sub :: "nat \<Rightarrow> nat \<Rightarrow> nat" where
  "u32_sub a b = nat ((int a - int b) mod 2 ^ 32)"

definition u64_sub :: "nat \<Rightarrow> nat \<Rightarrow> nat" where
  "u64_sub a b = nat ((int a - int b) mod 2 ^ 64)"

definition UINT64_MAX :: nat where
  "UINT64_MAX = 2 ^ 64 - 1"

definition INT64_MAX :: int where
  "INT64_MAX = 2 ^ 63 - 1"

definition is_i64 :: "int \<Rightarrow> bool" where
  "is_i64 x \<longleftrightarrow> - (2 ^ 63) \<le> x \<and> x < 2 ^ 63"

text \<open>Division of \<^verbatim>\<open>int64_t\<close> values truncates towards zero.\<close>

definition tdiv :: "int \<Rightarrow> int \<Rightarrow> int" where
  "tdiv a b = sgn a * sgn b * (\<bar>a\<bar> div \<bar>b\<bar>)"

definition tmod :: "int \<Rightarrow> int \<Rightarrow> int" where
  "tmod a b = a - b * tdiv a b"

lemma u8_id [wrap_simps]: "x < 2 ^ 8 \<Longrightarrow> u8 x = x"
  by (simp add: u8_def)

lemma u16_id [wrap_simps]: "x < 2 ^ 16 \<Longrightarrow> u16 x = x"
  by (simp add: u16_def)

lemma u32_id [wrap_simps]: "x < 2 ^ 32 \<Longrightarrow> u32 x = x"
  by (simp add: u32_def)

lemma u64_id [wrap_simps]: "x < 2 ^ 64 \<Longrightarrow> u64 x = x"
  by (simp add: u64_def)

lemma u128_id [wrap_simps]: "x < 2 ^ 128 \<Longrightarrow> u128 x = x"
  by (simp add: u128_def)

lemma u32_bound [simp]: "u32 x < 2 ^ 32"
  by (simp add: u32_def)

lemma u64_bound [simp]: "u64 x < 2 ^ 64"
  by (simp add: u64_def)

lemma u32_sub_id [wrap_simps]: "b \<le> a \<Longrightarrow> a < 2 ^ 32 \<Longrightarrow> u32_sub a b = a - b"
  by (simp add: u32_sub_def nat_diff_distrib' flip: of_nat_diff)

lemma u64_sub_id [wrap_simps]: "b \<le> a \<Longrightarrow> a < 2 ^ 64 \<Longrightarrow> u64_sub a b = a - b"
  by (simp add: u64_sub_def nat_diff_distrib' flip: of_nat_diff)

lemma i64_id [wrap_simps]: "is_i64 x \<Longrightarrow> i64 x = x"
  by (simp add: i64_def is_i64_def)

lemma i64_range [simp]: "is_i64 (i64 x)"
  using pos_mod_bound [of "2 ^ 64" "x + 2 ^ 63"] pos_mod_sign [of "2 ^ 64" "x + 2 ^ 63"]
  by (simp add: i64_def is_i64_def)

lemma to_u64_nonneg [wrap_simps]: "0 \<le> x \<Longrightarrow> x < 2 ^ 64 \<Longrightarrow> to_u64 x = nat x"
  by (simp add: to_u64_def)

lemma tdiv_nonneg: "0 \<le> a \<Longrightarrow> 0 < b \<Longrightarrow> tdiv a b = a div b"
  by (cases "a = 0") (simp_all add: tdiv_def)

lemma tmod_nonneg: "0 \<le> a \<Longrightarrow> 0 < b \<Longrightarrow> tmod a b = a mod b"
  by (simp add: tmod_def tdiv_nonneg minus_mult_div_eq_mod)

section \<open>Exceptions and results\<close>

text \<open>
  The exception classes of \<^verbatim>\<open>libraries/chain/include/besio/chain/exceptions.hpp\<close> that the
  modelled code throws, the standard exceptions thrown by chainbase and \<^verbatim>\<open>fc\<close>, the failed
  assertions of contracts, and \<open>undefined_behaviour\<close>, which marks executions for which C++
  gives no meaning (a shift by at least the width, an iterator read past the end, the
  dereference of a null pointer or of an end iterator).
\<close>

datatype (plugins only: code) chain_exception =
    name_type_exception
  | symbol_type_exception
  | asset_type_exception
  | overflow_exception
  | parse_error_exception
  | block_validate_exception
  | unlinkable_block_exception
  | wrong_producer
  | producer_schedule_exception
  | producer_double_confirm
  | producer_not_in_schedule
  | wrong_signing_key
  | fork_database_exception
  | fork_db_block_not_found
  | block_log_exception
  | database_exception
  | unsupported_feature
  | tx_duplicate
  | expired_tx_exception
  | tx_exp_too_far_exception
  | invalid_ref_block_exception
  | tx_no_auths
  | unknown_transaction_exception
  | transaction_type_exception
  | block_net_usage_exceeded
  | block_cpu_usage_exceeded
  | greylist_net_usage_exceeded
  | greylist_cpu_usage_exceeded
  | deadline_exception
  | leeway_deadline_exception
  | subjective_block_production_exception
  | actor_whitelist_exception
  | actor_blacklist_exception
  | contract_whitelist_exception
  | contract_blacklist_exception
  | action_blacklist_exception
  | unaccessible_api
  | wasm_execution_error
  | inline_action_too_big
  | cfa_inside_generated_tx
  | deferred_tx_duplicate
  | invalid_table_payer
  | table_access_violation
  | table_not_in_cache
  | invalid_table_iterator
  | table_operation_not_permitted
  | resource_limit_exception
  | rate_limiting_state_inconsistent
  | tx_cpu_usage_exceeded
  | tx_net_usage_exceeded
  | block_resource_exhausted
  | ram_usage_exceeded
  | transaction_exception
  | authorization_exception
  | permission_query_exception
  | invalid_permission
  | irrelevant_auth_exception
  | unlinkable_min_permission_action
  | unsatisfied_authorization
  | tx_irrelevant_sig
  | tx_not_found
  | tx_duplicate_sig
  | tx_too_big
  | tx_decompression_error
  | unknown_transaction_compression
  | action_type_exception
  | key_blacklist_exception
  | action_validate_exception
  | account_name_exists_exception
  | account_query_exception
  | missing_auth_exception
  | invalid_contract_vm_type
  | invalid_contract_vm_version
  | set_exact_code
  | wasm_exception
  | checktime_exception
  | out_of_range
  | out_of_range_exception
  | assert_exception
  | unhandled_exception
  | std_exception
  | logic_error
  | besio_assert_message string
  | undefined_behaviour

type_synonym 'a result = "chain_exception + 'a"

text \<open>Sequencing of results: the first exception wins, as a throw does.\<close>

definition bindR :: "'e + 'a \<Rightarrow> ('a \<Rightarrow> 'e + 'b) \<Rightarrow> 'e + 'b" where
  "bindR m k = (case m of Inl e \<Rightarrow> Inl e | Inr x \<Rightarrow> k x)"

text \<open>\<^verbatim>\<open>BES_ASSERT( test, exception, ... )\<close> followed by the rest of the function.\<close>

definition bes_assert :: "bool \<Rightarrow> 'e \<Rightarrow> 'e + 'a \<Rightarrow> 'e + 'a" where
  "bes_assert b e k = (if b then k else Inl e)"

definition of_option :: "'e \<Rightarrow> 'a option \<Rightarrow> 'e + 'a" where
  "of_option e x = (case x of None \<Rightarrow> Inl e | Some y \<Rightarrow> Inr y)"

definition is_ok :: "'e + 'a \<Rightarrow> bool" where
  "is_ok m = (case m of Inl _ \<Rightarrow> False | Inr _ \<Rightarrow> True)"

lemma bindR_Inl [simp]: "bindR (Inl e) k = Inl e"
  by (simp add: bindR_def)

lemma bindR_Inr [simp]: "bindR (Inr x) k = k x"
  by (simp add: bindR_def)

lemma bindR_assoc: "bindR (bindR m f) g = bindR m (\<lambda>x. bindR (f x) g)"
  by (cases m) simp_all

lemma bindR_cong: "m = m' \<Longrightarrow> (\<And>x. m' = Inr x \<Longrightarrow> k x = k' x) \<Longrightarrow> bindR m k = bindR m' k'"
  by (cases m') simp_all

lemma bindR_eq_Inr [result_simps]: "bindR m k = Inr y \<longleftrightarrow> (\<exists>x. m = Inr x \<and> k x = Inr y)"
  by (cases m) simp_all

lemma bindR_InrE: "bindR m k = Inr y \<Longrightarrow> (\<And>x. m = Inr x \<Longrightarrow> k x = Inr y \<Longrightarrow> P) \<Longrightarrow> P"
  by (auto simp: bindR_eq_Inr)

lemma bindR_eq_Inl: "bindR m k = Inl e \<longleftrightarrow> m = Inl e \<or> (\<exists>x. m = Inr x \<and> k x = Inl e)"
  by (cases m) simp_all

lemma bes_assert_True [simp]: "bes_assert True e k = k"
  by (simp add: bes_assert_def)

lemma bes_assert_False [simp]: "bes_assert False e k = Inl e"
  by (simp add: bes_assert_def)

lemma bes_assert_eq_Inr [result_simps]: "bes_assert b e k = Inr y \<longleftrightarrow> b \<and> k = Inr y"
  by (simp add: bes_assert_def)

lemma bes_assert_eq_Inl: "bes_assert b e k = Inl e' \<longleftrightarrow> (\<not> b \<and> e = e') \<or> (b \<and> k = Inl e')"
  by (auto simp: bes_assert_def)

lemma bindR_bes_assert: "bindR (bes_assert b e k) f = bes_assert b e (bindR k f)"
  by (simp add: bes_assert_def)

lemma of_option_simps [simp]:
  "of_option e None = Inl e" "of_option e (Some x) = Inr x"
  by (simp_all add: of_option_def)

lemma of_option_eq_Inr [result_simps]: "of_option e x = Inr y \<longleftrightarrow> x = Some y"
  by (cases x) simp_all

lemma is_ok_simps [simp]: "\<not> is_ok (Inl e)" "is_ok (Inr x)"
  by (simp_all add: is_ok_def)

lemma is_ok_iff: "is_ok m \<longleftrightarrow> (\<exists>x. m = Inr x)"
  by (cases m) simp_all

text \<open>
  \<open>ensures P m\<close>: if \<open>m\<close> does not throw, its value has the property.  The rules take a function of the program apart
  along its control flow, one rule for each construct, and leave a goal for each of its normal exits.
\<close>

definition ensures :: "('a \<Rightarrow> bool) \<Rightarrow> 'e + 'a \<Rightarrow> bool" where
  "ensures P m \<longleftrightarrow> (\<forall>x. m = Inr x \<longrightarrow> P x)"

named_theorems ensures_intros \<open>rules for the control flow of a function that may throw\<close>

lemma ensuresD: "ensures P m \<Longrightarrow> m = Inr x \<Longrightarrow> P x"
  by (simp add: ensures_def)

lemma ensures_Inl [ensures_intros]: "ensures P (Inl e)"
  by (simp add: ensures_def)

lemma ensures_Inr [ensures_intros]: "P x \<Longrightarrow> ensures P (Inr x)"
  by (simp add: ensures_def)

lemma ensures_bindR [ensures_intros]: "(\<And>x. m = Inr x \<Longrightarrow> ensures P (k x)) \<Longrightarrow> ensures P (bindR m k)"
  by (auto simp: ensures_def bindR_eq_Inr)

lemma ensures_bes_assert [ensures_intros]: "(b \<Longrightarrow> ensures P k) \<Longrightarrow> ensures P (bes_assert b e k)"
  by (simp add: bes_assert_def ensures_Inl)

lemma ensures_if [ensures_intros]:
  "(b \<Longrightarrow> ensures P m) \<Longrightarrow> (\<not> b \<Longrightarrow> ensures P n) \<Longrightarrow> ensures P (if b then m else n)"
  by simp

lemma ensures_prod [ensures_intros]:
  "(\<And>a b. x = (a, b) \<Longrightarrow> ensures P (f a b)) \<Longrightarrow> ensures P (case x of (a, b) \<Rightarrow> f a b)"
  by (cases x) simp

lemma ensures_option [ensures_intros]:
  "(x = None \<Longrightarrow> ensures P m) \<Longrightarrow> (\<And>a. x = Some a \<Longrightarrow> ensures P (f a)) \<Longrightarrow>
     ensures P (case x of None \<Rightarrow> m | Some a \<Rightarrow> f a)"
  by (cases x) simp_all

lemma ensures_Let [ensures_intros]: "(\<And>x. x = e \<Longrightarrow> ensures P (f x)) \<Longrightarrow> ensures P (let x = e in f x)"
  by simp

text \<open>A loop over a list whose body may throw.\<close>

fun foldR :: "('a \<Rightarrow> 's \<Rightarrow> 'e + 's) \<Rightarrow> 'a list \<Rightarrow> 's \<Rightarrow> 'e + 's" where
  "foldR f [] s = Inr s"
| "foldR f (x # xs) s = bindR (f x s) (foldR f xs)"

lemma foldR_append: "foldR f (xs @ ys) s = bindR (foldR f xs s) (foldR f ys)"
proof (induction xs arbitrary: s)
  case (Cons x xs)
  then show ?case by (simp add: bindR_assoc cong: bindR_cong)
qed simp

lemma foldR_invariant:
  assumes "foldR f xs s = Inr t" and "P s"
    and "\<And>x s t. x \<in> set xs \<Longrightarrow> P s \<Longrightarrow> f x s = Inr t \<Longrightarrow> P t"
  shows "P t"
  using assms
proof (induction xs arbitrary: s)
  case Nil
  then show ?case by simp
next
  case (Cons x xs)
  from Cons.prems(1) obtain u where u: "f x s = Inr u" "foldR f xs u = Inr t"
    by (auto simp: result_simps)
  have "P u" using Cons.prems(2,3) u(1) by auto
  with u(2) Cons.prems(3) show ?case by (intro Cons.IH) auto
qed

lemma foldR_ok:
  assumes "\<And>x s. x \<in> set xs \<Longrightarrow> P s \<Longrightarrow> \<exists>t. f x s = Inr t \<and> P t" and "P s"
  shows "\<exists>t. foldR f xs s = Inr t \<and> P t"
  using assms
proof (induction xs arbitrary: s)
  case Nil
  then show ?case by simp
next
  case (Cons x xs)
  then obtain u where "f x s = Inr u" "P u" by (meson list.set_intros(1))
  with Cons show ?case by (auto simp: result_simps)
qed

section \<open>Machines: operations that may throw, invariants, runs\<close>

text \<open>
  The contract shared by every stateful component: a step that takes the state and one
  operation and either throws, leaving the state to be rolled back by the caller, or returns
  the new state, and an invariant that every successful step keeps.  The lemmas are about
  whole runs: sequences of operations, where a failed operation leaves the state unchanged,
  as a transaction that throws does.
\<close>

definition apply_op :: "('s \<Rightarrow> 'o \<Rightarrow> 'e + 's) \<Rightarrow> 's \<Rightarrow> 'o \<Rightarrow> 's" where
  "apply_op step s x = (case step s x of Inl _ \<Rightarrow> s | Inr t \<Rightarrow> t)"

definition run_ops :: "('s \<Rightarrow> 'o \<Rightarrow> 'e + 's) \<Rightarrow> 's \<Rightarrow> 'o list \<Rightarrow> 's" where
  "run_ops step s xs = foldl (apply_op step) s xs"

lemma run_ops_simps [simp]:
  "run_ops step s [] = s"
  "run_ops step s (x # xs) = run_ops step (apply_op step s x) xs"
  by (simp_all add: run_ops_def)

lemma run_ops_append: "run_ops step s (xs @ ys) = run_ops step (run_ops step s xs) ys"
  by (simp add: run_ops_def)

locale guarded_machine =
  fixes step :: "'s \<Rightarrow> 'o \<Rightarrow> 'e + 's"
    and admissible :: "'o \<Rightarrow> bool"
    and invar :: "'s \<Rightarrow> bool"
  assumes step_inv: "invar s \<Longrightarrow> admissible x \<Longrightarrow> step s x = Inr t \<Longrightarrow> invar t"
begin

lemma apply_op_inv: "invar s \<Longrightarrow> admissible x \<Longrightarrow> invar (apply_op step s x)"
  by (auto simp: apply_op_def step_inv split: sum.splits)

lemma run_inv: "invar s \<Longrightarrow> list_all admissible xs \<Longrightarrow> invar (run_ops step s xs)"
  by (induction xs arbitrary: s) (simp_all add: apply_op_inv)

lemma foldR_inv:
  assumes "invar s" "list_all admissible xs" "foldR (\<lambda>x s. step s x) xs s = Inr t"
  shows "invar t"
  using assms(3,1) by (rule foldR_invariant) (use assms(2) step_inv in \<open>auto simp: list_all_iff\<close>)

end

text \<open>
  Refinement: the states of the machine stand for states of an abstract one, and every step,
  successful or not, is a step of the abstract machine.
\<close>

locale refinement = guarded_machine step admissible invar
  for step :: "'s \<Rightarrow> 'o \<Rightarrow> 'e + 's" and admissible invar +
  fixes spec :: "'a \<Rightarrow> 'o \<Rightarrow> 'e + 'a"
    and abs :: "'s \<Rightarrow> 'a"
  assumes step_abs: "invar s \<Longrightarrow> admissible x \<Longrightarrow> map_sum id abs (step s x) = spec (abs s) x"
begin

lemma apply_op_abs:
  "invar s \<Longrightarrow> admissible x \<Longrightarrow> abs (apply_op step s x) = apply_op spec (abs s) x"
  using step_abs [of s x, symmetric] by (cases "step s x") (simp_all add: apply_op_def)

lemma run_abs:
  "invar s \<Longrightarrow> list_all admissible xs \<Longrightarrow> abs (run_ops step s xs) = run_ops spec (abs s) xs"
  by (induction xs arbitrary: s) (simp_all add: apply_op_abs apply_op_inv)

text \<open>A run that ends with the first exception.\<close>

lemma foldR_abs:
  assumes "invar s" "list_all admissible xs"
  shows "map_sum id abs (foldR (\<lambda>x s. step s x) xs s) = foldR (\<lambda>x s. spec s x) xs (abs s)"
  using assms
proof (induction xs arbitrary: s)
  case (Cons x xs)
  then show ?case
    using step_abs [of s x, symmetric] step_inv [of s x] by (cases "step s x") simp_all
qed simp

end

section \<open>Association lists kept sorted by key\<close>

text \<open>
  \<^verbatim>\<open>boost::container::flat_map\<close> and \<^verbatim>\<open>std::map\<close> iterate in ascending key order; a map that the
  code iterates over is an association list with ascending keys.
\<close>

fun map_put :: "'k::linorder \<Rightarrow> 'v \<Rightarrow> ('k \<times> 'v) list \<Rightarrow> ('k \<times> 'v) list" where
  "map_put k v [] = [(k, v)]"
| "map_put k v ((k', v') # m) =
     (if k < k' then (k, v) # (k', v') # m
      else if k = k' then (k, v) # m
      else (k', v') # map_put k v m)"

lemma map_put_not_Nil [simp]: "map_put k v m \<noteq> []"
  by (induction k v m rule: map_put.induct) auto

definition sorted_keys :: "('k::linorder \<times> 'v) list \<Rightarrow> bool" where
  "sorted_keys m \<longleftrightarrow> sorted_wrt (<) (map fst m)"

lemma map_of_map_put: "map_of (map_put k v m) = (map_of m)(k \<mapsto> v)" if "sorted_keys m"
  using that
proof (induction k v m rule: map_put.induct)
  case (2 k v k' v' m)
  then have "sorted_keys m" by (simp add: sorted_keys_def)
  show ?case
  proof (cases "k' < k")
    case True
    with 2 \<open>sorted_keys m\<close> show ?thesis by (auto simp: fun_eq_iff)
  qed (auto simp: fun_eq_iff)
qed simp

lemma set_map_fst_map_put: "fst ` set (map_put k v m) = insert k (fst ` set m)"
  by (induction k v m rule: map_put.induct) auto

lemma sorted_keys_map_put: "sorted_keys m \<Longrightarrow> sorted_keys (map_put k v m)"
proof (induction k v m rule: map_put.induct)
  case (2 k v k' v' m)
  then show ?case
    using set_map_fst_map_put [of k v m] by (auto simp: sorted_keys_def)
qed (simp add: sorted_keys_def)

lemma sorted_keys_Nil [simp]: "sorted_keys []"
  by (simp add: sorted_keys_def)

lemma sorted_keys_distinct: "sorted_keys m \<Longrightarrow> distinct (map fst m)"
  by (simp add: sorted_keys_def strict_sorted_iff)

lemma sorted_keys_eqI:
  assumes "sorted_keys m" "sorted_keys n" "map_of m = map_of n"
  shows "m = n"
proof (rule map_sorted_distinct_set_unique [of fst])
  have d: "distinct (map fst m)" "distinct (map fst n)"
    using assms(1,2) by (simp_all add: sorted_keys_distinct)
  show "set m = set n"
    using map_of_eq_Some_iff [OF d(1)] map_of_eq_Some_iff [OF d(2)] assms(3)
    by (auto 0 0 intro!: set_eqI)
  then show "inj_on fst (set m \<union> set n)" using d by (simp add: distinct_map)
  show "distinct (map fst m)" "distinct (map fst n)" by (fact d)+
  show "sorted (map fst m)" "sorted (map fst n)"
    using assms(1,2) by (simp_all add: sorted_keys_def strict_sorted_iff)
qed

definition map_del :: "'k \<Rightarrow> ('k \<times> 'v) list \<Rightarrow> ('k \<times> 'v) list" where
  "map_del k m = filter (\<lambda>(k', v). k' \<noteq> k) m"

text \<open>\<^verbatim>\<open>std::map::emplace\<close> leaves an existing entry as it is.\<close>

definition map_emplace :: "'k::linorder \<Rightarrow> 'v \<Rightarrow> ('k \<times> 'v) list \<Rightarrow> ('k \<times> 'v) list" where
  "map_emplace k v m = (if map_of m k = None then map_put k v m else m)"

lemma map_of_map_del [simp]: "map_of (map_del k m) = (map_of m)(k := None)"
  by (induction m) (auto simp: map_del_def fun_eq_iff)

lemma sorted_keys_map_del [simp]: "sorted_keys m \<Longrightarrow> sorted_keys (map_del k m)"
  by (induction m) (auto simp: map_del_def sorted_keys_def split: prod.splits)

lemma sorted_keys_map_emplace [simp]: "sorted_keys m \<Longrightarrow> sorted_keys (map_emplace k v m)"
  by (simp add: map_emplace_def sorted_keys_map_put)

lemma map_of_map_emplace [simp]:
  "sorted_keys m \<Longrightarrow> map_of (map_emplace k v m) =
     (if map_of m k = None then (map_of m)(k \<mapsto> v) else map_of m)"
  by (simp add: map_emplace_def map_of_map_put)

declare map_of_map_put [simp] sorted_keys_map_put [simp]

section \<open>Loops over lists that produce a list\<close>

fun mapR :: "('a \<Rightarrow> 'e + 'b) \<Rightarrow> 'a list \<Rightarrow> 'e + 'b list" where
  "mapR f [] = Inr []"
| "mapR f (x # xs) = bindR (f x) (\<lambda>y. bindR (mapR f xs) (\<lambda>ys. Inr (y # ys)))"

lemma mapR_eq_Inr: "mapR f xs = Inr ys \<longleftrightarrow> list_all2 (\<lambda>x y. f x = Inr y) xs ys"
proof (induction xs arbitrary: ys)
  case (Cons x xs)
  then show ?case by (cases ys) (auto simp: result_simps)
qed auto

section \<open>Weaker checks\<close>

text \<open>Every value that the first result may be is also that of the second one: the second makes no check that the first does not make.\<close>

definition passes_to :: "'e + 'a \<Rightarrow> 'e + 'a \<Rightarrow> bool" where
  "passes_to r r' \<longleftrightarrow> (\<forall>x. r = Inr x \<longrightarrow> r' = Inr x)"

named_theorems passing "rules for results of which the second makes weaker checks"

lemma passes_toD: "passes_to r r' \<Longrightarrow> r = Inr x \<Longrightarrow> r' = Inr x"
  by (simp add: passes_to_def)

lemma passes_refl [passing]: "passes_to r r"
  by (simp add: passes_to_def)

lemma passes_Inl [simp]: "passes_to (Inl e) r"
  by (simp add: passes_to_def)

lemma passes_trans: "passes_to a b \<Longrightarrow> passes_to b c \<Longrightarrow> passes_to a c"
  by (auto simp: passes_to_def)

lemma passes_bindR [passing]:
  "passes_to m m' \<Longrightarrow> (\<And>x. m = Inr x \<Longrightarrow> passes_to (f x) (f' x)) \<Longrightarrow> passes_to (bindR m f) (bindR m' f')"
  by (cases m) (auto simp: passes_to_def)

lemma passes_assert [passing]: "(c \<Longrightarrow> c') \<Longrightarrow> (c \<Longrightarrow> passes_to r r') \<Longrightarrow> passes_to (bes_assert c e r) (bes_assert c' e' r')"
  by (auto simp: passes_to_def bes_assert_def)

lemma passes_if [passing]: "(c \<Longrightarrow> passes_to r r') \<Longrightarrow> (\<not> c \<Longrightarrow> passes_to s s') \<Longrightarrow> passes_to (if c then r else s) (if c then r' else s')"
  by simp

lemma passes_prod [passing]: "(\<And>a b. p = (a, b) \<Longrightarrow> passes_to (f a b) (g a b)) \<Longrightarrow> passes_to (case_prod f p) (case_prod g p)"
  by (cases p) simp

lemma passes_option [passing]:
  "(x = None \<Longrightarrow> passes_to r r') \<Longrightarrow> (\<And>a. x = Some a \<Longrightarrow> passes_to (f a) (g a)) \<Longrightarrow> passes_to (case_option r f x) (case_option r' g x)"
  by (cases x) simp_all

lemma passes_Let [passing]: "(\<And>y. y = x \<Longrightarrow> passes_to (f y) (g y)) \<Longrightarrow> passes_to (Let x f) (Let x g)"
  by simp

lemma passes_foldR [passing]: "(\<And>x s. x \<in> set xs \<Longrightarrow> passes_to (f x s) (g x s)) \<Longrightarrow> passes_to (foldR f xs s) (foldR g xs s)"
  by (induction xs arbitrary: s) (auto intro!: passing)

end
