(* ===== verification/Names.thy ===== *)
theory Names
  imports Prelude
begin

text \<open>
  Account, action and permission names: \<^verbatim>\<open>libraries/chain/include/besio/chain/name.hpp\<close> and
  \<^verbatim>\<open>libraries/chain/name.cpp\<close>.  A name is a 64-bit word; up to twelve characters take five
  bits each from the top, the thirteenth takes the lowest four bits.  The lemmas show that
  printing and parsing are inverse to each other and which strings \<open>name_set\<close> accepts.
\<close>

section \<open>The operations\<close>

type_synonym name = word64

text \<open>C strings: the character after the last one is NUL; \<open>c_str\<close> cuts a string at its first NUL.\<close>

definition char_at :: "string \<Rightarrow> nat \<Rightarrow> char" where
  "char_at str i = (if i < length str then str ! i else CHR 0x00)"

definition c_str :: "string \<Rightarrow> string" where
  "c_str s = takeWhile (\<lambda>c. c \<noteq> CHR 0x00) s"

definition char_to_symbol :: "char \<Rightarrow> word64" where
  "char_to_symbol c =
     (let n = of_char c :: nat in
      if of_char CHR ''a'' \<le> n \<and> n \<le> of_char CHR ''z'' then of_nat (n - of_char CHR ''a'') + 6
      else if of_char CHR ''1'' \<le> n \<and> n \<le> of_char CHR ''5'' then of_nat (n - of_char CHR ''1'') + 1
      else 0)"

function string_to_name_loop :: "string \<Rightarrow> nat \<Rightarrow> word64 \<Rightarrow> nat \<times> word64" where
  "string_to_name_loop str i name =
     (if char_at str i \<noteq> CHR 0x00 \<and> i < 12
      then string_to_name_loop str (Suc i)
             (name OR push_bit (64 - 5 * (i + 1)) (char_to_symbol (char_at str i) AND 0x1f))
      else (i, name))"
  by pat_completeness auto
termination
  by (relation "measure (\<lambda>(str, i, name). 12 - i)") auto

definition string_to_name :: "string \<Rightarrow> name" where
  "string_to_name str =
     (case string_to_name_loop str 0 0 of (i, name) \<Rightarrow>
        if i = 12 then name OR (char_to_symbol (char_at str 12) AND 0x0f) else name)"

definition name_empty :: "name \<Rightarrow> bool" where
  "name_empty value \<longleftrightarrow> value = 0"

definition name_charmap :: string where
  "name_charmap = ''.12345abcdefghijklmnopqrstuvwxyz''"

definition name_to_string_step :: "nat \<Rightarrow> word64 \<times> string \<Rightarrow> word64 \<times> string" where
  "name_to_string_step i st =
     (case st of (tmp, str) \<Rightarrow>
        (drop_bit (if i = 0 then 4 else 5) tmp,
         str[12 - i := name_charmap ! unat (tmp AND (if i = 0 then 0x0f else 0x1f))]))"

text \<open>\<^verbatim>\<open>boost::algorithm::trim_right_if\<close>.\<close>

definition trim_right_if :: "(char \<Rightarrow> bool) \<Rightarrow> string \<Rightarrow> string" where
  "trim_right_if p s = rev (dropWhile p (rev s))"

definition name_to_string :: "name \<Rightarrow> string" where
  "name_to_string value =
     trim_right_if (\<lambda>c. c = CHR ''.'')
       (snd (fold name_to_string_step [0..<13] (value, replicate 13 (CHR ''.''))))"

text \<open>\<open>name_set\<close> returns the new value of the name object.\<close>

definition name_set :: "string \<Rightarrow> name result" where
  "name_set s =
     (let str = c_str s; value = string_to_name str in
      bes_assert (min (length str) 14 \<le> 13) name_type_exception
     (bes_assert (name_to_string value = str) name_type_exception
     (Inr value)))"

text \<open>\<^verbatim>\<open>fc::deduplicate\<close> sorts and removes duplicates.\<close>

definition sort_names :: "name list \<Rightarrow> name list" where
  "sort_names names = remdups_adj (sort names)"

section \<open>Characters and five-bit symbols\<close>

definition name_char :: "char \<Rightarrow> bool" where
  "name_char c \<longleftrightarrow> c \<in> set name_charmap"

definition sym_at :: "string \<Rightarrow> nat \<Rightarrow> word64" where
  "sym_at s j = (if j < length s then char_to_symbol (s ! j) else 0)"

text \<open>The field of a name that holds character \<open>j\<close>.\<close>

definition name_field :: "name \<Rightarrow> nat \<Rightarrow> word64" where
  "name_field v j = (if j < 12 then drop_bit (59 - 5 * j) v AND 31 else v AND 15)"

lemma length_name_charmap [simp]: "length name_charmap = 32"
  by (simp add: name_charmap_def)

lemma char_to_symbol_charmap:
  "k < 32 \<Longrightarrow> char_to_symbol (name_charmap ! k) = of_nat k"
proof -
  have "\<forall>k\<in>set [0..<32]. char_to_symbol (name_charmap ! k) = of_nat k"
    unfolding name_charmap_def char_to_symbol_def by code_simp
  then show "k < 32 \<Longrightarrow> ?thesis" by simp
qed

lemma charmap_char_to_symbol:
  "name_char c \<Longrightarrow> name_charmap ! unat (char_to_symbol c) = c"
  by (auto simp: name_char_def in_set_conv_nth char_to_symbol_charmap unat_of_nat)

lemma char_to_symbol_of_nat: "\<exists>k < 32. char_to_symbol c = of_nat k"
proof -
  let ?n = "of_char c :: nat"
  consider "97 \<le> ?n" "?n \<le> 122" | "49 \<le> ?n" "?n \<le> 53"
    | "\<not> (97 \<le> ?n \<and> ?n \<le> 122)" "\<not> (49 \<le> ?n \<and> ?n \<le> 53)" by auto
  then show ?thesis
  proof cases
    case 1
    then have "char_to_symbol c = of_nat (?n - 91)" by (simp add: char_to_symbol_def of_nat_diff)
    moreover from 1 have "?n - 91 < 32" by simp
    ultimately show ?thesis by blast
  next
    case 2
    then have "char_to_symbol c = of_nat (?n - 48)" by (simp add: char_to_symbol_def of_nat_diff)
    moreover from 2 have "?n - 48 < 32" by simp
    ultimately show ?thesis by blast
  next
    case 3
    then have "char_to_symbol c = of_nat 0" by (auto simp: char_to_symbol_def)
    then show ?thesis by (metis zero_less_numeral)
  qed
qed

lemma char_to_symbol_bound: "unat (char_to_symbol c) < 32"
  using char_to_symbol_of_nat [of c] by (auto simp: unat_of_nat)

lemma less_32_mask: "unat (w :: word64) < 32 \<Longrightarrow> w AND 31 = w"
proof -
  assume "unat w < 32"
  then have "take_bit 5 w = w"
    by (simp add: take_bit_eq_mod word_unat_eq_iff unat_mod)
  then show ?thesis by (simp add: take_bit_eq_mask mask_eq_exp_minus_1)
qed

lemma bit_char_to_symbol: "bit (char_to_symbol c) n \<Longrightarrow> n < 5"
proof -
  assume b: "bit (char_to_symbol c) n"
  then have "bit (char_to_symbol c AND mask 5) n"
    using less_32_mask [OF char_to_symbol_bound, of c] by (simp add: mask_eq_exp_minus_1)
  then show "n < 5" by (simp add: bit_simps)
qed

section \<open>Parsing\<close>

lemma field_pos:
  assumes "i < 12" "n < (64::nat)"
  shows "59 - 5 * i \<le> n \<and> n - (59 - 5 * i) < 5 \<longleftrightarrow> 4 \<le> n \<and> i = 11 - (n - 4) div 5"
    and "59 - 5 * i \<le> n \<Longrightarrow> n - (59 - 5 * i) < 5 \<Longrightarrow> n - (59 - 5 * i) = (n - 4) mod 5"
proof -
  define k where "k = 11 - i"
  have k: "59 - 5 * i = 4 + 5 * k" "k < 12" "i = 11 - k" using assms by (auto simp: k_def)
  have q: "(n - 4) div 5 < 12" using assms by (simp add: less_mult_imp_div_less)
  have 1: "4 + 5 * k \<le> n \<and> n < 9 + 5 * k \<longleftrightarrow> 4 \<le> n \<and> k = (n - 4) div 5"
  proof
    assume "4 + 5 * k \<le> n \<and> n < 9 + 5 * k"
    then have "5 * k \<le> n - 4" "n - 4 < 5 * Suc k" "4 \<le> n" by auto
    then show "4 \<le> n \<and> k = (n - 4) div 5" using div_nat_eqI [of 5 k "n - 4"] by blast
  next
    assume "4 \<le> n \<and> k = (n - 4) div 5"
    then show "4 + 5 * k \<le> n \<and> n < 9 + 5 * k"
      using div_mult_mod_eq [of "n - 4" 5] mod_less_divisor [of 5 "n - 4"] by linarith
  qed
  have 2: "59 - 5 * i \<le> n \<and> n - (59 - 5 * i) < 5 \<longleftrightarrow> 4 + 5 * k \<le> n \<and> n < 9 + 5 * k"
    unfolding k(1) by linarith
  have 3: "i = 11 - (n - 4) div 5 \<longleftrightarrow> k = (n - 4) div 5"
    using k(2,3) q by linarith
  show "59 - 5 * i \<le> n \<and> n - (59 - 5 * i) < 5 \<longleftrightarrow> 4 \<le> n \<and> i = 11 - (n - 4) div 5"
    unfolding 1 2 3 ..
  assume "59 - 5 * i \<le> n" "n - (59 - 5 * i) < 5"
  with 1 2 have "4 \<le> n" "k = (n - 4) div 5" by blast+
  then show "n - (59 - 5 * i) = (n - 4) mod 5"
    using k(1) div_mult_mod_eq [of "n - 4" 5] by linarith
qed

text \<open>The bits that the loop sets are those of the symbols of the characters it reads.\<close>

lemma string_to_name_loop_bits:
  assumes "CHR 0x00 \<notin> set s" and "string_to_name_loop s i v = (i', v')" and "i \<le> 12"
  shows "i' = max i (min 12 (length s))
    \<and> (\<forall>n < 64. bit v' n \<longleftrightarrow> bit v n \<or> (4 \<le> n \<and> i \<le> 11 - (n - 4) div 5
          \<and> bit (sym_at s (11 - (n - 4) div 5)) ((n - 4) mod 5)))"
  using assms
proof (induction s i v arbitrary: i' v' rule: string_to_name_loop.induct)
  case (1 s i v)
  show ?case
  proof (cases "char_at s i \<noteq> CHR 0x00 \<and> i < 12")
    case True
    then have len: "i < length s" by (auto simp: char_at_def split: if_splits)
    let ?w = "v OR push_bit (64 - 5 * (i + 1)) (char_to_symbol (char_at s i) AND 0x1f)"
    have w: "bit ?w n \<longleftrightarrow> bit v n \<or> (4 \<le> n \<and> i = 11 - (n - 4) div 5
          \<and> bit (sym_at s i) ((n - 4) mod 5))" if "n < 64" for n
    proof -
      let ?r = "n - (59 - 5 * i)"
      have p: "bit ?w n \<longleftrightarrow> bit v n \<or> (59 - 5 * i \<le> n \<and> bit (char_to_symbol (s ! i)) ?r)"
        using that True len unfolding less_32_mask [OF char_to_symbol_bound]
        by (simp add: bit_or_iff bit_push_bit_iff char_at_def)
      have i: "i < 12" using True by simp
      show ?thesis
      proof (cases "59 - 5 * i \<le> n \<and> ?r < 5")
        case pos: True
        then have c: "4 \<le> n" "11 - (n - 4) div 5 = i" "?r = (n - 4) mod 5"
          using field_pos [OF i that] by metis+
        show ?thesis unfolding p c(2,3) sym_at_def using pos len c(1) by simp
      next
        case neg: False
        have "\<not> (4 \<le> n \<and> i = 11 - (n - 4) div 5)" using neg field_pos(1) [OF i that] by blast
        moreover have "\<not> (59 - 5 * i \<le> n \<and> bit (char_to_symbol (s ! i)) ?r)"
          using neg bit_char_to_symbol by blast
        ultimately show ?thesis using p by blast
      qed
    qed
    from 1 True have ih: "i' = max (Suc i) (min 12 (length s))
      \<and> (\<forall>n < 64. bit v' n \<longleftrightarrow> bit ?w n \<or> (4 \<le> n \<and> Suc i \<le> 11 - (n - 4) div 5
          \<and> bit (sym_at s (11 - (n - 4) div 5)) ((n - 4) mod 5)))"
      by simp
    show ?thesis
    proof (intro conjI allI impI)
      from ih have "i' = max (Suc i) (min 12 (length s))" ..
      with len True show "i' = max i (min 12 (length s))" by auto
      fix n :: nat assume n: "n < 64"
      let ?J = "11 - (n - 4) div 5"
      have "i \<le> ?J \<longleftrightarrow> ?J = i \<or> Suc i \<le> ?J" by linarith
      moreover from ih n have "bit v' n \<longleftrightarrow> bit ?w n
          \<or> (4 \<le> n \<and> Suc i \<le> ?J \<and> bit (sym_at s ?J) ((n - 4) mod 5))" by blast
      ultimately
      show "bit v' n \<longleftrightarrow> bit v n \<or> (4 \<le> n \<and> i \<le> ?J \<and> bit (sym_at s ?J) ((n - 4) mod 5))"
        using w [OF n] by metis
    qed
  next
    case False
    with 1 have r: "i' = i" "v' = v" by auto
    have "length s \<le> i \<or> i = 12"
      using False 1 by (auto simp: char_at_def split: if_splits dest: nth_mem)
    with r 1(4) show ?thesis by (auto simp: sym_at_def)
  qed
qed

lemma string_to_name_bits:
  assumes "CHR 0x00 \<notin> set s" "n < 64"
  shows "bit (string_to_name s) n \<longleftrightarrow>
    (if n < 4 then bit (sym_at s 12) n
     else bit (sym_at s (11 - (n - 4) div 5)) ((n - 4) mod 5))"
proof -
  obtain i v where iv: "string_to_name_loop s 0 0 = (i, v)" by fastforce
  note L = string_to_name_loop_bits [OF assms(1) iv]
  then have i: "i = min 12 (length s)"
    and v: "bit v n \<longleftrightarrow> 4 \<le> n \<and> bit (sym_at s (11 - (n - 4) div 5)) ((n - 4) mod 5)"
    using assms(2) by auto
  have m: "bit (char_to_symbol (char_at s 12) AND 0x0f) n
      \<longleftrightarrow> n < 4 \<and> bit (char_to_symbol (char_at s 12)) n"
    using assms(2) bit_mask_iff [where 'a = word64, of 4 n]
    by (auto simp: bit_and_iff mask_eq_exp_minus_1)
  have z: "char_to_symbol (CHR 0x00) = 0" by (simp add: char_to_symbol_def)
  show ?thesis
    unfolding string_to_name_def iv using i v m z
    by (auto simp: bit_or_iff sym_at_def char_at_def min_def)
qed

lemma name_field_bits:
  assumes "j < 13"
  shows "bit (name_field v j) k \<longleftrightarrow>
    (if j < 12 then k < 5 \<and> bit v (59 - 5 * j + k) else k < 4 \<and> bit v k)"
  using assms bit_mask_iff [where 'a = word64, of 4 k] bit_mask_iff [where 'a = word64, of 5 k]
  by (auto simp: name_field_def bit_and_iff bit_drop_bit_eq mask_eq_exp_minus_1)

text \<open>The thirteen fields determine the word.\<close>

lemma name_field_eqI:
  assumes "\<And>j. j < 13 \<Longrightarrow> name_field v j = name_field w j"
  shows "v = w"
proof (rule bit_word_eqI)
  fix n assume n: "n < LENGTH(64)"
  show "bit v n \<longleftrightarrow> bit w n"
  proof (cases "n < 4")
    case True
    then show ?thesis
      using arg_cong [OF assms [of 12], of "\<lambda>x. bit x n"] by (simp add: name_field_bits)
  next
    case False
    define j where "j = 11 - (n - 4) div 5"
    have j: "j < 12" by (simp add: j_def)
    define k where "k = n - (59 - 5 * j)"
    have "59 - 5 * j \<le> n \<and> n - (59 - 5 * j) < 5"
      using field_pos(1) [OF j, of n] n False by (simp add: j_def)
    then have k: "n = 59 - 5 * j + k" "k < 5" by (simp_all add: k_def)
    have "bit (name_field v j) k = bit (name_field w j) k" using assms j by simp
    with j k(2) show ?thesis unfolding k(1) by (simp add: name_field_bits)
  qed
qed

lemma name_field_bound: "unat (name_field v j) < 32"
proof -
  have "unat (w AND mask k :: word64) < 2 ^ k" if "k < 64" for w k
    using that by (simp add: take_bit_eq_mask [symmetric] unsigned_take_bit_eq)
  from this [of 4 v] this [of 5 "drop_bit (59 - 5 * j) v"]
  show ?thesis by (simp add: name_field_def mask_eq_exp_minus_1)
qed

lemma name_field_string_to_name:
  assumes "CHR 0x00 \<notin> set s" "j < 13"
  shows "name_field (string_to_name s) j = (if j < 12 then sym_at s j else sym_at s 12 AND 15)"
proof (rule bit_word_eqI)
  fix k assume k: "k < LENGTH(64)"
  have b: "bit (sym_at s i) k \<Longrightarrow> k < 5" for i
    by (auto simp: sym_at_def bit_char_to_symbol split: if_splits)
  show "bit (name_field (string_to_name s) j) k
      \<longleftrightarrow> bit (if j < 12 then sym_at s j else sym_at s 12 AND 15) k"
  proof (cases "j < 12")
    case True
    define n where "n = 59 - 5 * j + k"
    have "bit (string_to_name s) n \<longleftrightarrow> bit (sym_at s j) k" if "k < 5"
    proof -
      have "n < 64" "59 - 5 * j \<le> n" "n - (59 - 5 * j) < 5" "\<not> n < 4"
        using that True by (auto simp: n_def)
      then show ?thesis
        using field_pos [OF True \<open>n < 64\<close>] string_to_name_bits [OF assms(1) \<open>n < 64\<close>]
        by (simp add: n_def)
    qed
    with True b [of j] assms show ?thesis by (auto simp: name_field_bits n_def)
  next
    case False
    with assms k show ?thesis
      using bit_mask_iff [where 'a = word64, of 4 k] string_to_name_bits [OF assms(1), of k]
      by (auto simp: name_field_bits bit_and_iff mask_eq_exp_minus_1)
  qed
qed

section \<open>Printing\<close>

definition name_chars :: "name \<Rightarrow> string" where
  "name_chars v = map (\<lambda>j. name_charmap ! unat (name_field v j)) [0..<13]"

lemma name_to_string_loop:
  "snd (fold name_to_string_step [0..<13] (v, replicate 13 (CHR ''.''))) = name_chars v"
proof -
  have u: "[0..<13] = [0, 1, 2, 3, 4, 5, 6, 7, 8, 9, 10, 11, 12 :: nat]" by (simp add: upt_conv_Cons)
  have r: "replicate 13 c = [c, c, c, c, c, c, c, c, c, c, c, c, c]" for c :: char
    by (simp add: numeral_eq_Suc)
  show ?thesis
    unfolding name_chars_def u r
    by (simp add: name_to_string_step_def name_field_def)
qed


lemma length_name_chars [simp]: "length (name_chars v) = 13"
  by (simp add: name_chars_def)

lemma name_chars_nth: "j < 13 \<Longrightarrow> name_chars v ! j = name_charmap ! unat (name_field v j)"
  by (simp add: name_chars_def)

lemma name_char_nul: "\<not> name_char (CHR 0x00)"
  by (simp add: name_char_def name_charmap_def)

lemma set_name_chars: "c \<in> set (name_chars v) \<Longrightarrow> name_char c"
  using name_field_bound [of v] by (auto simp: name_chars_def name_char_def)

lemma name_to_string_chars: "name_to_string v = trim_right_if (\<lambda>c. c = CHR ''.'') (name_chars v)"
  by (simp only: name_to_string_def name_to_string_loop)

text \<open>Trimming removes a block of dots, so it does not change the symbols of the characters.\<close>

lemma trim_right_split:
  obtains n where "s = trim_right_if p s @ drop n s" "\<forall>c \<in> set (drop n s). p c"
    "trim_right_if p s = take n s"
proof -
  let ?d = "rev (takeWhile p (rev s))"
  have eq: "s = trim_right_if p s @ ?d"
    by (metis rev_append rev_rev_ident takeWhile_dropWhile_id trim_right_if_def)
  then have "drop (length (trim_right_if p s)) s = ?d" "take (length (trim_right_if p s)) s = trim_right_if p s"
    by (metis append_eq_conv_conj)+
  moreover have "\<forall>c \<in> set ?d. p c" by (auto dest: set_takeWhileD)
  ultimately show ?thesis using eq that [of "length (trim_right_if p s)"] by simp
qed

lemma sym_at_name_to_string:
  assumes "j < 13"
  shows "sym_at (name_to_string v) j = name_field v j"
proof -
  obtain n where n: "name_to_string v = take n (name_chars v)"
    "\<forall>c \<in> set (drop n (name_chars v)). c = CHR ''.''"
    using trim_right_split [of "name_chars v" "\<lambda>c. c = CHR ''.''"] name_to_string_chars by metis
  have f: "char_to_symbol (name_chars v ! j) = name_field v j"
    using assms name_field_bound [of v j]
    by (simp add: name_chars_nth char_to_symbol_charmap)
  show ?thesis
  proof (cases "j < n")
    case True
    with f n(1) assms show ?thesis by (simp add: sym_at_def)
  next
    case False
    then have "name_chars v ! j \<in> set (drop n (name_chars v))"
      using assms by (auto simp: in_set_conv_nth intro!: exI [of _ "j - n"])
    with n(2) have "name_chars v ! j = CHR ''.''" by blast
    with f have "name_field v j = 0" by (simp add: char_to_symbol_def)
    with False n(1) show ?thesis by (simp add: sym_at_def)
  qed
qed

lemma name_to_string_no_nul: "CHR 0x00 \<notin> set (name_to_string v)"
proof -
  have "set (name_to_string v) \<subseteq> set (name_chars v)"
    by (auto simp: name_to_string_chars trim_right_if_def dest: set_dropWhileD)
  then show ?thesis using set_name_chars name_char_nul by blast
qed

lemma string_to_name_to_string: "string_to_name (name_to_string v) = v"
proof (rule name_field_eqI)
  fix j :: nat assume j: "j < 13"
  have "name_field v 12 AND 15 = name_field v 12"
    by (simp add: name_field_def and.assoc)
  with j show "name_field (string_to_name (name_to_string v)) j = name_field v j"
    by (cases "j < 12")
      (auto simp: name_field_string_to_name [OF name_to_string_no_nul] sym_at_name_to_string
            less_Suc_eq numeral_eq_Suc)
qed

section \<open>Which strings are names\<close>

text \<open>
  The normalized strings: at most thirteen characters of the alphabet, no trailing dot, and a
  thirteenth character that fits into four bits (a dot, a digit or a letter up to \<open>j\<close>).
\<close>

definition normalized :: "string \<Rightarrow> bool" where
  "normalized s \<longleftrightarrow> length s \<le> 13 \<and> (\<forall>c \<in> set s. name_char c)
     \<and> (s \<noteq> [] \<longrightarrow> last s \<noteq> CHR ''.'') \<and> unat (sym_at s 12) < 16"

lemma trim_right_id: "s = [] \<or> \<not> p (last s) \<Longrightarrow> trim_right_if p s = s"
  by (cases s rule: rev_cases) (auto simp: trim_right_if_def)

lemma trim_right_last: "trim_right_if p s \<noteq> [] \<Longrightarrow> \<not> p (last (trim_right_if p s))"
  by (simp add: trim_right_if_def last_rev hd_dropWhile)

lemma trim_right_append: "\<forall>c \<in> set t. p c \<Longrightarrow> trim_right_if p (s @ t) = trim_right_if p s"
  by (induction t rule: rev_induct) (simp_all add: trim_right_if_def)

lemma normalized_name_to_string: "normalized (name_to_string v)"
proof -
  have sub: "set (name_to_string v) \<subseteq> set (name_chars v)"
    by (auto simp: name_to_string_chars trim_right_if_def dest: set_dropWhileD)
  have len: "length (name_to_string v) \<le> 13"
    using length_dropWhile_le [of "\<lambda>c. c = CHR ''.''" "rev (name_chars v)"]
    by (simp add: name_to_string_chars trim_right_if_def)
  have "unat (v AND mask 4) < 2 ^ 4"
    using take_bit_nat_less_exp [of 4 "unat v"]
    by (simp add: take_bit_eq_mask [symmetric] unsigned_take_bit_eq)
  then have "unat (sym_at (name_to_string v) 12) < 16"
    by (simp add: sym_at_name_to_string name_field_def mask_eq_exp_minus_1)
  with len show ?thesis
    using sub set_name_chars trim_right_last [of "\<lambda>c. c = CHR ''.''" "name_chars v"]
    by (auto simp: normalized_def name_to_string_chars)
qed

lemma normalized_no_nul: "normalized s \<Longrightarrow> CHR 0x00 \<notin> set s"
  using name_char_nul by (auto simp: normalized_def)

lemma char_to_symbol_dot: "char_to_symbol (CHR ''.'') = 0"
  by (simp add: char_to_symbol_def)

lemma name_to_string_string_to_name:
  assumes "normalized s"
  shows "name_to_string (string_to_name s) = s"
proof -
  let ?v = "string_to_name s" and ?pad = "s @ replicate (13 - length s) (CHR ''.'')"
  have f: "name_field ?v j = sym_at s j" if "j < 13" for j
  proof (cases "j < 12")
    case False
    have "sym_at s 12 AND mask 4 = sym_at s 12"
      using assms by (simp add: normalized_def take_bit_eq_mask [symmetric] take_bit_eq_mod
          word_unat_eq_iff unat_mod)
    with False that show ?thesis
      by (simp add: name_field_string_to_name [OF normalized_no_nul [OF assms]]
          mask_eq_exp_minus_1) (metis less_Suc_eq numeral_eq_Suc pred_numeral_simps(3))
  qed (simp add: name_field_string_to_name [OF normalized_no_nul [OF assms]])
  have "name_chars ?v = ?pad"
  proof (rule nth_equalityI)
    show "length (name_chars ?v) = length ?pad" using assms by (simp add: normalized_def)
    fix j assume "j < length (name_chars ?v)"
    then have j: "j < 13" by simp
    show "name_chars ?v ! j = ?pad ! j"
    proof (cases "j < length s")
      case True
      then have "name_char (s ! j)" using assms by (simp add: normalized_def)
      with True j show ?thesis
        by (simp add: name_chars_nth f nth_append sym_at_def charmap_char_to_symbol)
    next
      case False
      with j show ?thesis
        by (simp add: name_chars_nth f nth_append sym_at_def name_charmap_def)
    qed
  qed
  moreover have "trim_right_if (\<lambda>c. c = CHR ''.'') ?pad = s"
    using assms by (auto simp: trim_right_append trim_right_id normalized_def)
  ultimately show ?thesis by (simp add: name_to_string_chars)
qed

lemma c_str_id: "CHR 0x00 \<notin> set s \<Longrightarrow> c_str s = s"
  by (auto simp: c_str_def takeWhile_eq_all_conv)

section \<open>Properties\<close>

text \<open>C10. Every 64-bit name survives printing and parsing: \<open>name::set\<close> accepts the printed form of
  any name value and gives the value back.\<close>

theorem name_set_to_string: "name_set (name_to_string v) = Inr v"
proof -
  have "length (name_to_string v) \<le> 13"
    using normalized_name_to_string [of v] by (simp add: normalized_def)
  then show ?thesis
    by (simp add: name_set_def Let_def c_str_id [OF name_to_string_no_nul]
        string_to_name_to_string)
qed

text \<open>C11. \<open>name::set\<close> accepts exactly the normalized strings (at most thirteen characters of the
  alphabet, no trailing dot, a thirteenth character that fits four bits), stores a value that
  prints as the string given, and throws \<open>name_type_exception\<close> on every other string.\<close>

theorem name_set_total:
  "if normalized (c_str s) then \<exists>v. name_set s = Inr v \<and> name_to_string v = c_str s
   else name_set s = Inl name_type_exception"
proof (cases "normalized (c_str s)")
  case True
  then have "length (c_str s) \<le> 13" by (simp add: normalized_def)
  with True show ?thesis by (simp add: name_set_def Let_def name_to_string_string_to_name)
next
  case False
  then have "name_to_string (string_to_name (c_str s)) \<noteq> c_str s"
    using normalized_name_to_string by metis
  with False show ?thesis by (simp add: name_set_def Let_def bes_assert_def)
qed

end
