(* ===== verification/Merkle.thy ===== *)
theory Merkle
  imports Prelude
begin

text \<open>
  Merkle roots: \<^verbatim>\<open>libraries/chain/merkle.cpp\<close> (the root of a vector of digests, computed level by
  level in place) and \<^verbatim>\<open>libraries/chain/include/besio/chain/incremental_merkle.hpp\<close> (the tree
  that is extended by one digest at a time and keeps only the nodes later appends need).

  A SHA-256 digest is four 64-bit words.  The hash of a pair, \<^verbatim>\<open>digest_type::hash(pair)\<close>, is
  computed by OpenSSL over the packed pair; it is the parameter \<open>hash\<close> of the definitions and
  nothing is assumed about it.  The main results: the in-place loop computes the pairwise level;
  an incremental tree built by appending a list of digests never reads past its active nodes and
  has the same root as \<open>merkle\<close> of that list.
\<close>

section \<open>Digests\<close>

datatype sha256 = SHA256 (hash0: word64) (hash1: word64) (hash2: word64) (hash3: word64)

type_synonym pair_hash = "sha256 \<times> sha256 \<Rightarrow> sha256"

definition default_digest :: sha256 where
  "default_digest = SHA256 0 0 0 0"

definition make_canonical_left :: "sha256 \<Rightarrow> sha256" where
  "make_canonical_left val =
     SHA256 (hash0 val AND 0xFFFFFFFFFFFFFF7F) (hash1 val) (hash2 val) (hash3 val)"

definition make_canonical_right :: "sha256 \<Rightarrow> sha256" where
  "make_canonical_right val =
     SHA256 (hash0 val OR 0x0000000000000080) (hash1 val) (hash2 val) (hash3 val)"

definition is_canonical_left :: "sha256 \<Rightarrow> bool" where
  "is_canonical_left val \<longleftrightarrow> hash0 val AND 0x0000000000000080 = 0"

definition is_canonical_right :: "sha256 \<Rightarrow> bool" where
  "is_canonical_right val \<longleftrightarrow> hash0 val AND 0x0000000000000080 \<noteq> 0"

definition make_canonical_pair :: "sha256 \<Rightarrow> sha256 \<Rightarrow> sha256 \<times> sha256" where
  "make_canonical_pair l r = (make_canonical_left l, make_canonical_right r)"

section \<open>The root of a vector of digests\<close>

text \<open>
  One pass of the loop: \<open>ids[i] = hash(make_canonical_pair(ids[2i], ids[2i+1]))\<close> for \<open>i\<close> from 0
  up to half the size, in place, after the last digest of an odd vector has been duplicated.
\<close>

fun merkle_pass :: "pair_hash \<Rightarrow> nat \<Rightarrow> nat \<Rightarrow> sha256 list \<Rightarrow> sha256 list" where
  "merkle_pass hash i 0 ids = ids"
| "merkle_pass hash i (Suc k) ids =
     merkle_pass hash (Suc i) k
       (ids[i := hash (make_canonical_pair (ids ! (2 * i)) (ids ! (2 * i + 1)))])"

definition merkle_level :: "pair_hash \<Rightarrow> sha256 list \<Rightarrow> sha256 list" where
  "merkle_level hash ids =
     (let ids = (if odd (length ids) then ids @ [last ids] else ids) in
      take (length ids div 2) (merkle_pass hash 0 (length ids div 2) ids))"

lemma length_merkle_pass [simp]: "length (merkle_pass hash i k ids) = length ids"
  by (induction hash i k ids rule: merkle_pass.induct) simp_all

lemma length_merkle_level [simp]: "length (merkle_level hash ids) = (length ids + 1) div 2"
  by (simp add: merkle_level_def Let_def)

function merkle_loop :: "pair_hash \<Rightarrow> sha256 list \<Rightarrow> sha256 list" where
  "merkle_loop hash ids = (if length ids > 1 then merkle_loop hash (merkle_level hash ids) else ids)"
  by pat_completeness auto
termination
  by (relation "measure (\<lambda>(hash, ids). length ids)") auto

declare merkle_loop.simps [simp del]

definition merkle :: "pair_hash \<Rightarrow> sha256 list \<Rightarrow> sha256" where
  "merkle hash ids =
     (if length ids = 0 then default_digest else hd (merkle_loop hash ids))"

section \<open>The incremental tree\<close>

text \<open>\<^verbatim>\<open>next_power_of_2\<close>, \<^verbatim>\<open>clz_power_2\<close> and \<^verbatim>\<open>calcluate_max_depth\<close> of namespace \<^verbatim>\<open>detail\<close>.\<close>

definition next_power_of_2 :: "word64 \<Rightarrow> word64" where
  "next_power_of_2 value =
     (let value = value - 1;
          value = value OR drop_bit 1 value;
          value = value OR drop_bit 2 value;
          value = value OR drop_bit 4 value;
          value = value OR drop_bit 8 value;
          value = value OR drop_bit 16 value;
          value = value OR drop_bit 32 value
      in value + 1)"

definition clz_power_2 :: "word64 \<Rightarrow> int" where
  "clz_power_2 value =
     (let lz = 64;
          lz = (if value \<noteq> 0 then lz - 1 else lz);
          lz = (if value AND 0x00000000FFFFFFFF \<noteq> 0 then lz - 32 else lz);
          lz = (if value AND 0x0000FFFF0000FFFF \<noteq> 0 then lz - 16 else lz);
          lz = (if value AND 0x00FF00FF00FF00FF \<noteq> 0 then lz - 8 else lz);
          lz = (if value AND 0x0F0F0F0F0F0F0F0F \<noteq> 0 then lz - 4 else lz);
          lz = (if value AND 0x3333333333333333 \<noteq> 0 then lz - 2 else lz);
          lz = (if value AND 0x5555555555555555 \<noteq> 0 then lz - 1 else lz)
      in lz)"

definition calcluate_max_depth :: "word64 \<Rightarrow> int" where
  "calcluate_max_depth node_count =
     (if node_count = 0 then 0 else clz_power_2 (next_power_of_2 node_count) + 1)"

record incremental_merkle =
  node_count :: word64
  active_nodes :: "sha256 list"

definition empty_incremental_merkle :: incremental_merkle where
  "empty_incremental_merkle = \<lparr>node_count = 0, active_nodes = []\<rparr>"

text \<open>
  The loop of \<^verbatim>\<open>append\<close>.  \<open>active\<close> is the part of \<open>_active_nodes\<close> from \<open>active_iter\<close> on; reading
  it when it is empty is a read past the end of the vector.  \<open>current_depth\<close> is the number of
  iterations left (the loop runs while it is positive).  The result is the pair of
  \<open>updated_active_nodes\<close> and \<open>top\<close> (here \<open>tp\<close>).
\<close>

fun append_loop :: "pair_hash \<Rightarrow> nat \<Rightarrow> word64 \<Rightarrow> sha256 \<Rightarrow> sha256 list \<Rightarrow> bool \<Rightarrow> sha256 list
    \<Rightarrow> (sha256 list \<times> sha256) result" where
  "append_loop hash 0 index tp active partial updated = Inr (updated, tp)"
| "append_loop hash (Suc current_depth) index tp active partial updated =
     (if index AND 1 = 0 then
        (let updated = (if \<not> partial then updated @ [tp] else updated);
             tp = hash (make_canonical_pair tp tp)
         in append_loop hash current_depth (drop_bit 1 index) tp active True updated)
      else
        (case active of
           [] \<Rightarrow> Inl undefined_behaviour
         | left_value # active \<Rightarrow>
             (let updated = (if partial then updated @ [left_value] else updated);
                  tp = hash (make_canonical_pair left_value tp)
              in append_loop hash current_depth (drop_bit 1 index) tp active partial updated)))"

definition merkle_append :: "pair_hash \<Rightarrow> incremental_merkle \<Rightarrow> sha256 \<Rightarrow> incremental_merkle result" where
  "merkle_append hash m digest =
     (let max_depth = calcluate_max_depth (node_count m + 1);
          current_depth = max_depth - 1
      in bindR (append_loop hash (nat current_depth) (node_count m) digest (active_nodes m) False [])
           (\<lambda>(updated, tp). Inr \<lparr>node_count = node_count m + 1, active_nodes = updated @ [tp]\<rparr>))"

definition get_root :: "incremental_merkle \<Rightarrow> sha256" where
  "get_root m = (if node_count m > 0 then last (active_nodes m) else default_digest)"

section \<open>Canonical pairs\<close>

lemma canonical_left: "is_canonical_left (make_canonical_left d)"
  by (simp add: is_canonical_left_def make_canonical_left_def and.assoc)

lemma canonical_right: "is_canonical_right (make_canonical_right d)"
proof -
  have "bit ((hash0 d OR 0x80) AND 0x80) 7" by (simp add: bit_simps)
  then have "(hash0 d OR 0x80) AND 0x80 \<noteq> 0" by (metis bit_0_eq bot_apply bot_bool_def)
  then show ?thesis by (simp add: is_canonical_right_def make_canonical_right_def)
qed

section \<open>One level\<close>

text \<open>The pairwise level, dropping an unpaired last digest: the complete nodes of the next level.\<close>

fun pairs :: "pair_hash \<Rightarrow> sha256 list \<Rightarrow> sha256 list" where
  "pairs hash (x # y # xs) = hash (make_canonical_pair x y) # pairs hash xs"
| "pairs hash xs = []"

lemma length_pairs [simp]: "length (pairs hash xs) = length xs div 2"
  by (induction hash xs rule: pairs.induct) auto

lemma pairs_append_even: "even (length xs) \<Longrightarrow> pairs hash (xs @ ys) = pairs hash xs @ pairs hash ys"
  by (induction hash xs rule: pairs.induct) auto

lemma pairs_snoc_odd:
  assumes "odd (length xs)"
  shows "pairs hash (xs @ [y]) = pairs hash xs @ [hash (make_canonical_pair (last xs) y)]"
proof -
  obtain zs x where xs: "xs = zs @ [x]" using assms by (cases xs rule: rev_cases) auto
  with assms have "even (length zs)" by simp
  then show ?thesis by (simp add: xs pairs_append_even)
qed

lemma pairs_snoc_even: "even (length xs) \<Longrightarrow> pairs hash (xs @ [y]) = pairs hash xs"
  by (simp add: pairs_append_even)

text \<open>
  The in-place pass never overwrites a digest it still has to read: position \<open>i\<close> is written when
  the positions \<open>2i\<close> and \<open>2i+1\<close> have been read.
\<close>

lemma merkle_pass_pairs:
  assumes "length ids = 2 * (i + k)"
  shows "take (i + k) (merkle_pass hash i k ids) = take i ids @ pairs hash (drop (2 * i) ids)"
  using assms
proof (induction hash i k ids rule: merkle_pass.induct)
  case (1 hash i ids)
  then show ?case by simp
next
  case (2 hash i k ids)
  let ?h = "hash (make_canonical_pair (ids ! (2 * i)) (ids ! (2 * i + 1)))"
  have d: "drop (2 * i) ids = ids ! (2 * i) # ids ! (2 * i + 1) # drop (2 * Suc i) ids"
    using 2(2) by (simp add: Cons_nth_drop_Suc)
  have "take (Suc i + k) (merkle_pass hash (Suc i) k (ids[i := ?h]))
      = take (Suc i) (ids[i := ?h]) @ pairs hash (drop (2 * Suc i) (ids[i := ?h]))"
    using 2 by simp
  also have "take (Suc i) (ids[i := ?h]) = take i ids @ [?h]"
    using 2(2) by (simp add: take_Suc_conv_app_nth)
  also have "drop (2 * Suc i) (ids[i := ?h]) = drop (2 * Suc i) ids"
    by (simp add: drop_update_cancel)
  finally show ?case using d by simp
qed

lemma merkle_level_pairs:
  "merkle_level hash ids = pairs hash (if odd (length ids) then ids @ [last ids] else ids)"
proof -
  let ?ids = "if odd (length ids) then ids @ [last ids] else ids"
  have "even (length ?ids)" by simp
  then have "length ?ids = 2 * (0 + length ?ids div 2)" by simp
  from merkle_pass_pairs [OF this, of hash] show ?thesis
    by (simp add: merkle_level_def Let_def)
qed

text \<open>A level ends with its last node, complete or partial.\<close>

lemma merkle_level_snoc:
  "merkle_level hash (xs @ [y]) = pairs hash xs @
     [hash (make_canonical_pair (if even (length xs) then y else last xs) y)]"
  by (auto simp: merkle_level_pairs pairs_append_even pairs_snoc_odd)

section \<open>The depth of the tree\<close>

text \<open>The number of levels above the leaves: how often a level of \<open>n\<close> nodes is halved.\<close>

fun level_depth :: "nat \<Rightarrow> nat" where
  "level_depth n = (if n \<le> 1 then 0 else Suc (level_depth ((n + 1) div 2)))"

declare level_depth.simps [simp del]

lemma level_depth_0 [simp]: "n \<le> 1 \<Longrightarrow> level_depth n = 0"
  by (simp add: level_depth.simps)

lemma level_depth_Suc [simp]: "1 < n \<Longrightarrow> level_depth n = Suc (level_depth ((n + 1) div 2))"
  by (simp add: level_depth.simps)

lemma level_depth_upper: "n \<le> 2 ^ level_depth n"
proof (induction n rule: level_depth.induct)
  case (1 n)
  show ?case
  proof (cases "n \<le> 1")
    case False
    with 1 have "(n + 1) div 2 \<le> 2 ^ level_depth ((n + 1) div 2)" by simp
    then have "n \<le> 2 * 2 ^ level_depth ((n + 1) div 2)" by linarith
    with False show ?thesis by simp
  qed simp
qed

lemma level_depth_lower: "1 < n \<Longrightarrow> 2 ^ (level_depth n - 1) < n"
proof (induction n rule: level_depth.induct)
  case (1 n)
  show ?case
  proof (cases "n = 2")
    case False
    with 1 have "2 ^ (level_depth ((n + 1) div 2) - 1) < (n + 1) div 2"
      and d: "level_depth ((n + 1) div 2) = Suc (level_depth (((n + 1) div 2 + 1) div 2))" by auto
    then have "2 * 2 ^ (level_depth ((n + 1) div 2) - 1) < n" by linarith
    moreover have "2 * 2 ^ (level_depth ((n + 1) div 2) - 1) = (2 :: nat) ^ level_depth ((n + 1) div 2)"
      unfolding d by simp
    ultimately show ?thesis using level_depth_Suc [OF 1(2)] by simp
  qed simp
qed

text \<open>Each \<open>value |= value >> k\<close> doubles the number of positions a set bit is spread to.\<close>

lemma smear_step:
  fixes x v :: word64
  assumes "\<And>n. bit x n \<longleftrightarrow> (\<exists>j < k. bit v (n + j))"
  shows "bit (x OR drop_bit k x) n \<longleftrightarrow> (\<exists>j < 2 * k. bit v (n + j))"
proof -
  have "(\<exists>j < k. bit v (n + j)) \<or> (\<exists>j < k. bit v (n + k + j)) \<longleftrightarrow> (\<exists>j < 2 * k. bit v (n + j))"
  proof
    assume "\<exists>j < 2 * k. bit v (n + j)"
    then obtain j where j: "j < 2 * k" "bit v (n + j)" by blast
    show "(\<exists>j < k. bit v (n + j)) \<or> (\<exists>j < k. bit v (n + k + j))"
    proof (cases "j < k")
      case False
      with j have "j - k < k" "bit v (n + k + (j - k))" by auto
      then show ?thesis by blast
    qed (use j in blast)
  next
    assume "(\<exists>j < k. bit v (n + j)) \<or> (\<exists>j < k. bit v (n + k + j))"
    then show "\<exists>j < 2 * k. bit v (n + j)"
    proof
      assume "\<exists>j < k. bit v (n + k + j)"
      then obtain j where "j < k" "bit v (n + (k + j))" by (auto simp: add.assoc)
      then show ?thesis by (intro exI [of _ "k + j"]) simp
    qed (metis mult_2 trans_less_add1)
  qed
  with assms show ?thesis by (simp add: bit_or_iff bit_drop_bit_eq add.commute add.left_commute)
qed

definition smear :: "word64 \<Rightarrow> word64" where
  "smear value =
     (let value = value OR drop_bit 1 value;
          value = value OR drop_bit 2 value;
          value = value OR drop_bit 4 value;
          value = value OR drop_bit 8 value;
          value = value OR drop_bit 16 value
      in value OR drop_bit 32 value)"

lemma bit_smear: "bit (smear v) n \<longleftrightarrow> (\<exists>j < 64. bit v (n + j))"
proof -
  have 0: "bit v n \<longleftrightarrow> (\<exists>j < 1. bit v (n + j))" for n by simp
  note 1 = smear_step [OF 0]
  note 2 = smear_step [OF 1]
  note 4 = smear_step [OF 2]
  note 8 = smear_step [OF 4]
  note 16 = smear_step [OF 8]
  note 32 = smear_step [OF 16]
  from 32 show ?thesis by (simp add: smear_def Let_def)
qed

lemma smear_mask:
  assumes "2 ^ h \<le> unat v" "unat v < 2 ^ Suc h" "h < 64"
  shows "smear v = mask (Suc h)"
proof (rule bit_word_eqI)
  fix n assume n: "n < LENGTH(64)"
  have top_bit: "bit v h"
  proof -
    have "odd (unat v div 2 ^ h)"
    proof -
      have "unat v div 2 ^ h = 1" using assms by (intro div_nat_eqI) auto
      then show ?thesis by simp
    qed
    then have "bit (unat v) h" by (simp add: bit_iff_odd)
    then show ?thesis by (simp add: bit_unsigned_iff)
  qed
  have above: "\<not> bit v m" if "h < m" for m
  proof
    assume "bit v m"
    then have "bit (unat v) m" by (simp add: bit_unsigned_iff)
    then have "2 ^ m \<le> unat v" by (metis bit_iff_odd div_less even_zero not_le)
    moreover have "2 ^ Suc h \<le> (2::nat) ^ m" using that by (intro power_increasing) auto
    ultimately show False using assms(2) by linarith
  qed
  have "(\<exists>j < 64. bit v (n + j)) \<longleftrightarrow> n \<le> h"
  proof
    assume "n \<le> h"
    with top_bit assms(3) show "\<exists>j < 64. bit v (n + j)" by (intro exI [of _ "h - n"]) auto
  next
    assume "\<exists>j < 64. bit v (n + j)"
    then obtain j where "bit v (n + j)" by blast
    with above show "n \<le> h" by (meson le_add1 le_trans not_le)
  qed
  then show "bit (smear v) n \<longleftrightarrow> bit (mask (Suc h) :: word64) n"
    using n by (simp add: bit_smear bit_mask_iff less_Suc_eq_le)
qed

lemma next_power_of_2_smear: "next_power_of_2 v = smear (v - 1) + 1"
  by (simp add: next_power_of_2_def smear_def Let_def)

lemma clz_power_2_power: "k < 64 \<Longrightarrow> clz_power_2 (2 ^ k) = int k"
proof -
  have "\<forall>k\<in>set [0..<64]. clz_power_2 (2 ^ k) = int k"
    by (simp add: clz_power_2_def Let_def upt_conv_Cons)
  then show "k < 64 \<Longrightarrow> ?thesis" by simp
qed

lemma next_power_of_2_depth:
  assumes "1 \<le> n" "n \<le> 2 ^ 63"
  shows "next_power_of_2 (of_nat n) = 2 ^ level_depth n \<and> level_depth n \<le> 63"
proof (cases "n = 1")
  case True
  have "smear 0 = 0" by (rule bit_word_eqI) (simp add: bit_smear)
  with True show ?thesis by (simp add: next_power_of_2_smear)
next
  case False
  with assms have n: "1 < n" by simp
  define h where "h = level_depth n - 1"
  have h: "level_depth n = Suc h" using n by (simp add: h_def)
  have lo: "2 ^ h < n" using level_depth_lower [OF n] by (simp add: h_def)
  have "(2::nat) ^ h < 2 ^ 63" using lo assms(2) by linarith
  then have h63: "h < 63" by (rule power_less_imp_less_exp [rotated]) simp
  have u: "unat (of_nat n - 1 :: word64) = n - 1"
  proof -
    have "(of_nat n - 1 :: word64) = of_nat (n - 1)" using n by (simp add: of_nat_diff)
    then show ?thesis using assms(2) by (simp add: unat_of_nat)
  qed
  have "smear (of_nat n - 1) = mask (Suc h)"
    using lo level_depth_upper [of n] h h63 n by (intro smear_mask) (simp_all add: u)
  then show ?thesis
    using h h63 by (simp add: next_power_of_2_smear mask_eq_exp_minus_1)
qed

lemma calcluate_max_depth_level:
  assumes "1 \<le> n" "n \<le> 2 ^ 63"
  shows "calcluate_max_depth (of_nat n) = int (level_depth n) + 1"
proof -
  have "unat (of_nat n :: word64) = n" using assms by (simp add: unat_of_nat)
  then have "(of_nat n :: word64) \<noteq> 0" using assms by auto
  moreover have "level_depth n < 64" using next_power_of_2_depth [OF assms] by simp
  ultimately show ?thesis
    using next_power_of_2_depth [OF assms]
    by (simp add: calcluate_max_depth_def clz_power_2_power)
qed

section \<open>The incremental tree keeps the peaks\<close>

text \<open>
  The roots of the complete subtrees that later appends still need, one for each set bit of the
  number of leaves, from the lowest level up.
\<close>

function peaks :: "pair_hash \<Rightarrow> sha256 list \<Rightarrow> sha256 list" where
  "peaks hash xs =
     (if xs = [] then []
      else (if odd (length xs) then [last xs] else []) @ peaks hash (pairs hash xs))"
  by pat_completeness auto
termination
  by (relation "measure (\<lambda>(hash, xs). length xs)") auto

declare peaks.simps [simp del]

lemma peaks_Nil [simp]: "peaks hash [] = []"
  by (simp add: peaks.simps)

lemma peaks_even: "even (length xs) \<Longrightarrow> peaks hash xs = peaks hash (pairs hash xs)"
  by (cases "xs = []") (simp_all add: peaks.simps [of hash xs])

lemma peaks_odd: "odd (length xs) \<Longrightarrow> peaks hash xs = last xs # peaks hash (pairs hash xs)"
  by (auto simp: peaks.simps [of hash xs])

lemma merkle_loop_snoc:
  assumes "xs \<noteq> []"
  shows "merkle_loop hash (xs @ [y]) = merkle_loop hash (pairs hash xs @
     [hash (make_canonical_pair (if even (length xs) then y else last xs) y)])"
  using assms by (simp add: merkle_loop.simps [of hash "xs @ [y]"] merkle_level_snoc)

lemma index_word:
  fixes index :: word64
  shows "index AND 1 = 0 \<longleftrightarrow> even (unat index)" and "unat (drop_bit (Suc 0) index) = unat index div 2"
proof -
  have "even index \<longleftrightarrow> even (unat index)"
    using bit_unsigned_iff [where 'a = nat, of index 0] by (simp add: bit_0)
  then show "index AND 1 = 0 \<longleftrightarrow> even (unat index)" by (simp add: and_one_eq mod_2_eq_odd)
  show "unat (drop_bit (Suc 0) index) = unat index div 2"
    by (simp add: drop_bit_Suc unat_div)
qed

lemma append_loop_peaks:
  assumes "unat index = length xs" and "d = level_depth (length xs + 1)"
  shows "\<exists>upd root. append_loop hash d index tp (peaks hash xs @ rest) partial updated
      = Inr (updated @ upd, root)
    \<and> root = hd (merkle_loop hash (xs @ [tp]))
    \<and> (if partial then upd = peaks hash xs
       else \<exists>rest'. upd @ [root] = peaks hash (xs @ [tp]) @ rest')"
  using assms
proof (induction d arbitrary: index xs tp partial updated)
  case 0
  then have "xs = []" by (cases xs) simp_all
  then show ?case by (simp add: merkle_loop.simps peaks_odd)
next
  case (Suc d)
  then have ne: "xs \<noteq> []" by auto
  have d: "d = level_depth (length (pairs hash xs) + 1)" using Suc.prems(2) ne by simp
  have idx: "unat (drop_bit 1 index) = length (pairs hash xs)"
    using Suc.prems(1) by (simp add: index_word)
  let ?l = "if even (length xs) then tp else last xs"
  let ?tp = "hash (make_canonical_pair ?l tp)"
  note IH = Suc.IH [OF idx d]
  note root = merkle_loop_snoc [OF ne, of hash tp]
  show ?case
  proof (cases "even (length xs)")
    case True
    obtain upd root where
      u: "append_loop hash d (drop_bit 1 index) ?tp (peaks hash (pairs hash xs) @ rest) True
            (if \<not> partial then updated @ [tp] else updated)
          = Inr ((if \<not> partial then updated @ [tp] else updated) @ upd, root)"
      "root = hd (merkle_loop hash (pairs hash xs @ [?tp]))" "upd = peaks hash (pairs hash xs)"
      using IH [of ?tp True] by auto
    have "peaks hash (xs @ [tp]) = tp # peaks hash (pairs hash xs)"
      using True by (simp add: peaks_odd pairs_snoc_even)
    with True u root Suc.prems(1) show ?thesis
      by (auto simp: index_word peaks_even Let_def split: if_splits)
  next
    case False
    obtain upd root where
      u: "append_loop hash d (drop_bit 1 index) ?tp (peaks hash (pairs hash xs) @ rest) partial
            (if partial then updated @ [last xs] else updated)
          = Inr ((if partial then updated @ [last xs] else updated) @ upd, root)"
      "root = hd (merkle_loop hash (pairs hash xs @ [?tp]))"
      "if partial then upd = peaks hash (pairs hash xs)
       else \<exists>rest'. upd @ [root] = peaks hash (pairs hash xs @ [?tp]) @ rest'"
      using IH [of ?tp partial] by blast
    have "peaks hash (xs @ [tp]) = peaks hash (pairs hash xs @ [?tp])"
      using False by (simp add: peaks_even pairs_snoc_odd)
    with False u root Suc.prems(1) show ?thesis
      by (auto simp: index_word peaks_odd Let_def split: if_splits)
  qed
qed

text \<open>
  What a tree of \<open>incremental_merkle\<close> stands for: the list of digests appended to it.
\<close>

definition tree_of :: "pair_hash \<Rightarrow> incremental_merkle \<Rightarrow> sha256 list \<Rightarrow> bool" where
  "tree_of hash m xs \<longleftrightarrow> node_count m = of_nat (length xs) \<and> length xs \<le> 2 ^ 63
     \<and> (\<exists>rest. active_nodes m = peaks hash xs @ rest)
     \<and> get_root m = merkle hash xs"

lemma tree_of_append:
  assumes "tree_of hash m xs" and "length xs < 2 ^ 63"
  shows "\<exists>m'. merkle_append hash m x = Inr m' \<and> tree_of hash m' (xs @ [x])"
proof -
  obtain rest where a: "active_nodes m = peaks hash xs @ rest"
    using assms(1) by (auto simp: tree_of_def)
  have nc: "node_count m = of_nat (length xs)" using assms(1) by (simp add: tree_of_def)
  have u: "unat (node_count m) = length xs"
    using assms(2) by (simp add: nc unat_of_nat)
  have nc': "node_count m + 1 = of_nat (length xs + 1)" by (simp add: nc)
  have "calcluate_max_depth (node_count m + 1) = int (level_depth (length xs + 1)) + 1"
    unfolding nc' using assms(2) by (intro calcluate_max_depth_level) auto
  then have d: "nat (calcluate_max_depth (node_count m + 1) - 1) = level_depth (length xs + 1)" by simp
  obtain upd root rest' where
    l: "append_loop hash (level_depth (length xs + 1)) (node_count m) x (active_nodes m) False []
        = Inr (upd, root)"
    and root: "root = hd (merkle_loop hash (xs @ [x]))"
    and p: "upd @ [root] = peaks hash (xs @ [x]) @ rest'"
    using append_loop_peaks [OF u refl, of hash x rest False "[]"] a by auto
  let ?m = "\<lparr>node_count = node_count m + 1, active_nodes = upd @ [root]\<rparr>"
  have m: "merkle_append hash m x = Inr ?m" using l by (simp add: merkle_append_def Let_def d)
  have "unat (node_count m + 1) = length xs + 1"
    unfolding nc' using assms(2) by (simp only: unat_of_nat) simp
  then have "node_count m + 1 > 0" by (simp add: word_less_nat_alt)
  then have "get_root ?m = merkle hash (xs @ [x])" by (simp add: get_root_def merkle_def root)
  then have "tree_of hash ?m (xs @ [x])"
    using p assms(2) by (simp add: tree_of_def nc)
  with m show ?thesis by blast
qed

section \<open>Accumulators\<close>

text \<open>
  The interface the block header state relies on: a structure to which values are appended one
  at a time, that stands for the list of the values appended, up to a capacity.
\<close>

locale accumulator =
  fixes add :: "'s \<Rightarrow> 'x \<Rightarrow> 'e + 's"
    and start :: 's
    and stands_for :: "'s \<Rightarrow> 'x list \<Rightarrow> bool"
    and capacity :: nat
  assumes stands_for_start: "stands_for start []"
    and stands_for_add: "stands_for s xs \<Longrightarrow> length xs < capacity
          \<Longrightarrow> \<exists>t. add s x = Inr t \<and> stands_for t (xs @ [x])"
begin

lemma add_all_from:
  "stands_for s xs \<Longrightarrow> length xs + length ys \<le> capacity
   \<Longrightarrow> \<exists>t. foldR (\<lambda>x s. add s x) ys s = Inr t \<and> stands_for t (xs @ ys)"
proof (induction ys arbitrary: s xs)
  case Nil
  then show ?case by simp
next
  case (Cons y ys)
  then obtain t where t: "add s y = Inr t" "stands_for t (xs @ [y])"
    using stands_for_add [of s xs y] by auto
  with Cons.IH [of t "xs @ [y]"] Cons.prems(2) show ?case by simp
qed

lemma add_all:
  "length ys \<le> capacity \<Longrightarrow> \<exists>t. foldR (\<lambda>x s. add s x) ys start = Inr t \<and> stands_for t ys"
  using add_all_from [OF stands_for_start, of ys] by simp

end

interpretation tree: accumulator "merkle_append hash" empty_incremental_merkle "tree_of hash" "2 ^ 63"
  for hash
proof unfold_locales
  show "tree_of hash empty_incremental_merkle []"
    by (simp add: tree_of_def empty_incremental_merkle_def get_root_def merkle_def)
  show "\<exists>t. merkle_append hash s x = Inr t \<and> tree_of hash t (xs @ [x])"
    if "tree_of hash s xs" "length xs < 2 ^ 63" for s xs x
    using that by (rule tree_of_append)
qed

section \<open>Properties\<close>

text \<open>C9. Appending digests one by one to an empty incremental Merkle tree never reads past the end of
  the active nodes, and the root it reports is the root that \<open>merkle\<close> computes from the whole
  vector, for any number of digests up to 2 to the 63.\<close>

theorem incremental_merkle_root:
  "length ids \<le> 2 ^ 63 \<Longrightarrow>
   \<exists>m. foldR (\<lambda>d m. merkle_append hash m d) ids empty_incremental_merkle = Inr m
     \<and> unat (node_count m) = length ids \<and> get_root m = merkle hash ids"
proof -
  assume len: "length ids \<le> 2 ^ 63"
  from tree.add_all [OF this] obtain m where
    "foldR (\<lambda>d m. merkle_append hash m d) ids empty_incremental_merkle = Inr m" "tree_of hash m ids"
    by blast
  with len show ?thesis by (auto simp: tree_of_def unat_of_nat)
qed

theorem incremental_merkle_root_witness:
  "\<exists>m. foldR (\<lambda>d m. merkle_append fst m d) [default_digest, SHA256 1 2 3 4, SHA256 5 6 7 8]
         empty_incremental_merkle = Inr m
     \<and> get_root m = merkle fst [default_digest, SHA256 1 2 3 4, SHA256 5 6 7 8]"
proof -
  have "length [default_digest, SHA256 1 2 3 4, SHA256 5 6 7 8] \<le> 2 ^ 63" by simp
  from incremental_merkle_root [OF this, of fst] show ?thesis by blast
qed

text \<open>The in-place loop of \<open>merkle\<close> (which overwrites the front of the vector while it still
  reads from it) computes each level as the pairwise hashes of the previous one, the last digest
  of an odd level paired with itself.\<close>

theorem merkle_level_in_place:
  "merkle_level hash ids = pairs hash (if odd (length ids) then ids @ [last ids] else ids)"
  by (rule merkle_level_pairs)

text \<open>For every node count from 1 to 2 to the 63, \<open>calcluate_max_depth\<close> (bit smearing and masks on
  64-bit words) is one more than the number of times a level of that many nodes is halved, and
  a tree of that depth has room for the nodes while the next smaller one has not.\<close>

theorem calcluate_max_depth_minimal:
  assumes "1 \<le> n" and "n \<le> 2 ^ 63"
  shows "calcluate_max_depth (of_nat n) = int (level_depth n) + 1
    \<and> n \<le> 2 ^ level_depth n \<and> (n = 1 \<or> 2 ^ (level_depth n - 1) < n)"
  using calcluate_max_depth_level [OF assms] level_depth_upper [of n] level_depth_lower [of n] assms
  by (cases "n = 1") auto

theorem calcluate_max_depth_minimal_witness:
  "calcluate_max_depth 5 = 4"
proof -
  have "calcluate_max_depth (of_nat 5) = int (level_depth 5) + 1"
    using calcluate_max_depth_minimal [of 5] by simp
  moreover have "level_depth 5 = 3" by (simp add: level_depth.simps)
  ultimately show ?thesis by simp
qed

end
