(* ===== verification/Chainbase.thy ===== *)
theory Chainbase
  imports Prelude
begin

text \<open>
  The undo machinery of the state database: \<^verbatim>\<open>generic_index\<close>, its undo sessions and the
  database-wide operations of \<^verbatim>\<open>libraries/chainbase/include/chainbase/chainbase.hpp\<close> and
  \<^verbatim>\<open>libraries/chainbase/src/chainbase.cpp\<close>.

  An index holds its objects by id (\<open>indices\<close>, an association list in ascending order of ids, as
  the primary index iterates), and a stack of undo states, each recording what changed since its
  session began: the values of modified objects, the removed objects, the ids of the new ones.
  The id field of an object never changes and is the key of the list; the type variable
  \<open>'v\<close> is the rest of the object.  The unique secondary indices of the container are the parameter
  \<open>clash\<close>: two objects clash if some unique index gives them the same key.  In
  \<^verbatim>\<open>boost::multi_index_container\<close>, which is not part of the repository, \<open>emplace\<close> and \<open>modify\<close>
  report failure exactly when they would create a clash.

  The abstract specification is a stack of snapshots of the whole index: a session copies the
  current contents, \<open>undo\<close> returns to the copy, \<open>squash\<close> forgets it.  The refinement lemma shows that
  the incremental undo states implement it.
\<close>

section \<open>State\<close>

record 'v undo_state =
  old_values :: "(nat \<times> 'v) list"
  removed_values :: "(nat \<times> 'v) list"
  new_ids :: "nat list"
  old_next_id :: nat
  undo_revision :: int

record 'v generic_index =
  stack :: "'v undo_state list"
  revision :: int
  next_id :: nat
  indices :: "(nat \<times> 'v) list"

definition empty_index :: "'v generic_index" where
  "empty_index = \<lparr>stack = [], revision = 0, next_id = 0, indices = []\<rparr>"

text \<open>Whether storing \<open>v\<close> under \<open>i\<close> would violate a uniqueness constraint.\<close>

definition clashes :: "('v \<Rightarrow> 'v \<Rightarrow> bool) \<Rightarrow> (nat \<times> 'v) list \<Rightarrow> nat \<Rightarrow> 'v \<Rightarrow> bool" where
  "clashes clash m i v \<longleftrightarrow> list_ex (\<lambda>(j, w). j \<noteq> i \<and> clash v w) m"

definition enabled :: "'v generic_index \<Rightarrow> bool" where
  "enabled idx \<longleftrightarrow> stack idx \<noteq> []"

text \<open>Update of the undo state at the back of the stack.\<close>

definition upd_head :: "('v undo_state \<Rightarrow> 'v undo_state) \<Rightarrow> 'v generic_index \<Rightarrow> 'v generic_index" where
  "upd_head f idx = idx\<lparr>stack := butlast (stack idx) @ [f (last (stack idx))]\<rparr>"

section \<open>Change notifications\<close>

definition on_modify :: "nat \<Rightarrow> 'v \<Rightarrow> 'v generic_index \<Rightarrow> 'v generic_index" where
  "on_modify i v idx =
     (if \<not> enabled idx then idx
      else let head = last (stack idx) in
        if i \<in> set (new_ids head) then idx
        else if map_of (old_values head) i \<noteq> None then idx
        else upd_head (\<lambda>h. h\<lparr>old_values := map_emplace i v (old_values h)\<rparr>) idx)"

definition on_remove :: "nat \<Rightarrow> 'v \<Rightarrow> 'v generic_index \<Rightarrow> 'v generic_index" where
  "on_remove i v idx =
     (if \<not> enabled idx then idx
      else let head = last (stack idx) in
        if i \<in> set (new_ids head)
        then upd_head (\<lambda>h. h\<lparr>new_ids := removeAll i (new_ids h)\<rparr>) idx
        else (case map_of (old_values head) i of
            Some old \<Rightarrow> upd_head (\<lambda>h. h\<lparr>removed_values := map_emplace i old (removed_values h),
                                     old_values := map_del i (old_values h)\<rparr>) idx
          | None \<Rightarrow>
              if map_of (removed_values head) i \<noteq> None then idx
              else upd_head (\<lambda>h. h\<lparr>removed_values := map_emplace i v (removed_values h)\<rparr>) idx))"

definition on_create :: "nat \<Rightarrow> 'v generic_index \<Rightarrow> 'v generic_index" where
  "on_create i idx =
     (if \<not> enabled idx then idx
      else upd_head (\<lambda>h. h\<lparr>new_ids := (if i \<in> set (new_ids h) then new_ids h else insort i (new_ids h))\<rparr>) idx)"

section \<open>Operations on objects\<close>

definition emplace :: "('v \<Rightarrow> 'v \<Rightarrow> bool) \<Rightarrow> 'v \<Rightarrow> 'v generic_index \<Rightarrow> 'v generic_index result" where
  "emplace clash v idx =
     (let new_id = next_id idx in
      if map_of (indices idx) new_id \<noteq> None \<or> clashes clash (indices idx) new_id v
      then Inl logic_error
      else Inr (on_create new_id
             (idx\<lparr>indices := map_put new_id v (indices idx), next_id := Suc new_id\<rparr>)))"

definition modify :: "('v \<Rightarrow> 'v \<Rightarrow> bool) \<Rightarrow> nat \<Rightarrow> ('v \<Rightarrow> 'v) \<Rightarrow> 'v generic_index
    \<Rightarrow> 'v generic_index result" where
  "modify clash i m idx =
     (case map_of (indices idx) i of
        None \<Rightarrow> Inl undefined_behaviour
      | Some v \<Rightarrow>
          if clashes clash (indices idx) i (m v) then Inl logic_error
          else Inr (let idx = on_modify i v idx in idx\<lparr>indices := map_put i (m v) (indices idx)\<rparr>))"

definition remove :: "nat \<Rightarrow> 'v generic_index \<Rightarrow> 'v generic_index result" where
  "remove i idx =
     (case map_of (indices idx) i of
        None \<Rightarrow> Inl undefined_behaviour
      | Some v \<Rightarrow> Inr (let idx = on_remove i v idx in idx\<lparr>indices := map_del i (indices idx)\<rparr>))"

definition find_object :: "nat \<Rightarrow> 'v generic_index \<Rightarrow> 'v option" where
  "find_object i idx = map_of (indices idx) i"

definition get_object :: "nat \<Rightarrow> 'v generic_index \<Rightarrow> 'v result" where
  "get_object i idx = of_option out_of_range (find_object i idx)"

definition remove_object :: "nat \<Rightarrow> 'v generic_index \<Rightarrow> 'v generic_index result" where
  "remove_object i idx =
     (case find_object i idx of None \<Rightarrow> Inl out_of_range | Some _ \<Rightarrow> remove i idx)"

section \<open>Undo sessions\<close>

text \<open>A session object knows whether its destructor still has to undo.\<close>

record session =
  apply_flag :: bool
  session_revision :: int

definition new_session :: "int \<Rightarrow> session" where
  "new_session r = \<lparr>apply_flag = (r \<noteq> -1), session_revision = r\<rparr>"

definition start_undo_session :: "bool \<Rightarrow> 'v generic_index \<Rightarrow> 'v generic_index \<times> session" where
  "start_undo_session on idx =
     (if on then
        (let r = revision idx + 1;
             u = \<lparr>old_values = [], removed_values = [], new_ids = [],
                  old_next_id = next_id idx, undo_revision = r\<rparr>
         in (idx\<lparr>stack := stack idx @ [u], revision := r\<rparr>, new_session r))
      else (idx, new_session (-1)))"

definition undo_old :: "('v \<Rightarrow> 'v \<Rightarrow> bool) \<Rightarrow> nat \<times> 'v \<Rightarrow> (nat \<times> 'v) list \<Rightarrow> (nat \<times> 'v) list result" where
  "undo_old clash item m =
     (case item of (i, v) \<Rightarrow>
        if map_of m i = None then Inl undefined_behaviour
        else if clashes clash m i v then Inl logic_error
        else Inr (map_put i v m))"

definition undo_new :: "nat \<Rightarrow> (nat \<times> 'v) list \<Rightarrow> (nat \<times> 'v) list result" where
  "undo_new i m = (if map_of m i = None then Inl undefined_behaviour else Inr (map_del i m))"

definition undo_removed :: "('v \<Rightarrow> 'v \<Rightarrow> bool) \<Rightarrow> nat \<times> 'v \<Rightarrow> (nat \<times> 'v) list
    \<Rightarrow> (nat \<times> 'v) list result" where
  "undo_removed clash item m =
     (case item of (i, v) \<Rightarrow>
        if map_of m i \<noteq> None \<or> clashes clash m i v then Inl logic_error
        else Inr (map_put i v m))"

definition undo :: "('v \<Rightarrow> 'v \<Rightarrow> bool) \<Rightarrow> 'v generic_index \<Rightarrow> 'v generic_index result" where
  "undo clash idx =
     (if \<not> enabled idx then Inr idx
      else let head = last (stack idx) in
        bindR (foldR (undo_old clash) (old_values head) (indices idx))
       (\<lambda>m. bindR (foldR undo_new (new_ids head) m)
       (\<lambda>m. bindR (foldR (undo_removed clash) (removed_values head) m)
       (\<lambda>m. Inr (idx\<lparr>indices := m, next_id := old_next_id head,
                    stack := butlast (stack idx), revision := revision idx - 1\<rparr>)))))"

text \<open>
  The three loops of \<open>squash\<close>: \<open>state\<close> is the undo state at the back of the stack, the accumulator is
  the one before it.  The \<open>assert\<close>s on impossible combinations have no effect in a release build.
\<close>

definition squash_old :: "nat \<times> 'v \<Rightarrow> 'v undo_state \<Rightarrow> 'v undo_state" where
  "squash_old item prev =
     (case item of (i, v) \<Rightarrow>
        if i \<in> set (new_ids prev) then prev
        else if map_of (old_values prev) i \<noteq> None then prev
        else prev\<lparr>old_values := map_emplace i v (old_values prev)\<rparr>)"

definition squash_new :: "nat \<Rightarrow> 'v undo_state \<Rightarrow> 'v undo_state" where
  "squash_new i prev =
     prev\<lparr>new_ids := (if i \<in> set (new_ids prev) then new_ids prev else insort i (new_ids prev))\<rparr>"

definition squash_removed :: "nat \<times> 'v \<Rightarrow> 'v undo_state \<Rightarrow> 'v undo_state" where
  "squash_removed obj prev =
     (case obj of (i, v) \<Rightarrow>
        if i \<in> set (new_ids prev) then prev\<lparr>new_ids := removeAll i (new_ids prev)\<rparr>
        else (case map_of (old_values prev) i of
            Some x \<Rightarrow> prev\<lparr>removed_values := map_emplace i x (removed_values prev),
                          old_values := map_del i (old_values prev)\<rparr>
          | None \<Rightarrow> prev\<lparr>removed_values := map_emplace i v (removed_values prev)\<rparr>))"

definition squash_states :: "'v undo_state \<Rightarrow> 'v undo_state \<Rightarrow> 'v undo_state" where
  "squash_states prev state =
     fold squash_removed (removed_values state)
       (fold squash_new (new_ids state)
         (fold squash_old (old_values state) prev))"

definition squash :: "'v generic_index \<Rightarrow> 'v generic_index" where
  "squash idx =
     (if \<not> enabled idx then idx
      else if length (stack idx) = 1 then idx\<lparr>stack := tl (stack idx)\<rparr>
      else let state = last (stack idx); rest = butlast (stack idx) in
        idx\<lparr>stack := butlast rest @ [squash_states (last rest) state],
            revision := revision idx - 1\<rparr>)"

definition commit :: "int \<Rightarrow> 'v generic_index \<Rightarrow> 'v generic_index" where
  "commit r idx = idx\<lparr>stack := dropWhile (\<lambda>u. undo_revision u \<le> r) (stack idx)\<rparr>"

text \<open>\<open>while( enabled() ) undo();\<close>: every undo takes one state off the stack.\<close>

fun undo_loop :: "('v \<Rightarrow> 'v \<Rightarrow> bool) \<Rightarrow> nat \<Rightarrow> 'v generic_index \<Rightarrow> 'v generic_index result" where
  "undo_loop clash 0 idx = Inr idx"
| "undo_loop clash (Suc n) idx =
     (if enabled idx then bindR (undo clash idx) (undo_loop clash n) else Inr idx)"

definition undo_all :: "('v \<Rightarrow> 'v \<Rightarrow> bool) \<Rightarrow> 'v generic_index \<Rightarrow> 'v generic_index result" where
  "undo_all clash idx = undo_loop clash (length (stack idx)) idx"

definition set_revision :: "nat \<Rightarrow> 'v generic_index \<Rightarrow> 'v generic_index result" where
  "set_revision r idx =
     (if stack idx \<noteq> [] then Inl logic_error else Inr (idx\<lparr>revision := i64 (int r)\<rparr>))"

text \<open>
  The operations of a session object on its index; the move constructor copies the flag only, so
  the moved session reports the default revision 0.
\<close>

definition session_move :: "session \<Rightarrow> session \<times> session" where
  "session_move mv = (\<lparr>apply_flag = apply_flag mv, session_revision = 0\<rparr>, mv\<lparr>apply_flag := False\<rparr>)"

definition session_push :: "session \<Rightarrow> session" where
  "session_push s = s\<lparr>apply_flag := False\<rparr>"

definition session_squash :: "session \<Rightarrow> 'v generic_index \<Rightarrow> session \<times> 'v generic_index" where
  "session_squash s idx = (s\<lparr>apply_flag := False\<rparr>, if apply_flag s then squash idx else idx)"

definition session_undo :: "('v \<Rightarrow> 'v \<Rightarrow> bool) \<Rightarrow> session \<Rightarrow> 'v generic_index
    \<Rightarrow> (session \<times> 'v generic_index) result" where
  "session_undo clash s idx =
     bindR (if apply_flag s then undo clash idx else Inr idx)
       (\<lambda>idx. Inr (s\<lparr>apply_flag := False\<rparr>, idx))"

definition session_destroy :: "('v \<Rightarrow> 'v \<Rightarrow> bool) \<Rightarrow> session \<Rightarrow> 'v generic_index
    \<Rightarrow> 'v generic_index result" where
  "session_destroy clash s idx = (if apply_flag s then undo clash idx else Inr idx)"

section \<open>The database: all indices together\<close>

text \<open>The index list of the database; each index comes with its own clash relation.\<close>

type_synonym 'v database = "(('v \<Rightarrow> 'v \<Rightarrow> bool) \<times> 'v generic_index) list"

definition db_undo :: "'v database \<Rightarrow> 'v database result" where
  "db_undo db = mapR (\<lambda>(c, idx). bindR (undo c idx) (\<lambda>idx. Inr (c, idx))) db"

definition db_squash :: "'v database \<Rightarrow> 'v database" where
  "db_squash db = map (\<lambda>(c, idx). (c, squash idx)) db"

definition db_commit :: "int \<Rightarrow> 'v database \<Rightarrow> 'v database" where
  "db_commit r db = map (\<lambda>(c, idx). (c, commit r idx)) db"

definition db_undo_all :: "'v database \<Rightarrow> 'v database result" where
  "db_undo_all db = mapR (\<lambda>(c, idx). bindR (undo_all c idx) (\<lambda>idx. Inr (c, idx))) db"

definition db_set_revision :: "nat \<Rightarrow> 'v database \<Rightarrow> 'v database result" where
  "db_set_revision r db = mapR (\<lambda>(c, idx). bindR (set_revision r idx) (\<lambda>idx. Inr (c, idx))) db"

definition db_revision :: "'v database \<Rightarrow> int" where
  "db_revision db = (case db of [] \<Rightarrow> -1 | (c, idx) # _ \<Rightarrow> revision idx)"

definition db_start_undo_session :: "bool \<Rightarrow> 'v database \<Rightarrow> 'v database \<times> session list" where
  "db_start_undo_session on db =
     (if on then (map (\<lambda>(c, idx). (c, fst (start_undo_session on idx))) db,
                  map (\<lambda>(c, idx). fst (session_move (snd (start_undo_session on idx)))) db)
      else (db, []))"

section \<open>What an undo state records\<close>

text \<open>The contents before the session, from the undo state and the contents after it.\<close>

definition restore :: "'v undo_state \<Rightarrow> (nat \<rightharpoonup> 'v) \<Rightarrow> (nat \<rightharpoonup> 'v)" where
  "restore h m i =
     (if i \<in> set (new_ids h) then None
      else case map_of (removed_values h) i of Some v \<Rightarrow> Some v
      | None \<Rightarrow> (case map_of (old_values h) i of Some v \<Rightarrow> Some v | None \<Rightarrow> m i))"

text \<open>
  The undo state is consistent with the contents \<open>m\<close> after it and the next id \<open>n\<close>: modified
  objects still exist, removed ones do not, new ones were created after the session began.
\<close>

definition state_ok :: "'v undo_state \<Rightarrow> (nat \<rightharpoonup> 'v) \<Rightarrow> nat \<Rightarrow> bool" where
  "state_ok h m n \<longleftrightarrow>
     sorted_keys (old_values h) \<and> sorted_keys (removed_values h) \<and> distinct (new_ids h)
   \<and> dom (map_of (old_values h)) \<subseteq> dom m \<inter> {..<old_next_id h}
   \<and> dom (map_of (removed_values h)) \<subseteq> {..<old_next_id h} - dom m
   \<and> set (new_ids h) = dom m \<inter> {old_next_id h..}
   \<and> old_next_id h \<le> n"

text \<open>The stack, most recent state first.\<close>

fun stack_ok :: "'v undo_state list \<Rightarrow> (nat \<rightharpoonup> 'v) \<Rightarrow> nat \<Rightarrow> bool" where
  "stack_ok [] m n = True"
| "stack_ok (h # hs) m n \<longleftrightarrow> state_ok h m n \<and> stack_ok hs (restore h m) (old_next_id h)"

text \<open>
  No two objects clash, now or in any earlier snapshot, and no modification recorded on the
  stack changed the keys of an object.
\<close>

definition uniq :: "('v \<Rightarrow> 'v \<Rightarrow> bool) \<Rightarrow> (nat \<rightharpoonup> 'v) \<Rightarrow> bool" where
  "uniq clash m \<longleftrightarrow> (\<forall>i j v w. m i = Some v \<and> m j = Some w \<and> i \<noteq> j \<longrightarrow> \<not> clash v w)"

definition same_keys :: "('v \<Rightarrow> 'v \<Rightarrow> bool) \<Rightarrow> 'v \<Rightarrow> 'v \<Rightarrow> bool" where
  "same_keys clash v w \<longleftrightarrow> (\<forall>u. clash v u = clash w u \<and> clash u v = clash u w)"

fun keys_ok :: "('v \<Rightarrow> 'v \<Rightarrow> bool) \<Rightarrow> 'v undo_state list \<Rightarrow> (nat \<rightharpoonup> 'v) \<Rightarrow> bool" where
  "keys_ok clash [] m \<longleftrightarrow> uniq clash m"
| "keys_ok clash (h # hs) m \<longleftrightarrow> uniq clash m
     \<and> (\<forall>i v w. map_of (old_values h) i = Some v \<and> m i = Some w \<longrightarrow> same_keys clash v w)
     \<and> keys_ok clash hs (restore h m)"

definition index_ok :: "('v \<Rightarrow> 'v \<Rightarrow> bool) \<Rightarrow> 'v generic_index \<Rightarrow> bool" where
  "index_ok clash idx \<longleftrightarrow>
     sorted_keys (indices idx)
   \<and> (\<forall>i. map_of (indices idx) i \<noteq> None \<longrightarrow> i < next_id idx)
   \<and> stack_ok (rev (stack idx)) (map_of (indices idx)) (next_id idx)
   \<and> keys_ok clash (rev (stack idx)) (map_of (indices idx))"

lemma same_keys_refl [simp]: "same_keys clash v v"
  by (simp add: same_keys_def)

lemma same_keys_trans: "same_keys clash u v \<Longrightarrow> same_keys clash v w \<Longrightarrow> same_keys clash u w"
  by (simp add: same_keys_def)

lemma clashes_iff:
  assumes "sorted_keys m"
  shows "clashes clash m i v \<longleftrightarrow> (\<exists>j w. map_of m j = Some w \<and> j \<noteq> i \<and> clash v w)"
  using map_of_eq_Some_iff [OF sorted_keys_distinct [OF assms]]
  by (auto simp: clashes_def list_ex_iff)

lemma uniqD: "uniq clash m \<Longrightarrow> m i = Some v \<Longrightarrow> m j = Some w \<Longrightarrow> i \<noteq> j \<Longrightarrow> \<not> clash v w"
  unfolding uniq_def by blast

lemma uniq_upd:
  assumes "uniq clash m" "symp clash" "\<not> (\<exists>j w. m j = Some w \<and> j \<noteq> i \<and> clash v w)"
  shows "uniq clash (m(i \<mapsto> v))"
  unfolding uniq_def
proof (intro allI impI, elim conjE)
  fix a b x y
  assume ab: "(m(i \<mapsto> v)) a = Some x" "(m(i \<mapsto> v)) b = Some y" "a \<noteq> b"
  consider "a = i" "b \<noteq> i" | "a \<noteq> i" "b = i" | "a \<noteq> i" "b \<noteq> i" using ab(3) by blast
  then show "\<not> clash x y"
  proof cases
    case 1 with ab assms(3) show ?thesis by auto
  next
    case 2
    then have "\<not> clash y x" using ab assms(3) by auto
    with assms(2) show ?thesis by (metis sympD)
  next
    case 3 with ab assms(1) show ?thesis by (auto dest: uniqD)
  qed
qed

lemma uniq_submap: "uniq clash m \<Longrightarrow> n \<subseteq>\<^sub>m m \<Longrightarrow> uniq clash n"
  unfolding uniq_def map_le_def by (metis domIff option.distinct(1))

section \<open>Each operation on the current contents leaves the snapshots alone\<close>

lemma state_okD:
  assumes "state_ok h m n"
  shows "sorted_keys (old_values h)" "sorted_keys (removed_values h)" "distinct (new_ids h)"
    "dom (map_of (old_values h)) \<subseteq> dom m \<inter> {..<old_next_id h}"
    "dom (map_of (removed_values h)) \<subseteq> {..<old_next_id h} - dom m"
    "set (new_ids h) = dom m \<inter> {old_next_id h..}"
    "old_next_id h \<le> n"
  using assms unfolding state_ok_def by blast+

lemma state_okD_removed:
  assumes "state_ok h m n" "m i = Some w"
  shows "map_of (removed_values h) i = None"
proof -
  have "i \<in> dom m" using assms(2) by (rule domI)
  then have "i \<notin> dom (map_of (removed_values h))" using state_okD(5) [OF assms(1)] by blast
  then show ?thesis by blast
qed

lemma state_okD_new:
  assumes "state_ok h m n" "i \<in> set (new_ids h)"
  shows "map_of (old_values h) i = None" "map_of (removed_values h) i = None" "m i \<noteq> None"
    "old_next_id h \<le> i"
proof -
  have i: "i \<in> dom m" "old_next_id h \<le> i" using assms(2) state_okD(6) [OF assms(1)] by auto
  then have "i \<notin> dom (map_of (old_values h))" "i \<notin> dom (map_of (removed_values h))"
    using state_okD(4,5) [OF assms(1)] by auto
  then show "map_of (old_values h) i = None" "map_of (removed_values h) i = None" by blast+
  show "m i \<noteq> None" "old_next_id h \<le> i" using i by auto
qed

lemma state_okD_fresh:
  assumes "state_ok h m n"
  shows "map_of (old_values h) n = None" "map_of (removed_values h) n = None"
proof -
  have "n \<notin> dom (map_of (old_values h))" "n \<notin> dom (map_of (removed_values h))"
    using state_okD(4,5,7) [OF assms] by auto
  then show "map_of (old_values h) n = None" "map_of (removed_values h) n = None" by blast+
qed

lemma restore_eq:
  "i \<in> set (new_ids h) \<Longrightarrow> restore h m i = None"
  "i \<notin> set (new_ids h) \<Longrightarrow> map_of (removed_values h) i = Some v \<Longrightarrow> restore h m i = Some v"
  "i \<notin> set (new_ids h) \<Longrightarrow> map_of (removed_values h) i = None \<Longrightarrow> map_of (old_values h) i = Some v
     \<Longrightarrow> restore h m i = Some v"
  "i \<notin> set (new_ids h) \<Longrightarrow> map_of (removed_values h) i = None \<Longrightarrow> map_of (old_values h) i = None
     \<Longrightarrow> restore h m i = m i"
  by (simp_all add: restore_def)

text \<open>\<open>on_modify\<close>, \<open>on_remove\<close> and \<open>on_create\<close> as functions on the head of the stack.\<close>

definition note_modify :: "nat \<Rightarrow> 'v \<Rightarrow> 'v undo_state \<Rightarrow> 'v undo_state" where
  "note_modify i v h =
     (if i \<in> set (new_ids h) \<or> map_of (old_values h) i \<noteq> None then h
      else h\<lparr>old_values := map_emplace i v (old_values h)\<rparr>)"

definition note_remove :: "nat \<Rightarrow> 'v \<Rightarrow> 'v undo_state \<Rightarrow> 'v undo_state" where
  "note_remove i v h =
     (if i \<in> set (new_ids h) then h\<lparr>new_ids := removeAll i (new_ids h)\<rparr>
      else case map_of (old_values h) i of
          Some old \<Rightarrow> h\<lparr>removed_values := map_emplace i old (removed_values h),
                       old_values := map_del i (old_values h)\<rparr>
        | None \<Rightarrow> if map_of (removed_values h) i \<noteq> None then h
                  else h\<lparr>removed_values := map_emplace i v (removed_values h)\<rparr>)"

definition note_create :: "nat \<Rightarrow> 'v undo_state \<Rightarrow> 'v undo_state" where
  "note_create i h =
     h\<lparr>new_ids := (if i \<in> set (new_ids h) then new_ids h else insort i (new_ids h))\<rparr>"

definition upd_stack :: "('v undo_state \<Rightarrow> 'v undo_state) \<Rightarrow> 'v undo_state list \<Rightarrow> 'v undo_state list" where
  "upd_stack f st = (if st = [] then [] else butlast st @ [f (last st)])"

lemma upd_stack_simps [simp]: "upd_stack f [] = []" "upd_stack f (hs @ [h]) = hs @ [f h]"
  by (simp_all add: upd_stack_def)

lemma on_modify_eq: "on_modify i v idx = idx\<lparr>stack := upd_stack (note_modify i v) (stack idx)\<rparr>"
  by (cases "stack idx" rule: rev_cases)
    (auto simp: on_modify_def note_modify_def enabled_def upd_head_def Let_def)

lemma on_remove_eq: "on_remove i v idx = idx\<lparr>stack := upd_stack (note_remove i v) (stack idx)\<rparr>"
  by (cases "stack idx" rule: rev_cases)
    (auto simp: on_remove_def note_remove_def enabled_def upd_head_def Let_def split: option.splits)

lemma on_create_eq: "on_create i idx = idx\<lparr>stack := upd_stack (note_create i) (stack idx)\<rparr>"
  by (cases "stack idx" rule: rev_cases)
    (auto simp: on_create_def note_create_def enabled_def upd_head_def Let_def)

lemma note_simps [simp]:
  "old_next_id (note_modify i v h) = old_next_id h"
  "old_next_id (note_remove i v h) = old_next_id h"
  "old_next_id (note_create i h) = old_next_id h"
  by (auto simp: note_modify_def note_remove_def note_create_def split: option.splits)

lemma restore_note_modify:
  assumes ok: "state_ok h m n" and mi: "m i = Some v"
  shows "restore (note_modify i v h) (m(i \<mapsto> v')) = restore h m"
proof
  fix j
  show "restore (note_modify i v h) (m(i \<mapsto> v')) j = restore h m j"
    using state_okD_removed [OF ok mi] state_okD(1) [OF ok] mi
    by (cases "j = i") (auto simp: note_modify_def restore_def split: option.splits)
qed

lemma restore_note_remove:
  assumes ok: "state_ok h m n" and mi: "m i = Some v"
  shows "restore (note_remove i v h) (m(i := None)) = restore h m"
proof
  fix j
  note facts = state_okD_removed [OF ok mi] state_okD(1,2) [OF ok] state_okD_new [OF ok, of i]
  show "restore (note_remove i v h) (m(i := None)) j = restore h m j"
    using facts mi
    by (cases "j = i"; cases "map_of (old_values h) i") (auto simp: note_remove_def restore_def split: option.splits)
qed

lemma restore_note_create:
  assumes ok: "state_ok h m n" and "m n = None"
  shows "restore (note_create n h) (m(n \<mapsto> v)) = restore h m"
proof
  fix j
  show "restore (note_create n h) (m(n \<mapsto> v)) j = restore h m j"
    using state_okD_fresh [OF ok] assms(2)
    by (cases "j = n") (auto simp: note_create_def restore_def set_insort_key split: option.splits)
qed

lemma state_ok_note_modify:
  assumes ok: "state_ok h m n" and mi: "m i = Some v"
  shows "state_ok (note_modify i v h) (m(i \<mapsto> v')) n"
proof -
  have dom: "dom (m(i \<mapsto> v')) = dom m" using mi by auto
  have "i \<in> dom m" using mi by blast
  then have "i \<in> set (new_ids h) \<or> i < old_next_id h" using state_okD(6) [OF ok] by auto
  with ok \<open>i \<in> dom m\<close> show ?thesis
    unfolding state_ok_def dom note_modify_def by (simp add: map_of_map_emplace)
qed

lemma state_ok_note_remove:
  assumes ok: "state_ok h m n" and mi: "m i = Some v"
  shows "state_ok (note_remove i v h) (m(i := None)) n"
proof -
  have i: "i \<in> dom m" using mi by blast
  have c: "i \<in> set (new_ids h) \<or> (i \<notin> set (new_ids h) \<and> i < old_next_id h)"
    using i state_okD(6) [OF ok] by auto
  note facts = state_okD [OF ok] state_okD_removed [OF ok mi]
  from c show ?thesis
  proof
    assume n: "i \<in> set (new_ids h)"
    then have "map_of (old_values h) i = None" using state_okD_new [OF ok] by blast
    with n facts i show ?thesis
      unfolding state_ok_def note_remove_def by (auto simp: distinct_removeAll domIff)
  next
    assume "i \<notin> set (new_ids h) \<and> i < old_next_id h"
    with facts i show ?thesis
      unfolding state_ok_def note_remove_def
      by (cases "map_of (old_values h) i") (auto simp: domIff)
  qed
qed

lemma state_ok_note_create:
  assumes ok: "state_ok h m n"
  shows "state_ok (note_create n h) (m(n \<mapsto> v)) (Suc n)"
  using state_okD [OF ok] state_okD_fresh [OF ok]
  unfolding state_ok_def note_create_def by (auto simp: set_insort_key distinct_insort domIff)

section \<open>The abstract machine: a stack of snapshots\<close>

text \<open>A snapshot: the objects, the next id and a revision number.\<close>

type_synonym 'v snapshot = "(nat \<rightharpoonup> 'v) \<times> nat \<times> int"

datatype 'v db_op = Emplace 'v | Modify nat "'v \<Rightarrow> 'v" | Remove nat
  | Start | Undo | Squash | Commit int

text \<open>The first element is the current contents, the others the states to return to.\<close>

fun snapshot_step :: "('v \<Rightarrow> 'v \<Rightarrow> bool) \<Rightarrow> 'v snapshot list \<Rightarrow> 'v db_op \<Rightarrow> 'v snapshot list result" where
  "snapshot_step clash ((m, n, r) # ss) (Emplace v) =
     (if \<exists>j w. m j = Some w \<and> clash v w then Inl logic_error
      else Inr ((m(n \<mapsto> v), Suc n, r) # ss))"
| "snapshot_step clash ((m, n, r) # ss) (Modify i f) =
     (case m i of None \<Rightarrow> Inl undefined_behaviour
      | Some v \<Rightarrow> if \<exists>j w. m j = Some w \<and> j \<noteq> i \<and> clash (f v) w then Inl logic_error
                 else Inr ((m(i \<mapsto> f v), n, r) # ss))"
| "snapshot_step clash ((m, n, r) # ss) (Remove i) =
     (case m i of None \<Rightarrow> Inl undefined_behaviour
      | Some v \<Rightarrow> Inr ((m(i := None), n, r) # ss))"
| "snapshot_step clash ((m, n, r) # ss) Start = Inr ((m, n, r + 1) # (m, n, r + 1) # ss)"
| "snapshot_step clash ((m, n, r) # (m', n', r') # ss) Undo = Inr ((m', n', r - 1) # ss)"
| "snapshot_step clash ((m, n, r) # s # ss) Squash =
     Inr ((m, n, if ss = [] then r else r - 1) # ss)"
| "snapshot_step clash ((m, n, r) # ss) (Commit q) =
     Inr ((m, n, r) # rev (dropWhile (\<lambda>(m, n, r). r \<le> q) (rev ss)))"
| "snapshot_step clash ss _ = Inr ss"

text \<open>The same operations on the index.\<close>

fun index_step :: "('v \<Rightarrow> 'v \<Rightarrow> bool) \<Rightarrow> 'v generic_index \<Rightarrow> 'v db_op \<Rightarrow> 'v generic_index result" where
  "index_step clash idx (Emplace v) = emplace clash v idx"
| "index_step clash idx (Modify i f) = modify clash i f idx"
| "index_step clash idx (Remove i) = remove i idx"
| "index_step clash idx Start = Inr (fst (start_undo_session True idx))"
| "index_step clash idx Undo = undo clash idx"
| "index_step clash idx Squash = Inr (squash idx)"
| "index_step clash idx (Commit r) = Inr (commit r idx)"

fun snaps :: "'v undo_state list \<Rightarrow> (nat \<rightharpoonup> 'v) \<Rightarrow> 'v snapshot list" where
  "snaps [] m = []"
| "snaps (h # hs) m = (restore h m, old_next_id h, undo_revision h) # snaps hs (restore h m)"

definition snapshots :: "'v generic_index \<Rightarrow> 'v snapshot list" where
  "snapshots idx = (map_of (indices idx), next_id idx, revision idx)
     # snaps (rev (stack idx)) (map_of (indices idx))"

text \<open>Modifications that leave the unique keys of an object as they are.\<close>

fun keeps_keys :: "('v \<Rightarrow> 'v \<Rightarrow> bool) \<Rightarrow> 'v db_op \<Rightarrow> bool" where
  "keeps_keys clash (Modify i f) \<longleftrightarrow> (\<forall>v. same_keys clash v (f v))"
| "keeps_keys clash _ \<longleftrightarrow> True"

section \<open>Changes of the current contents\<close>

lemma upd_stack_rev: "rev (upd_stack f st) = (case rev st of [] \<Rightarrow> [] | h # hs \<Rightarrow> f h # hs)"
  by (cases st rule: rev_cases) simp_all

text \<open>
  A change of the contents from \<open>m\<close> to \<open>m'\<close> together with the note it leaves in the head of the
  stack: the snapshots stay, and so does the invariant.
\<close>

lemma change_ok:
  assumes "stack_ok (rev st) m n"
    and "\<And>h. state_ok h m n \<Longrightarrow> state_ok (f h) m' n'"
    and "\<And>h. state_ok h m n \<Longrightarrow> restore (f h) m' = restore h m"
    and "\<And>h. old_next_id (f h) = old_next_id h" and "\<And>h. undo_revision (f h) = undo_revision h"
  shows "stack_ok (rev (upd_stack f st)) m' n'"
    and "snaps (rev (upd_stack f st)) m' = snaps (rev st) m"
proof -
  have "stack_ok (rev (upd_stack f st)) m' n' \<and> snaps (rev (upd_stack f st)) m' = snaps (rev st) m"
  proof (cases "rev st")
    case (Cons h hs)
    with assms(1) have "state_ok h m n" "stack_ok hs (restore h m) (old_next_id h)" by simp_all
    then show ?thesis using Cons assms(2-5) by (simp add: upd_stack_rev del: rev_eq_Cons_iff)
  qed (simp add: upd_stack_rev)
  then show "stack_ok (rev (upd_stack f st)) m' n'"
    and "snaps (rev (upd_stack f st)) m' = snaps (rev st) m" by simp_all
qed

lemma change_keys_ok:
  assumes "stack_ok (rev st) m n" "keys_ok clash (rev st) m" "uniq clash m'"
    and "\<And>h. state_ok h m n \<Longrightarrow> restore (f h) m' = restore h m"
    and "\<And>h i v w. state_ok h m n
          \<Longrightarrow> \<forall>i v w. map_of (old_values h) i = Some v \<and> m i = Some w \<longrightarrow> same_keys clash v w
          \<Longrightarrow> map_of (old_values (f h)) i = Some v \<Longrightarrow> m' i = Some w \<Longrightarrow> same_keys clash v w"
  shows "keys_ok clash (rev (upd_stack f st)) m'"
proof (cases "rev st")
  case Nil
  with assms(3) show ?thesis by (simp add: upd_stack_rev)
next
  case (Cons h hs)
  with assms(1,2) have "state_ok h m n" "keys_ok clash hs (restore h m)"
    "\<forall>i v w. map_of (old_values h) i = Some v \<and> m i = Some w \<longrightarrow> same_keys clash v w" by auto
  moreover from this(1,3) have
    "\<forall>i v w. map_of (old_values (f h)) i = Some v \<and> m' i = Some w \<longrightarrow> same_keys clash v w"
    using assms(5) [of h] by blast
  ultimately show ?thesis
    using Cons assms(3,4) by (simp add: upd_stack_rev del: rev_eq_Cons_iff)
qed

lemma keys_ok_uniq: "keys_ok clash hs m \<Longrightarrow> uniq clash m"
  by (cases hs) simp_all

lemma undo_revision_note [simp]:
  "undo_revision (note_modify i v h) = undo_revision h"
  "undo_revision (note_remove i v h) = undo_revision h"
  "undo_revision (note_create i h) = undo_revision h"
  by (auto simp: note_modify_def note_remove_def note_create_def split: option.splits)

lemma emplace_refines:
  assumes ok: "index_ok clash idx" and "symp clash"
  shows "map_sum id snapshots (emplace clash v idx) = snapshot_step clash (snapshots idx) (Emplace v)"
    and "emplace clash v idx = Inr idx' \<Longrightarrow> index_ok clash idx'"
proof -
  let ?m = "map_of (indices idx)" and ?n = "next_id idx"
  have so: "sorted_keys (indices idx)" and st: "stack_ok (rev (stack idx)) ?m ?n"
    and ko: "keys_ok clash (rev (stack idx)) ?m" and lt: "\<And>i. ?m i \<noteq> None \<Longrightarrow> i < ?n"
    using ok by (auto simp: index_ok_def)
  have fresh: "?m ?n = None" using lt [of ?n] by (cases "?m ?n") auto
  have cl: "clashes clash (indices idx) ?n v \<longleftrightarrow> (\<exists>j w. ?m j = Some w \<and> clash v w)"
    using lt fresh by (auto simp: clashes_iff [OF so])
  note ch = change_ok [OF st, of "note_create ?n" "?m(?n \<mapsto> v)" "Suc ?n"]
  have rs: "restore (note_create ?n h) (?m(?n \<mapsto> v)) = restore h ?m" if "state_ok h ?m ?n" for h
    using that fresh by (rule restore_note_create)
  have 1: "stack_ok (rev (upd_stack (note_create ?n) (stack idx))) (?m(?n \<mapsto> v)) (Suc ?n)"
    "snaps (rev (upd_stack (note_create ?n) (stack idx))) (?m(?n \<mapsto> v)) = snaps (rev (stack idx)) ?m"
    by (rule ch; simp add: rs state_ok_note_create)+
  show "map_sum id snapshots (emplace clash v idx) = snapshot_step clash (snapshots idx) (Emplace v)"
    using 1(2) so fresh cl by (simp add: emplace_def Let_def on_create_eq snapshots_def)
  assume e: "emplace clash v idx = Inr idx'"
  then have nc: "\<not> (\<exists>j w. ?m j = Some w \<and> clash v w)"
    using cl by (auto simp: emplace_def Let_def split: if_splits)
  have u: "uniq clash (?m(?n \<mapsto> v))"
    using keys_ok_uniq [OF ko] \<open>symp clash\<close> nc by (intro uniq_upd) auto
  have "keys_ok clash (rev (upd_stack (note_create ?n) (stack idx))) (?m(?n \<mapsto> v))"
  proof (rule change_keys_ok [OF st ko u rs])
    fix h i x w
    assume "state_ok h ?m ?n"
      "\<forall>i v w. map_of (old_values h) i = Some v \<and> ?m i = Some w \<longrightarrow> same_keys clash v w"
      "map_of (old_values (note_create ?n h)) i = Some x" "(?m(?n \<mapsto> v)) i = Some w"
    then show "same_keys clash x w"
      using state_okD_fresh(1) [of h ?m ?n] by (cases "i = ?n") (auto simp: note_create_def)
  qed assumption
  with e 1(1) so lt show "index_ok clash idx'"
    by (auto simp: emplace_def Let_def on_create_eq index_ok_def less_SucI split: if_splits)
qed

lemma modify_refines:
  assumes ok: "index_ok clash idx" and "symp clash" and k: "keeps_keys clash (Modify i f)"
  shows "map_sum id snapshots (modify clash i f idx) = snapshot_step clash (snapshots idx) (Modify i f)"
    and "modify clash i f idx = Inr idx' \<Longrightarrow> index_ok clash idx'"
proof -
  let ?m = "map_of (indices idx)" and ?n = "next_id idx"
  have so: "sorted_keys (indices idx)" and st: "stack_ok (rev (stack idx)) ?m ?n"
    and ko: "keys_ok clash (rev (stack idx)) ?m" and lt: "\<And>i. ?m i \<noteq> None \<Longrightarrow> i < ?n"
    using ok by (auto simp: index_ok_def)
  have 1: "stack_ok (rev (upd_stack (note_modify i v) (stack idx))) (?m(i \<mapsto> v')) ?n"
    "snaps (rev (upd_stack (note_modify i v) (stack idx))) (?m(i \<mapsto> v')) = snaps (rev (stack idx)) ?m"
    if "?m i = Some v" for v v'
    by (rule change_ok [OF st, where n' = ?n]; simp add: that restore_note_modify state_ok_note_modify)+
  show "map_sum id snapshots (modify clash i f idx) = snapshot_step clash (snapshots idx) (Modify i f)"
    using 1(2) so
    by (auto simp: modify_def on_modify_eq snapshots_def clashes_iff Let_def split: option.splits)
  assume e: "modify clash i f idx = Inr idx'"
  then obtain v where v: "?m i = Some v" and nc: "\<not> clashes clash (indices idx) i (f v)"
    by (auto simp: modify_def split: option.splits if_splits)
  have u: "uniq clash (?m(i \<mapsto> f v))"
    using keys_ok_uniq [OF ko] \<open>symp clash\<close> nc by (intro uniq_upd) (auto simp: clashes_iff [OF so])
  have "keys_ok clash (rev (upd_stack (note_modify i v) (stack idx))) (?m(i \<mapsto> f v))"
  proof (rule change_keys_ok [OF st ko u])
    fix h j x w
    assume h: "state_ok h ?m ?n"
      "\<forall>i v w. map_of (old_values h) i = Some v \<and> ?m i = Some w \<longrightarrow> same_keys clash v w"
      "map_of (old_values (note_modify i v h)) j = Some x" "(?m(i \<mapsto> f v)) j = Some w"
    have kv: "same_keys clash v (f v)" using k by simp
    show "same_keys clash x w"
    proof (cases "j = i")
      case True
      then have "same_keys clash x v"
        using h(2,3) v state_okD(1) [OF h(1)] by (auto simp: note_modify_def split: if_splits)
      with kv True h(4) show ?thesis by (auto intro: same_keys_trans)
    next
      case False
      with h state_okD(1) [OF h(1)] show ?thesis by (auto simp: note_modify_def split: if_splits)
    qed
  qed (simp add: restore_note_modify v)
  with e v nc 1(1) [OF v] so lt show "index_ok clash idx'"
    by (auto simp: modify_def on_modify_eq index_ok_def Let_def split: if_splits)
qed

lemma remove_refines:
  assumes ok: "index_ok clash idx"
  shows "map_sum id snapshots (remove i idx) = snapshot_step clash (snapshots idx) (Remove i)"
    and "remove i idx = Inr idx' \<Longrightarrow> index_ok clash idx'"
proof -
  let ?m = "map_of (indices idx)" and ?n = "next_id idx"
  have so: "sorted_keys (indices idx)" and st: "stack_ok (rev (stack idx)) ?m ?n"
    and ko: "keys_ok clash (rev (stack idx)) ?m" and lt: "\<And>i. ?m i \<noteq> None \<Longrightarrow> i < ?n"
    using ok by (auto simp: index_ok_def)
  have 1: "stack_ok (rev (upd_stack (note_remove i v) (stack idx))) (?m(i := None)) ?n"
    "snaps (rev (upd_stack (note_remove i v) (stack idx))) (?m(i := None)) = snaps (rev (stack idx)) ?m"
    if "?m i = Some v" for v
    by (rule change_ok [OF st, where n' = ?n]; simp add: that restore_note_remove state_ok_note_remove)+
  show "map_sum id snapshots (remove i idx) = snapshot_step clash (snapshots idx) (Remove i)"
    using 1(2) by (auto simp: remove_def on_remove_eq snapshots_def Let_def split: option.splits)
  assume e: "remove i idx = Inr idx'"
  then obtain v where v: "?m i = Some v" by (auto simp: remove_def split: option.splits)
  have u: "uniq clash (?m(i := None))"
    using keys_ok_uniq [OF ko] by (rule uniq_submap) (simp add: map_le_def)
  have "keys_ok clash (rev (upd_stack (note_remove i v) (stack idx))) (?m(i := None))"
  proof (rule change_keys_ok [OF st ko u])
    fix h j x w
    assume h: "state_ok h ?m ?n"
      "\<forall>i v w. map_of (old_values h) i = Some v \<and> ?m i = Some w \<longrightarrow> same_keys clash v w"
      "map_of (old_values (note_remove i v h)) j = Some x" "(?m(i := None)) j = Some w"
    then show "same_keys clash x w"
      by (auto simp: note_remove_def split: if_splits option.splits)
  qed (simp add: restore_note_remove v)
  with e v 1(1) [OF v] so lt show "index_ok clash idx'"
    by (auto simp: remove_def on_remove_eq index_ok_def Let_def split: if_splits)
qed


section \<open>Undo returns to the snapshot\<close>

lemma map_add_upd_fresh:
  assumes "i \<notin> fst ` set xs"
  shows "m(i \<mapsto> v) ++ map_of xs = m ++ map_of ((i, v) # xs)"
proof
  fix j
  have "map_of xs i = None" using assms by (simp add: map_of_eq_None_iff)
  then show "(m(i \<mapsto> v) ++ map_of xs) j = (m ++ map_of ((i, v) # xs)) j"
    by (cases "j = i") (simp_all add: map_add_def split: option.split)
qed

lemma undo_old_fold:
  assumes "sorted_keys m" "distinct (map fst old)" "fst ` set old \<subseteq> dom (map_of m)"
    and "uniq clash (map_of m)"
    and "\<And>i v w. (i, v) \<in> set old \<Longrightarrow> map_of m i = Some w \<Longrightarrow> same_keys clash v w"
  shows "\<exists>m'. foldR (undo_old clash) old m = Inr m' \<and> sorted_keys m' \<and> map_of m' = map_of m ++ map_of old"
  using assms
proof (induction old arbitrary: m)
  case (Cons x old)
  obtain i v where x: "x = (i, v)" by force
  obtain w where w: "map_of m i = Some w" using Cons.prems(3) by (auto simp: x)
  have k: "same_keys clash v w" using Cons.prems(5) [OF _ w] by (simp add: x)
  have nc: "\<not> clashes clash m i v"
    using k uniqD [OF Cons.prems(4) w] Cons.prems(1) by (auto simp: clashes_iff same_keys_def)
  have u: "uniq clash ((map_of m)(i \<mapsto> v))"
    using k w Cons.prems(4) unfolding uniq_def same_keys_def by (metis fun_upd_apply option.inject)
  have i: "i \<notin> fst ` set old" using Cons.prems(2) by (simp add: x)
  have "\<exists>m'. foldR (undo_old clash) old (map_put i v m) = Inr m' \<and> sorted_keys m'
      \<and> map_of m' = map_of (map_put i v m) ++ map_of old"
  proof (rule Cons.IH)
    fix j a b
    assume "(j, a) \<in> set old" "map_of (map_put i v m) j = Some b"
    with i Cons.prems(1) show "same_keys clash a b"
      by (intro Cons.prems(5) [of j]) (auto simp: image_iff split: if_splits)
  next
    show "uniq clash (map_of (map_put i v m))" using u Cons.prems(1) by simp
  qed (use Cons.prems u in \<open>auto simp: x\<close>)
  moreover have "(map_of m)(i \<mapsto> v) ++ map_of old = map_of m ++ map_of (x # old)"
    using map_add_upd_fresh [OF i] by (simp add: x)
  moreover have "undo_old clash x m = Inr (map_put i v m)" using w nc by (simp add: x undo_old_def)
  ultimately show ?case using Cons.prems(1) by (simp del: map_of.simps)
qed auto

lemma undo_new_fold:
  assumes "sorted_keys m" "distinct ids" "set ids \<subseteq> dom (map_of m)"
  shows "\<exists>m'. foldR undo_new ids m = Inr m' \<and> sorted_keys m' \<and> map_of m' = map_of m |` (- set ids)"
  using assms
proof (induction ids arbitrary: m)
  case (Cons i ids)
  have "\<exists>m'. foldR undo_new ids (map_del i m) = Inr m' \<and> sorted_keys m'
      \<and> map_of m' = map_of (map_del i m) |` (- set ids)"
    using Cons.prems by (intro Cons.IH) auto
  moreover have "(map_of m)(i := None) |` (- set ids) = map_of m |` (- set (i # ids))"
    by (auto simp: restrict_map_def)
  moreover have "undo_new i m = Inr (map_del i m)" using Cons.prems(3) by (auto simp: undo_new_def)
  ultimately show ?case by simp
qed auto

lemma undo_removed_fold:
  assumes "sorted_keys m" "distinct (map fst rem)" "fst ` set rem \<inter> dom (map_of m) = {}"
    and "uniq clash t" "map_of m \<subseteq>\<^sub>m t" "\<And>i v. (i, v) \<in> set rem \<Longrightarrow> t i = Some v"
  shows "\<exists>m'. foldR (undo_removed clash) rem m = Inr m' \<and> sorted_keys m' \<and> map_of m' = map_of m ++ map_of rem"
  using assms
proof (induction rem arbitrary: m)
  case (Cons x rem)
  obtain i v where x: "x = (i, v)" by force
  have mi: "map_of m i = None" using Cons.prems(3) by (auto simp: x)
  have ti: "t i = Some v" using Cons.prems(6) by (simp add: x)
  have sub: "map_of m j = Some w \<Longrightarrow> t j = Some w" for j w
    using Cons.prems(5) by (metis domI map_le_def)
  have nc: "\<not> clashes clash m i v"
    using uniqD [OF Cons.prems(4) ti] sub Cons.prems(1) by (auto simp: clashes_iff)
  have i: "i \<notin> fst ` set rem" using Cons.prems(2) by (simp add: x)
  have "\<exists>m'. foldR (undo_removed clash) rem (map_put i v m) = Inr m' \<and> sorted_keys m'
      \<and> map_of m' = map_of (map_put i v m) ++ map_of rem"
  proof (rule Cons.IH)
    show "map_of (map_put i v m) \<subseteq>\<^sub>m t"
      using Cons.prems(1,5) ti by (auto simp: map_le_def)
    show "fst ` set rem \<inter> dom (map_of (map_put i v m)) = {}"
      using Cons.prems(1,3) i by (auto simp: x)
  qed (use Cons.prems in \<open>auto simp: x\<close>)
  moreover have "(map_of m)(i \<mapsto> v) ++ map_of rem = map_of m ++ map_of (x # rem)"
    using map_add_upd_fresh [OF i] by (simp add: x)
  moreover have "undo_removed clash x m = Inr (map_put i v m)" using mi nc by (simp add: x undo_removed_def)
  ultimately show ?case using Cons.prems(1) by (simp del: map_of.simps)
qed auto

lemma restore_as_folds:
  assumes "state_ok h m n"
  shows "((m ++ map_of (old_values h)) |` (- set (new_ids h))) ++ map_of (removed_values h) = restore h m"
proof
  fix i
  show "(((m ++ map_of (old_values h)) |` (- set (new_ids h))) ++ map_of (removed_values h)) i = restore h m i"
    using state_okD_new(2) [OF assms, of i]
    by (auto simp: restore_def map_add_def restrict_map_def split: option.splits)
qed

lemma undo_folds:
  fixes m :: "(nat \<times> 'v) list"
  assumes so: "sorted_keys m" and ok: "state_ok h (map_of m) n" and ko: "keys_ok clash (h # hs) (map_of m)"
  obtains m' where "sorted_keys m'" "map_of m' = restore h (map_of m)"
    and "\<And>k :: _ \<Rightarrow> 'v generic_index result. bindR (foldR (undo_old clash) (old_values h) m) (\<lambda>m. bindR (foldR undo_new (new_ids h) m)
               (\<lambda>m. bindR (foldR (undo_removed clash) (removed_values h) m) k)) = k m'"
proof -
  note sd = state_okD [OF ok]
  have d: "distinct (map fst (old_values h))" "distinct (map fst (removed_values h))"
    using sd(1,2) by (simp_all add: sorted_keys_distinct)
  obtain m1 where m1: "foldR (undo_old clash) (old_values h) m = Inr m1" "sorted_keys m1"
      "map_of m1 = map_of m ++ map_of (old_values h)"
    using undo_old_fold [OF so d(1), of clash] sd(4) ko d(1) by (auto simp: dom_map_of_conv_image_fst)
  obtain m2 where m2: "foldR undo_new (new_ids h) m1 = Inr m2" "sorted_keys m2"
      "map_of m2 = map_of m1 |` (- set (new_ids h))"
    using undo_new_fold [OF m1(2) sd(3)] sd(6) m1(3) by auto
  have dj: "fst ` set (removed_values h) \<inter> dom (map_of m2) = {}"
  proof -
    have "dom (map_of m2) \<subseteq> dom (map_of m)" using sd(4) by (auto simp: m2(3) m1(3))
    with sd(5) show ?thesis unfolding dom_map_of_conv_image_fst by blast
  qed
  have r: "restore h (map_of m) = map_of m2 ++ map_of (removed_values h)"
    using restore_as_folds [OF ok] by (simp add: m2(3) m1(3))
  have "map_of m2 \<subseteq>\<^sub>m restore h (map_of m)"
    unfolding r using dj by (subst map_add_comm) (auto simp: dom_map_of_conv_image_fst)
  moreover have "uniq clash (restore h (map_of m))" using ko keys_ok_uniq by auto
  ultimately obtain m3 where m3: "foldR (undo_removed clash) (removed_values h) m2 = Inr m3"
      "sorted_keys m3" "map_of m3 = map_of m2 ++ map_of (removed_values h)"
    using undo_removed_fold [OF m2(2) d(2) dj, of clash "restore h (map_of m)"] d(2)
    by (auto simp: r map_add_Some_iff)
  show thesis by (rule that [of m3]) (use m1 m2 m3 r in simp_all)
qed

lemma restore_bound:
  assumes "state_ok h m n" "\<And>i. m i \<noteq> None \<Longrightarrow> i < n" "restore h m i \<noteq> None"
  shows "i < old_next_id h"
proof (rule ccontr)
  assume i: "\<not> i < old_next_id h"
  note sd = state_okD [OF assms(1)]
  have "i \<notin> dom (map_of (old_values h))" "i \<notin> dom (map_of (removed_values h))" using sd(4,5) i by auto
  then have "map_of (old_values h) i = None" "map_of (removed_values h) i = None" by blast+
  with assms(3) have "i \<notin> set (new_ids h)" "m i \<noteq> None" by (auto simp: restore_def split: if_splits)
  with sd(6) i show False by auto
qed

lemma undo_refines:
  assumes ok: "index_ok clash idx"
  obtains idx' where "undo clash idx = Inr idx'" "index_ok clash idx'"
    "Inr (snapshots idx') = snapshot_step clash (snapshots idx) Undo"
    "stack idx' = butlast (stack idx)"
proof (cases "stack idx" rule: rev_cases)
  case Nil
  with ok show thesis by (intro that [of idx]) (simp_all add: undo_def enabled_def snapshots_def)
next
  case (snoc hs h)
  with ok have so: "sorted_keys (indices idx)" and st: "state_ok h (map_of (indices idx)) (next_id idx)"
    and st': "stack_ok (rev hs) (restore h (map_of (indices idx))) (old_next_id h)"
    and ko: "keys_ok clash (h # rev hs) (map_of (indices idx))"
    and lt: "\<And>i. map_of (indices idx) i \<noteq> None \<Longrightarrow> i < next_id idx"
    by (auto simp: index_ok_def)
  obtain m where m: "sorted_keys m" "map_of m = restore h (map_of (indices idx))"
    and f: "\<And>k :: _ \<Rightarrow> 'a generic_index result. bindR (foldR (undo_old clash) (old_values h) (indices idx)) (\<lambda>m. bindR (foldR undo_new (new_ids h) m)
               (\<lambda>m. bindR (foldR (undo_removed clash) (removed_values h) m) k)) = k m"
    using undo_folds [OF so st ko] by blast
  have ko': "keys_ok clash (rev hs) (restore h (map_of (indices idx)))" using ko by simp
  show thesis
  proof (rule that)
    show "undo clash idx = Inr (idx\<lparr>indices := m, next_id := old_next_id h, stack := hs, revision := revision idx - 1\<rparr>)"
      by (simp add: undo_def enabled_def snoc f)
  qed (use snoc m st' ko' restore_bound [OF st lt] in \<open>auto simp: index_ok_def snapshots_def\<close>)
qed


section \<open>Squash forgets the snapshot\<close>

text \<open>What an undo state says about one object: whether it is new, its old and its removed value.\<close>

definition note_of :: "'v undo_state \<Rightarrow> nat \<Rightarrow> bool \<times> 'v option \<times> 'v option" where
  "note_of h i = (i \<in> set (new_ids h), map_of (old_values h) i, map_of (removed_values h) i)"

definition containers_ok :: "'v undo_state \<Rightarrow> bool" where
  "containers_ok h \<longleftrightarrow> sorted_keys (old_values h) \<and> sorted_keys (removed_values h) \<and> distinct (new_ids h)"

text \<open>A loop that touches every key once acts on each key separately.\<close>

lemma fold_pointwise:
  assumes "\<And>x p. good p \<Longrightarrow> good (step x p)"
    and "\<And>x p. good p \<Longrightarrow> view (step x p) i = (if key x = i then f x (view p i) else view p i)"
    and "distinct (map key xs)" "good p"
  shows "good (fold step xs p)"
    and "view (fold step xs p) i = (case find (\<lambda>x. key x = i) xs of None \<Rightarrow> view p i | Some x \<Rightarrow> f x (view p i))"
proof -
  have other: "find (\<lambda>x. key x = i) ys = None" if "i \<notin> key ` set ys" for ys
    using that by (auto simp: find_None_iff)
  have "good (fold step xs p) \<and>
    view (fold step xs p) i = (case find (\<lambda>x. key x = i) xs of None \<Rightarrow> view p i | Some x \<Rightarrow> f x (view p i))"
    using assms(3,4)
  proof (induction xs arbitrary: p)
    case (Cons x xs)
    then have "find (\<lambda>x. key x = i) xs = None" if "key x = i" using that by (intro other) auto
    with Cons show ?case
      using assms(1,2) [of p x] Cons.IH [of "step x p"] by (cases "key x = i") (auto split: option.split)
  qed simp
  then show "good (fold step xs p)"
    and "view (fold step xs p) i = (case find (\<lambda>x. key x = i) xs of None \<Rightarrow> view p i | Some x \<Rightarrow> f x (view p i))"
    by simp_all
qed

lemma find_fst: "find (\<lambda>x. fst x = i) xs = map_option (Pair i) (map_of xs i)"
  by (induction xs) auto

lemma find_eq: "find (\<lambda>x. x = i) xs = (if i \<in> set xs then Some i else None)"
  by (induction xs) auto

text \<open>The effect of the three loops on the note of one object; their composition is the matrix in the source.\<close>

fun merge_old :: "'v option \<Rightarrow> bool \<times> 'v option \<times> 'v option \<Rightarrow> bool \<times> 'v option \<times> 'v option" where
  "merge_old (Some v) (False, None, d) = (False, Some v, d)"
| "merge_old _ a = a"

fun merge_removed :: "'v option \<Rightarrow> bool \<times> 'v option \<times> 'v option \<Rightarrow> bool \<times> 'v option \<times> 'v option" where
  "merge_removed None a = a"
| "merge_removed (Some v) (True, w, d) = (False, w, d)"
| "merge_removed (Some v) (False, w, Some d) = (False, None, Some d)"
| "merge_removed (Some v) (False, Some w, None) = (False, None, Some w)"
| "merge_removed (Some v) (False, None, None) = (False, None, Some v)"

definition merge_note :: "bool \<times> 'v option \<times> 'v option \<Rightarrow> bool \<times> 'v option \<times> 'v option
    \<Rightarrow> bool \<times> 'v option \<times> 'v option" where
  "merge_note a b = (case b of (nw, old, rem) \<Rightarrow>
     merge_removed rem (case merge_old old a of (nw', w, d) \<Rightarrow> (nw' \<or> nw, w, d)))"

lemma merge_old_eq: "merge_old (Some v) (nw, w, d) = (if nw \<or> w \<noteq> None then (nw, w, d) else (nw, Some v, d))"
  by (cases nw; cases w) simp_all

lemma squash_old_step:
  assumes "containers_ok p"
  shows "containers_ok (squash_old x p)"
    "note_of (squash_old x p) i = (if fst x = i then merge_old (Some (snd x)) (note_of p i) else note_of p i)"
  using assms
  by (auto simp: squash_old_def note_of_def containers_ok_def merge_old_eq split: prod.splits)

lemma squash_new_step:
  assumes "containers_ok p"
  shows "containers_ok (squash_new x p)"
    "note_of (squash_new x p) i =
       (if x = i then (case note_of p i of (nw, w, d) \<Rightarrow> (True, w, d)) else note_of p i)"
  using assms
  by (auto simp: squash_new_def note_of_def containers_ok_def distinct_insort set_insort_key)

lemma squash_removed_step:
  assumes "containers_ok p"
  shows "containers_ok (squash_removed x p)"
    "note_of (squash_removed x p) i =
       (if fst x = i then merge_removed (Some (snd x)) (note_of p i) else note_of p i)"
proof -
  show "containers_ok (squash_removed x p)"
    using assms by (auto simp: squash_removed_def containers_ok_def distinct_removeAll split: prod.splits option.splits)
  obtain j v where x: "x = (j, v)" by force
  show "note_of (squash_removed x p) i =
       (if fst x = i then merge_removed (Some (snd x)) (note_of p i) else note_of p i)"
    using assms
    by (cases "i \<in> set (new_ids p)"; cases "map_of (old_values p) i"; cases "map_of (removed_values p) i")
      (auto simp: x squash_removed_def note_of_def containers_ok_def split: option.splits)
qed

lemma note_of_squash_states:
  assumes "containers_ok p" "containers_ok h"
  shows "containers_ok (squash_states p h)"
    and "note_of (squash_states p h) i = merge_note (note_of p i) (note_of h i)"
proof -
  have d: "distinct (map fst (old_values h))" "distinct (map fst (removed_values h))" "distinct (map id (new_ids h))"
    using assms(2) by (simp_all add: containers_ok_def sorted_keys_distinct)
  let ?p1 = "fold squash_old (old_values h) p"
  let ?p2 = "fold squash_new (new_ids h) ?p1"
  note f1 = fold_pointwise [where good = containers_ok and view = note_of and key = fst and step = squash_old
      and f = "\<lambda>x. merge_old (Some (snd x))" and i = i, OF squash_old_step d(1) assms(1)]
  note f2 = fold_pointwise [where good = containers_ok and view = note_of and key = id and step = squash_new
      and f = "\<lambda>x n. case n of (nw, w, d) \<Rightarrow> (True, w, d)" and i = i, OF _ _ d(3) f1(1)]
  have c2: "containers_ok ?p2"
    by (rule f2(1)) (simp_all add: squash_new_step)
  have n2: "note_of ?p2 i = (case note_of ?p1 i of (nw, w, d) \<Rightarrow> (nw \<or> i \<in> set (new_ids h), w, d))"
    by (subst f2(2)) (auto simp: squash_new_step find_eq)
  note f3 = fold_pointwise [where good = containers_ok and view = note_of and key = fst and step = squash_removed
      and f = "\<lambda>x. merge_removed (Some (snd x))" and i = i, OF squash_removed_step d(2) c2]
  show "containers_ok (squash_states p h)" unfolding squash_states_def by (rule f3(1))
  show "note_of (squash_states p h) i = merge_note (note_of p i) (note_of h i)"
    using f3(2) n2 f1(2) unfolding squash_states_def find_fst
    by (simp add: merge_note_def note_of_def [of h] split: option.splits)
qed


text \<open>Consistency and undoing, for one object; \<open>b\<close> says that the object is older than the session.\<close>

definition note_ok :: "bool \<times> 'v option \<times> 'v option \<Rightarrow> 'v option \<Rightarrow> bool \<Rightarrow> bool" where
  "note_ok a x b = (case a of (nw, w, d) \<Rightarrow>
     (nw \<longleftrightarrow> x \<noteq> None \<and> \<not> b) \<and> (w \<noteq> None \<longrightarrow> x \<noteq> None \<and> b) \<and> (d \<noteq> None \<longrightarrow> x = None \<and> b))"

fun undo_note :: "bool \<times> 'v option \<times> 'v option \<Rightarrow> 'v option \<Rightarrow> 'v option" where
  "undo_note (True, w, d) x = None"
| "undo_note (False, w, Some v) x = Some v"
| "undo_note (False, Some v, None) x = Some v"
| "undo_note (False, None, None) x = x"

lemma restore_note: "restore h m i = undo_note (note_of h i) (m i)"
  by (cases "i \<in> set (new_ids h)") (auto simp: restore_def note_of_def split: option.splits)

lemma state_ok_notes:
  "state_ok h m n \<longleftrightarrow> containers_ok h \<and> old_next_id h \<le> n
     \<and> (\<forall>i. note_ok (note_of h i) (m i) (i < old_next_id h))"
proof -
  have 1: "dom a \<subseteq> dom m \<inter> {..<k} \<longleftrightarrow> (\<forall>i. a i \<noteq> None \<longrightarrow> m i \<noteq> None \<and> i < k)"
    "dom a \<subseteq> {..<k} - dom m \<longleftrightarrow> (\<forall>i. a i \<noteq> None \<longrightarrow> m i = None \<and> i < k)"
    "N = dom m \<inter> {k..} \<longleftrightarrow> (\<forall>i. i \<in> N \<longleftrightarrow> m i \<noteq> None \<and> \<not> i < k)" for a N k
    by (simp_all add: subset_iff domIff set_eq_iff not_less) blast
  show ?thesis
    unfolding state_ok_def containers_ok_def note_ok_def note_of_def 1 prod.case all_conj_distrib
    by (simp add: conj_ac)
qed

lemma merge_note_ok:
  assumes "note_ok b x e2" "note_ok a (undo_note b x) e1" "e1 \<longrightarrow> e2"
  shows "note_ok (merge_note a b) x e1" "undo_note (merge_note a b) x = undo_note a (undo_note b x)"
proof -
  obtain nwa wa da nwb wb db where ab: "a = (nwa, wa, da)" "b = (nwb, wb, db)" by (metis prod_cases3)
  have "note_ok (merge_note a b) x e1 \<and> undo_note (merge_note a b) x = undo_note a (undo_note b x)"
    using assms unfolding ab
    by (cases nwa; cases wa; cases da; cases nwb; cases wb; cases db)
      (simp_all add: note_ok_def merge_note_def)
  then show "note_ok (merge_note a b) x e1" "undo_note (merge_note a b) x = undo_note a (undo_note b x)"
    by simp_all
qed

lemma merge_note_old:
  assumes "fst (snd (merge_note a b)) = Some v" "note_ok b (Some w) e2" "note_ok a (undo_note b (Some w)) e1"
  shows "fst (snd b) = Some v \<or> (fst (snd a) = Some v \<and>
     (undo_note b (Some w) = Some w \<or> (\<exists>u. fst (snd b) = Some u \<and> undo_note b (Some w) = Some u)))"
proof -
  obtain nwa wa da nwb wb db where ab: "a = (nwa, wa, da)" "b = (nwb, wb, db)" by (metis prod_cases3)
  show ?thesis
    using assms unfolding ab
    by (cases nwa; cases wa; cases da; cases nwb; cases wb; cases db)
      (simp_all add: note_ok_def merge_note_def)
qed

lemma fold_keeps: "(\<And>x p. g (step x p) = g p) \<Longrightarrow> g (fold step xs p) = g p"
  by (induction xs arbitrary: p) simp_all

lemma squash_states_simps [simp]:
  "old_next_id (squash_states p h) = old_next_id p" "undo_revision (squash_states p h) = undo_revision p"
  unfolding squash_states_def
  by (simp_all add: fold_keeps squash_old_def squash_new_def squash_removed_def split: prod.splits option.splits)

lemma squash_states_ok:
  assumes h: "state_ok h m n" and p: "state_ok p (restore h m) (old_next_id h)"
  shows "restore (squash_states p h) m = restore p (restore h m)" "state_ok (squash_states p h) m n"
proof -
  have c: "containers_ok p" "containers_ok h" "old_next_id p \<le> old_next_id h" "old_next_id h \<le> n"
    using h p by (simp_all add: state_ok_notes)
  note sq = note_of_squash_states [OF c(1,2)]
  have n: "note_ok (note_of h i) (m i) (i < old_next_id h)"
    "note_ok (note_of p i) (undo_note (note_of h i) (m i)) (i < old_next_id p)"
    "i < old_next_id p \<longrightarrow> i < old_next_id h" for i
    using h p c(3) by (simp_all add: state_ok_notes restore_note)
  show "restore (squash_states p h) m = restore p (restore h m)"
    using merge_note_ok(2) [OF n] by (simp add: restore_note sq(2) fun_eq_iff)
  show "state_ok (squash_states p h) m n"
    unfolding state_ok_notes using merge_note_ok(1) [OF n] c sq by simp
qed

definition old_keys_ok :: "('v \<Rightarrow> 'v \<Rightarrow> bool) \<Rightarrow> 'v undo_state \<Rightarrow> (nat \<rightharpoonup> 'v) \<Rightarrow> bool" where
  "old_keys_ok clash h m \<longleftrightarrow>
     (\<forall>i v w. map_of (old_values h) i = Some v \<and> m i = Some w \<longrightarrow> same_keys clash v w)"

lemma squash_old_keys_ok:
  assumes h: "state_ok h m n" and p: "state_ok p (restore h m) (old_next_id h)"
    and "old_keys_ok clash h m" "old_keys_ok clash p (restore h m)"
  shows "old_keys_ok clash (squash_states p h) m"
  unfolding old_keys_ok_def
proof (intro allI impI, elim conjE)
  fix i v w
  assume a: "map_of (old_values (squash_states p h)) i = Some v" "m i = Some w"
  have c: "containers_ok p" "containers_ok h" using h p by (simp_all add: state_ok_notes)
  have old: "fst (snd (note_of g i)) = map_of (old_values g) i" for g :: "'a undo_state"
    by (simp add: note_of_def)
  have "fst (snd (merge_note (note_of p i) (note_of h i))) = Some v"
    using a(1) by (simp add: note_of_squash_states(2) [OF c, symmetric] old)
  moreover have "note_ok (note_of h i) (Some w) (i < old_next_id h)"
      "note_ok (note_of p i) (undo_note (note_of h i) (Some w)) (i < old_next_id p)"
    using h p a(2) by (auto simp: state_ok_notes restore_note dest: spec [of _ i])
  ultimately have "map_of (old_values h) i = Some v \<or> (map_of (old_values p) i = Some v \<and>
      (restore h m i = Some w \<or> (\<exists>u. map_of (old_values h) i = Some u \<and> restore h m i = Some u)))"
    using merge_note_old [of "note_of p i" "note_of h i" v w] a(2) by (simp add: old restore_note)
  then show "same_keys clash v w"
    using assms(3,4) a(2) unfolding old_keys_ok_def by (metis same_keys_trans)
qed


lemma keys_ok_Cons:
  "keys_ok clash (h # hs) m \<longleftrightarrow> uniq clash m \<and> old_keys_ok clash h m \<and> keys_ok clash hs (restore h m)"
  by (simp add: old_keys_ok_def)

lemma squash_refines:
  assumes ok: "index_ok clash idx"
  shows "Inr (snapshots (squash idx)) = snapshot_step clash (snapshots idx) Squash"
    and "index_ok clash (squash idx)"
proof -
  consider "stack idx = []" | h where "stack idx = [h]" | hs p h where "stack idx = hs @ [p, h]"
    by (metis append_Cons append_Nil append_assoc rev_exhaust)
  then have "Inr (snapshots (squash idx)) = snapshot_step clash (snapshots idx) Squash
    \<and> index_ok clash (squash idx)"
  proof cases
    case 1
    with ok show ?thesis by (simp add: squash_def enabled_def snapshots_def)
  next
    case 2
    with ok show ?thesis
      by (auto simp: squash_def enabled_def snapshots_def index_ok_def)
  next
    case (3 hs p h)
    let ?m = "map_of (indices idx)"
    have sq: "squash idx = idx\<lparr>stack := hs @ [squash_states p h], revision := revision idx - 1\<rparr>"
      using 3 by (simp add: squash_def enabled_def butlast_append)
    have st: "state_ok h ?m (next_id idx)" "state_ok p (restore h ?m) (old_next_id h)"
      using ok 3 by (simp_all add: index_ok_def)
    have ks: "uniq clash ?m" "old_keys_ok clash h ?m" "old_keys_ok clash p (restore h ?m)"
      "keys_ok clash (rev hs) (restore p (restore h ?m))"
      using ok 3 by (simp_all add: index_ok_def keys_ok_Cons del: keys_ok.simps)
    show ?thesis
      using ok 3 ks squash_states_ok [OF st] squash_old_keys_ok [OF st ks(2,3)] unfolding sq
      by (simp add: index_ok_def snapshots_def keys_ok_Cons del: keys_ok.simps)
  qed
  then show "Inr (snapshots (squash idx)) = snapshot_step clash (snapshots idx) Squash"
    and "index_ok clash (squash idx)" by simp_all
qed

section \<open>Starting a session and committing\<close>

lemma start_refines:
  assumes ok: "index_ok clash idx"
  shows "Inr (snapshots (fst (start_undo_session True idx))) = snapshot_step clash (snapshots idx) Start"
    and "index_ok clash (fst (start_undo_session True idx))"
proof -
  let ?u = "\<lparr>old_values = [], removed_values = [], new_ids = [],
                  old_next_id = next_id idx, undo_revision = revision idx + 1\<rparr>"
  have r: "restore ?u m = m" for m :: "nat \<rightharpoonup> 'a" by (simp add: restore_def fun_eq_iff)
  have s: "state_ok ?u (map_of (indices idx)) (next_id idx)"
    using ok by (force simp: state_ok_def index_ok_def)
  have k: "uniq clash (map_of (indices idx))" using ok keys_ok_uniq by (auto simp: index_ok_def)
  show "Inr (snapshots (fst (start_undo_session True idx))) = snapshot_step clash (snapshots idx) Start"
    by (simp add: start_undo_session_def snapshots_def Let_def r)
  show "index_ok clash (fst (start_undo_session True idx))"
    using ok s k by (simp add: start_undo_session_def index_ok_def Let_def r)
qed

lemma snaps_all: "(\<forall>s \<in> set (snaps hs m). (\<lambda>(m, n, r). r \<le> q) s) \<longleftrightarrow> (\<forall>h \<in> set hs. undo_revision h \<le> q)"
  by (induction hs arbitrary: m) auto

lemma snaps_commit:
  "snaps (rev (dropWhile (\<lambda>u. undo_revision u \<le> q) (rev hs))) m =
     rev (dropWhile (\<lambda>(m, n, r). r \<le> q) (rev (snaps hs m)))"
proof (induction hs arbitrary: m)
  case (Cons h hs)
  show ?case
  proof (cases "\<forall>h \<in> set hs. undo_revision h \<le> q")
    case True
    have "dropWhile (\<lambda>u. undo_revision u \<le> q) (rev hs @ [h]) = dropWhile (\<lambda>u. undo_revision u \<le> q) [h]"
      using True by (intro dropWhile_append2) simp
    moreover have "dropWhile (\<lambda>(m, n, r). r \<le> q) (rev (snaps hs (restore h m)) @ [s]) =
        dropWhile (\<lambda>(m, n, r). r \<le> q) [s]" for s :: "'a snapshot"
      using True snaps_all [of hs "restore h m" q] by (intro dropWhile_append2) simp
    ultimately show ?thesis by simp
  next
    case False
    then obtain h' where h': "h' \<in> set hs" "\<not> undo_revision h' \<le> q" by blast
    obtain s where s: "s \<in> set (snaps hs (restore h m))" "\<not> (\<lambda>(m, n, r). r \<le> q) s"
      using False snaps_all [of hs "restore h m" q] by blast
    from h' s Cons.IH show ?thesis by (simp add: dropWhile_append1)
  qed
qed simp

lemma stack_ok_prefix: "stack_ok (xs @ ys) m n \<Longrightarrow> stack_ok xs m n"
  by (induction xs arbitrary: m n) simp_all

lemma keys_ok_prefix: "keys_ok clash (xs @ ys) m \<Longrightarrow> keys_ok clash xs m"
  by (induction xs arbitrary: m) (auto dest: keys_ok_uniq)

lemma commit_refines:
  assumes ok: "index_ok clash idx"
  shows "Inr (snapshots (commit q idx)) = snapshot_step clash (snapshots idx) (Commit q)"
    and "index_ok clash (commit q idx)"
proof -
  show "Inr (snapshots (commit q idx)) = snapshot_step clash (snapshots idx) (Commit q)"
    using snaps_commit [of q "rev (stack idx)"] by (simp add: commit_def snapshots_def)
  have "rev (stack idx) = rev (dropWhile (\<lambda>u. undo_revision u \<le> q) (stack idx))
      @ rev (takeWhile (\<lambda>u. undo_revision u \<le> q) (stack idx))"
    by (metis rev_append takeWhile_dropWhile_id)
  then show "index_ok clash (commit q idx)"
    using ok by (auto simp: commit_def index_ok_def dest: stack_ok_prefix keys_ok_prefix)
qed

section \<open>The refinement\<close>

text \<open>
  The contract of the container's unique indices, as far as the undo machinery relies on it: clashing
  is symmetric.  Under it the index is a refinement of the stack of snapshots.
\<close>

locale unique_keys =
  fixes clash :: "'v \<Rightarrow> 'v \<Rightarrow> bool"
  assumes clash_sym: "symp clash"
begin

lemma step_refines:
  assumes "index_ok clash idx" "keeps_keys clash x"
  shows "map_sum id snapshots (index_step clash idx x) = snapshot_step clash (snapshots idx) x"
proof (cases x)
  case (Emplace v)
  with emplace_refines(1) [OF assms(1) clash_sym] show ?thesis by (simp only: index_step.simps)
next
  case (Modify i f)
  with assms(2) modify_refines(1) [OF assms(1) clash_sym] show ?thesis by (simp only: index_step.simps)
next
  case (Remove i)
  with remove_refines(1) [OF assms(1)] show ?thesis by (simp only: index_step.simps)
next
  case Undo
  from undo_refines [OF assms(1)] Undo show ?thesis by (metis index_step.simps(5) map_sum.simps(2))
next
  case Start
  with start_refines(1) [OF assms(1)] show ?thesis by (simp only: index_step.simps map_sum.simps)
next
  case Squash
  with squash_refines(1) [OF assms(1)] show ?thesis by (simp only: index_step.simps map_sum.simps)
next
  case (Commit q)
  with commit_refines(1) [OF assms(1)] show ?thesis by (simp only: index_step.simps map_sum.simps)
qed

lemma step_ok:
  assumes "index_ok clash idx" "keeps_keys clash x" "index_step clash idx x = Inr idx'"
  shows "index_ok clash idx'"
proof (cases x)
  case (Emplace v)
  with assms(3) show ?thesis by (auto intro: emplace_refines(2) [OF assms(1) clash_sym])
next
  case (Modify i f)
  with assms(2,3) show ?thesis by (auto intro: modify_refines(2) [OF assms(1) clash_sym, of i f])
next
  case (Remove i)
  with assms(3) show ?thesis by (auto intro: remove_refines(2) [OF assms(1)])
next
  case Undo
  with undo_refines [OF assms(1)] assms(3) show ?thesis by (metis index_step.simps(5) sum.inject(2))
next
  case Start
  with assms(3) start_refines(2) [OF assms(1)] show ?thesis by auto
next
  case Squash
  with assms(3) squash_refines(2) [OF assms(1)] show ?thesis by auto
next
  case (Commit q)
  with assms(3) commit_refines(2) [OF assms(1)] show ?thesis by auto
qed

end

sublocale unique_keys \<subseteq> undo: refinement "index_step clash" "keeps_keys clash" "index_ok clash" "snapshot_step clash" snapshots
  by unfold_locales (auto intro: step_ok step_refines)

text \<open>The unique indices of a container, each given by its key.\<close>

definition key_clash :: "('v \<Rightarrow> 'k) list \<Rightarrow> 'v \<Rightarrow> 'v \<Rightarrow> bool" where
  "key_clash keys v w \<longleftrightarrow> list_ex (\<lambda>k. k v = k w) keys"

interpretation multi_index: unique_keys "key_clash keys" for keys
  by unfold_locales (auto simp: symp_def key_clash_def list_ex_iff eq_commute)


section \<open>Properties of the state database\<close>

lemma index_ok_empty: "index_ok clash empty_index"
  by (simp add: index_ok_def empty_index_def uniq_def)

text \<open>
  C7. The incremental undo stack implements a stack of whole snapshots.  Take any index built by the
  operations below and any sequence of creations, modifications that keep the unique keys, removals,
  session starts, undos, squashes and commits: the sequence throws exactly when the same sequence on
  snapshots does, with the same exception, and otherwise the contents and every state that can still be
  undone to (objects, next id, revision) are the snapshots that machine has.
\<close>

theorem undo_stack_refines_snapshots:
  assumes "index_ok (key_clash keys) idx" and "list_all (keeps_keys (key_clash keys)) ops"
  shows "map_sum id snapshots (foldR (\<lambda>x s. index_step (key_clash keys) s x) ops idx) =
         foldR (\<lambda>x s. snapshot_step (key_clash keys) s x) ops (snapshots idx)"
  using assms by (rule multi_index.undo.foldR_abs)

theorem undo_stack_refines_snapshots_witness:
  "map_sum id snapshots (foldR (\<lambda>x s. index_step (key_clash [fst]) s x)
       [Emplace (1::nat, 2::nat), Start, Modify 0 (\<lambda>(a, b). (a, b + 1)), Start, Remove 0, Squash, Undo] empty_index) =
   foldR (\<lambda>x s. snapshot_step (key_clash [fst]) s x)
       [Emplace (1, 2), Start, Modify 0 (\<lambda>(a, b). (a, b + 1)), Start, Remove 0, Squash, Undo] (snapshots empty_index)
 \<and> (case foldR (\<lambda>x s. index_step (key_clash [fst]) s x)
       [Emplace (1::nat, 2::nat), Start, Modify 0 (\<lambda>(a, b). (a, b + 1)), Start, Remove 0, Squash, Undo] empty_index
    of Inr idx \<Rightarrow> indices idx = [(0, (1, 2))] \<and> stack idx = [] | Inl _ \<Rightarrow> False)"
proof
  show "map_sum id snapshots (foldR (\<lambda>x s. index_step (key_clash [fst]) s x)
       [Emplace (1::nat, 2::nat), Start, Modify 0 (\<lambda>(a, b). (a, b + 1)), Start, Remove 0, Squash, Undo] empty_index) =
   foldR (\<lambda>x s. snapshot_step (key_clash [fst]) s x)
       [Emplace (1, 2), Start, Modify 0 (\<lambda>(a, b). (a, b + 1)), Start, Remove 0, Squash, Undo] (snapshots empty_index)"
    by (rule undo_stack_refines_snapshots [OF index_ok_empty])
      (auto simp: same_keys_def key_clash_def split: prod.splits)
  show "case foldR (\<lambda>x s. index_step (key_clash [fst]) s x)
       [Emplace (1::nat, 2::nat), Start, Modify 0 (\<lambda>(a, b). (a, b + 1)), Start, Remove 0, Squash, Undo] empty_index
    of Inr idx \<Rightarrow> indices idx = [(0, (1, 2))] \<and> stack idx = [] | Inl _ \<Rightarrow> False"
    by code_simp
qed

text \<open>Changes of the contents touch the undo state at the back of the stack only.\<close>

fun is_change :: "'v db_op \<Rightarrow> bool" where
  "is_change (Emplace v) = True"
| "is_change (Modify i f) = True"
| "is_change (Remove i) = True"
| "is_change _ = False"

lemma butlast_upd_stack: "butlast (upd_stack f st) = butlast st"
  by (cases st rule: rev_cases) simp_all

lemma change_stack:
  assumes "is_change x" "index_step clash idx x = Inr idx'"
  shows "butlast (stack idx') = butlast (stack idx)" "revision idx' = revision idx"
proof -
  have "butlast (stack idx') = butlast (stack idx) \<and> revision idx' = revision idx"
    using assms
    by (cases x) (auto simp: emplace_def modify_def remove_def on_create_eq on_modify_eq on_remove_eq
        butlast_upd_stack Let_def split: if_splits option.splits)
  then show "butlast (stack idx') = butlast (stack idx)" "revision idx' = revision idx" by simp_all
qed

lemma changes_stack:
  assumes "list_all is_change ops" "foldR (\<lambda>x s. index_step clash s x) ops idx = Inr idx'"
  shows "butlast (stack idx') = butlast (stack idx) \<and> revision idx' = revision idx"
  using assms(2)
proof (rule foldR_invariant)
  fix x s t
  assume "x \<in> set ops" "butlast (stack s) = butlast (stack idx) \<and> revision s = revision idx"
    "index_step clash s x = Inr t"
  with assms(1) change_stack [of x clash s t]
  show "butlast (stack t) = butlast (stack idx) \<and> revision t = revision idx"
    by (simp add: list_all_iff)
qed simp

text \<open>The snapshots below the current contents do not change either.\<close>

lemma snapshot_change:
  assumes "is_change x" "snapshot_step clash ss x = Inr ts" "ss \<noteq> []"
  shows "ts \<noteq> []" "tl ts = tl ss" "snd (snd (hd ts)) = snd (snd (hd ss))"
proof -
  obtain m n r ss' where "ss = (m, n, r) # ss'" using assms(3) by (metis list.exhaust prod_cases3)
  then have "ts \<noteq> [] \<and> tl ts = tl ss \<and> snd (snd (hd ts)) = snd (snd (hd ss))"
    using assms(1,2) by (cases x) (auto split: if_splits option.splits)
  then show "ts \<noteq> []" "tl ts = tl ss" "snd (snd (hd ts)) = snd (snd (hd ss))" by simp_all
qed

lemma snapshot_changes:
  assumes "list_all is_change ops" "foldR (\<lambda>x s. snapshot_step clash s x) ops ss = Inr ts" "ss \<noteq> []"
  shows "ts \<noteq> [] \<and> tl ts = tl ss \<and> snd (snd (hd ts)) = snd (snd (hd ss))"
  using assms(2)
proof (rule foldR_invariant)
  fix x s t
  assume "x \<in> set ops" "s \<noteq> [] \<and> tl s = tl ss \<and> snd (snd (hd s)) = snd (snd (hd ss))"
    "snapshot_step clash s x = Inr t"
  with assms(1) snapshot_change [of x clash s t]
  show "t \<noteq> [] \<and> tl t = tl ss \<and> snd (snd (hd t)) = snd (snd (hd ss))" by (simp add: list_all_iff)
qed (use assms(3) in simp)

lemma index_eqI:
  assumes "sorted_keys (indices a)" "sorted_keys (indices b)" "hd (snapshots a) = hd (snapshots b)"
    "stack a = stack b"
  shows "a = (b :: 'v generic_index)"
  using assms by (intro generic_index.equality) (auto simp: snapshots_def intro: sorted_keys_eqI)


text \<open>
  C8. Undoing a session restores the index exactly: after a session is started and any sequence of
  creations, removals and key-preserving modifications has succeeded, \<open>undo\<close> does not throw and gives back
  the very index from before the session, with its objects, next id, revision and older undo states.
\<close>

theorem session_undo_restores:
  assumes "index_ok (key_clash keys) idx"
    and "list_all is_change ops" and "list_all (keeps_keys (key_clash keys)) ops"
    and "foldR (\<lambda>x s. index_step (key_clash keys) s x) ops (fst (start_undo_session True idx)) = Inr idx1"
  shows "undo (key_clash keys) idx1 = Inr idx"
proof -
  let ?c = "key_clash keys" and ?i0 = "fst (start_undo_session True idx)"
  have st0: "snapshots ?i0 = (map_of (indices idx), next_id idx, revision idx + 1)
      # (map_of (indices idx), next_id idx, revision idx + 1) # tl (snapshots idx)"
    and ok0: "index_ok ?c ?i0"
    using start_refines [OF assms(1)] by (auto simp: snapshots_def)
  have ok1: "index_ok ?c idx1" using ok0 assms(3,4) by (rule multi_index.undo.foldR_inv)
  have "foldR (\<lambda>x s. snapshot_step ?c s x) ops (snapshots ?i0) = Inr (snapshots idx1)"
    using multi_index.undo.foldR_abs [OF ok0 assms(3)] assms(4) by simp
  from snapshot_changes [OF assms(2) this] obtain m n where
    s1: "snapshots idx1 = (m, n, revision idx + 1)
      # (map_of (indices idx), next_id idx, revision idx + 1) # tl (snapshots idx)"
    unfolding st0 by (cases "snapshots idx1") auto
  obtain idx' where u: "undo ?c idx1 = Inr idx'" "index_ok ?c idx'" "stack idx' = butlast (stack idx1)"
    "Inr (snapshots idx') = snapshot_step ?c (snapshots idx1) Undo"
    using undo_refines [OF ok1] by metis
  have "stack idx' = stack idx"
    using u(3) changes_stack [OF assms(2,4)] by (simp add: start_undo_session_def Let_def)
  moreover have "hd (snapshots idx') = hd (snapshots idx)"
    using u(4) by (simp add: s1) (simp add: snapshots_def)
  ultimately have "idx' = idx"
    using u(2) assms(1) by (intro index_eqI) (simp_all add: index_ok_def)
  with u(1) show ?thesis by simp
qed

theorem session_undo_restores_witness:
  "undo (key_clash [fst]) (the (case foldR (\<lambda>x s. index_step (key_clash [fst]) s x)
       [Modify 0 (\<lambda>(a, b). (a, b + 1)), Emplace (7, 7), Remove 0]
       (fst (start_undo_session True (empty_index\<lparr>indices := [(0, (1::nat, 2::nat))], next_id := 1\<rparr>)))
     of Inr i \<Rightarrow> Some i | Inl _ \<Rightarrow> None))
   = Inr (empty_index\<lparr>indices := [(0, (1, 2))], next_id := 1\<rparr>)"
proof (rule session_undo_restores [where ops = "[Modify 0 (\<lambda>(a, b). (a, b + 1)), Emplace (7, 7), Remove 0]"])
  show "index_ok (key_clash [fst]) (empty_index\<lparr>indices := [(0, (1::nat, 2::nat))], next_id := 1\<rparr>)"
    by (simp add: index_ok_def empty_index_def uniq_def sorted_keys_def)
  show "list_all (keeps_keys (key_clash [fst])) [Modify 0 (\<lambda>(a, b). (a, b + 1)), Emplace (7::nat, 7::nat), Remove 0]"
    by (auto simp: same_keys_def key_clash_def split: prod.splits)
  show "foldR (\<lambda>x s. index_step (key_clash [fst]) s x)
       [Modify 0 (\<lambda>(a, b). (a, b + 1)), Emplace (7, 7), Remove 0]
       (fst (start_undo_session True (empty_index\<lparr>indices := [(0, (1::nat, 2::nat))], next_id := 1\<rparr>))) =
     Inr (the (case foldR (\<lambda>x s. index_step (key_clash [fst]) s x)
       [Modify 0 (\<lambda>(a, b). (a, b + 1)), Emplace (7, 7), Remove 0]
       (fst (start_undo_session True (empty_index\<lparr>indices := [(0, (1::nat, 2::nat))], next_id := 1\<rparr>)))
     of Inr i \<Rightarrow> Some i | Inl _ \<Rightarrow> None))"
    by code_simp
qed simp

lemma undo_loop_ok:
  assumes "index_ok clash idx" "length (stack idx) \<le> n"
  shows "\<exists>idx'. undo_loop clash n idx = Inr idx' \<and> stack idx' = [] \<and> index_ok clash idx'
    \<and> map_of (indices idx') = fst (last (snapshots idx))"
  using assms
proof (induction n arbitrary: idx)
  case 0
  then show ?case by (simp add: snapshots_def)
next
  case (Suc n)
  show ?case
  proof (cases "stack idx = []")
    case True
    with Suc.prems show ?thesis by (simp add: enabled_def snapshots_def)
  next
    case False
    obtain i1 where i1: "undo clash idx = Inr i1" "index_ok clash i1" "stack i1 = butlast (stack idx)"
      "Inr (snapshots i1) = snapshot_step clash (snapshots idx) Undo"
      using undo_refines [OF Suc.prems(1)] by metis
    obtain hs h where st: "stack idx = hs @ [h]" using False by (metis rev_exhaust)
    have "fst (last (snapshots i1)) = fst (last (snapshots idx))"
      using i1(4) unfolding snapshots_def by (simp add: st) auto
    with Suc.IH [OF i1(2)] i1(1,3) Suc.prems(2) False show ?thesis by (simp add: enabled_def)
  qed
qed



text \<open>
  The restriction to key-preserving modifications is needed.  In a session, two objects exchange their
  unique keys (by way of a third value, so that no step clashes); \<open>undo\<close> restores the first object while the
  second still holds its old key, and throws.
\<close>

theorem undo_fails_after_key_swap:
  "is_ok (foldR (\<lambda>x s. index_step (key_clash [id]) s x)
     [Emplace (1::nat), Emplace 2, Start, Modify 0 (\<lambda>_. 3), Modify 1 (\<lambda>_. 1), Modify 0 (\<lambda>_. 2)] empty_index)
 \<and> foldR (\<lambda>x s. index_step (key_clash [id]) s x)
     [Emplace (1::nat), Emplace 2, Start, Modify 0 (\<lambda>_. 3), Modify 1 (\<lambda>_. 1), Modify 0 (\<lambda>_. 2), Undo] empty_index
   = Inl logic_error"
  by code_simp

end
