(* ===== verification/Keys.thy ===== *)
theory Keys
  imports Names Merkle
begin

text \<open>
  Public keys and signatures as values (\<^verbatim>\<open>libraries/fc/include/fc/crypto/public_key.hpp\<close>,
  \<^verbatim>\<open>common.hpp\<close>, \<^verbatim>\<open>signature.hpp\<close>), the points in time of \<^verbatim>\<open>libraries/fc/include/fc/time.hpp\<close> and the
  slots of \<^verbatim>\<open>libraries/chain/include/besio/chain/block_timestamp.hpp\<close>.

  A key is one of the two variants of the storage with its 33 bytes, a signature one with its 65
  bytes; the bytes are read as a big-endian number, so that \<^verbatim>\<open>memcmp\<close> is the order of the numbers.
  The elliptic curves are in libraries that are not part of the repository: recovering a key from a
  signature is a parameter of the definitions that use it.
\<close>

section \<open>Keys\<close>

datatype public_key_type = K1 "264 word" | R1 "264 word"

datatype signature_type = SIG_K1 "520 word" | SIG_R1 "520 word"

text \<open>The default constructor: the first variant, all bytes zero.\<close>

definition default_public_key :: public_key_type where
  "default_public_key = K1 0"

definition default_signature :: signature_type where
  "default_signature = SIG_K1 0"

text \<open>\<^verbatim>\<open>less_comparator\<close>: first the variant, then the bytes.\<close>

fun key_less :: "public_key_type \<Rightarrow> public_key_type \<Rightarrow> bool" where
  "key_less (K1 a) (K1 b) \<longleftrightarrow> a < b"
| "key_less (K1 a) (R1 b) \<longleftrightarrow> True"
| "key_less (R1 a) (K1 b) \<longleftrightarrow> False"
| "key_less (R1 a) (R1 b) \<longleftrightarrow> a < b"

instantiation public_key_type :: linorder
begin

definition less_public_key_type :: "public_key_type \<Rightarrow> public_key_type \<Rightarrow> bool" where
  "less_public_key_type = key_less"

definition less_eq_public_key_type :: "public_key_type \<Rightarrow> public_key_type \<Rightarrow> bool" where
  "less_eq_public_key_type a b \<longleftrightarrow> key_less a b \<or> a = b"

instance
proof
  fix a b c :: public_key_type
  show "a < b \<longleftrightarrow> a \<le> b \<and> \<not> b \<le> a"
    by (cases a; cases b) (auto simp: less_public_key_type_def less_eq_public_key_type_def)
  show "a \<le> a" by (simp add: less_eq_public_key_type_def)
  show "a \<le> b \<Longrightarrow> b \<le> c \<Longrightarrow> a \<le> c"
    by (cases a; cases b; cases c) (auto simp: less_eq_public_key_type_def)
  show "a \<le> b \<Longrightarrow> b \<le> a \<Longrightarrow> a = b"
    by (cases a; cases b) (auto simp: less_eq_public_key_type_def)
  show "a \<le> b \<or> b \<le> a"
    by (cases a; cases b) (auto simp: less_eq_public_key_type_def)
qed

end

section \<open>Time\<close>

text \<open>A point in time is the number of microseconds since 1970, an \<^verbatim>\<open>int64_t\<close>.\<close>

type_synonym time_point = int

definition milliseconds :: "int \<Rightarrow> int" where
  "milliseconds s = i64 (s * 1000)"

definition seconds :: "int \<Rightarrow> int" where
  "seconds s = i64 (s * 1000000)"

definition block_interval_ms :: nat where
  "block_interval_ms = 500"

definition block_timestamp_epoch :: nat where
  "block_timestamp_epoch = 946684800000"

text \<open>A block timestamp is its slot, a \<^verbatim>\<open>uint32_t\<close>.\<close>

type_synonym block_timestamp_type = nat

definition timestamp_maximum :: block_timestamp_type where
  "timestamp_maximum = 0xffff"

definition timestamp_next :: "block_timestamp_type \<Rightarrow> block_timestamp_type result" where
  "timestamp_next slot =
     bes_assert (u32_sub (2 ^ 32 - 1) slot \<ge> 1) overflow_exception (Inr (u32 (slot + 1)))"

definition to_time_point :: "block_timestamp_type \<Rightarrow> time_point" where
  "to_time_point slot =
     (let msec = i64 (int slot * int block_interval_ms);
          msec = i64 (msec + int block_timestamp_epoch)
      in milliseconds msec)"

text \<open>
  In \<^verbatim>\<open>msec_since_epoch - EpochMs\<close> the \<^verbatim>\<open>int64_t\<close> is converted to \<^verbatim>\<open>uint64_t\<close>: the difference and
  the division are unsigned.
\<close>

definition set_time_point :: "time_point \<Rightarrow> block_timestamp_type" where
  "set_time_point t =
     (let msec_since_epoch = tdiv t 1000
      in u32 (u64_sub (to_u64 msec_since_epoch) block_timestamp_epoch div block_interval_ms))"

text \<open>The overload for \<^verbatim>\<open>time_point_sec\<close>, whose value is a \<^verbatim>\<open>uint32_t\<close> number of seconds.\<close>

definition set_time_point_sec :: "nat \<Rightarrow> block_timestamp_type" where
  "set_time_point_sec sec_since_epoch =
     u32 (u64_sub (u64 (sec_since_epoch * 1000)) block_timestamp_epoch div block_interval_ms)"

lemma to_time_point_eq:
  assumes "slot < 2 ^ 32"
  shows "to_time_point slot = (int slot * 500 + 946684800000) * 1000"
proof -
  have "is_i64 (int slot * 500)" "is_i64 (int slot * 500 + 946684800000)"
    "is_i64 ((int slot * 500 + 946684800000) * 1000)"
    using assms by (simp_all add: is_i64_def)
  then show ?thesis
    unfolding to_time_point_def milliseconds_def Let_def block_interval_ms_def
      block_timestamp_epoch_def of_nat_numeral
    by (simp only: i64_id)
qed

text \<open>Every point in time from a slot's beginning up to the next slot's has that slot.\<close>

lemma set_time_point_slot:
  assumes "slot < 2 ^ 32" "0 \<le> d" "d < 500000"
  shows "set_time_point (to_time_point slot + d) = slot"
proof -
  let ?t = "to_time_point slot + d"
  have t: "?t = (int slot * 500 + 946684800000) * 1000 + d" using to_time_point_eq [OF assms(1)] by simp
  have "tdiv ?t 1000 = ?t div 1000" unfolding t using assms(2) by (intro tdiv_nonneg) simp_all
  also have "\<dots> = int slot * 500 + 946684800000 + d div 1000"
    unfolding t using assms(2) by (simp add: div_mult_self3)
  finally have ms: "tdiv ?t 1000 = int (slot * 500 + 946684800000 + nat (d div 1000))"
    using assms(2) by simp
  have d: "nat (d div 1000) < 500" using assms(2,3) by auto
  have "to_u64 (tdiv ?t 1000) = slot * 500 + 946684800000 + nat (d div 1000)"
    unfolding ms using assms(1) d by (subst to_u64_nonneg) auto
  moreover have "u64_sub (slot * 500 + 946684800000 + nat (d div 1000)) 946684800000 = slot * 500 + nat (d div 1000)"
    using assms(1) d by (subst u64_sub_id) auto
  moreover have "(slot * 500 + nat (d div 1000)) div 500 = slot" using d by simp
  ultimately show ?thesis
    using assms(1) by (simp add: set_time_point_def Let_def block_timestamp_epoch_def block_interval_ms_def u32_id)
qed

text \<open>
  Converting a slot to a point in time and back gives the slot: every microsecond from the
  beginning of the half-second interval of a slot to its end is mapped to that slot, with no
  wrap-around in the 64-bit arithmetic, for every 32-bit slot number.
\<close>

theorem timestamp_roundtrip:
  assumes "slot < 2 ^ 32" "0 \<le> d" "d < int block_interval_ms * 1000"
  shows "set_time_point (to_time_point slot + d) = slot"
  using assms by (intro set_time_point_slot) (simp_all add: block_interval_ms_def)

theorem timestamp_roundtrip_witness:
  "set_time_point (to_time_point 4294967295 + 499999) = 4294967295"
  by (rule timestamp_roundtrip) (simp_all add: block_interval_ms_def)

end
