(* ===== verification/BlockHeader.thy ===== *)
theory BlockHeader
  imports Keys
begin

text \<open>
  Block headers, producer schedules and the header state machine of delegated proof of stake:
  \<^verbatim>\<open>producer_schedule.hpp\<close>, \<^verbatim>\<open>block_header.hpp\<close>, \<^verbatim>\<open>block_header.cpp\<close>, \<^verbatim>\<open>block_header_state.hpp\<close> and
  \<^verbatim>\<open>block_header_state.cpp\<close> in \<^verbatim>\<open>libraries/chain\<close>.

  The hash of a header or a schedule, the hash of a pair of digests and the recovery of a public
  key from a signature are the parameters of record \<open>chain_crypto\<close>.  Block numbers and slots are
  \<^verbatim>\<open>uint32_t\<close>, the entries of \<open>confirm_count\<close> are \<^verbatim>\<open>uint8_t\<close>, with their wrap-around.

  The lemmas are about the state machine that \<open>next\<close> drives: the invariant \<open>header_state_ok\<close>, what the
  last irreversible block means, that it and the proposed one never go back, that the Merkle tree holds
  the ids of all earlier blocks.
\<close>

section \<open>Data\<close>

record producer_key =
  producer_name :: name
  block_signing_key :: public_key_type

record producer_schedule_type =
  version :: nat
  producers :: "producer_key list"

definition empty_schedule :: producer_schedule_type where
  "empty_schedule = \<lparr>version = 0, producers = []\<rparr>"

definition get_producer_key :: "producer_schedule_type \<Rightarrow> name \<Rightarrow> public_key_type" where
  "get_producer_key s p =
     (case find (\<lambda>i. producer_name i = p) (producers s) of
        Some i \<Rightarrow> block_signing_key i
      | None \<Rightarrow> default_public_key)"

record block_header =
  timestamp :: block_timestamp_type
  producer :: name
  confirmed :: nat
  previous :: sha256
  transaction_mroot :: sha256
  action_mroot :: sha256
  schedule_version :: nat
  new_producers :: "producer_schedule_type option"
  header_extensions :: "(nat \<times> nat list) list"

record signed_block_header = block_header +
  producer_signature :: signature_type

definition default_signed_header :: signed_block_header where
  "default_signed_header = \<lparr>timestamp = 0, producer = 0, confirmed = 1, previous = default_digest,
     transaction_mroot = default_digest, action_mroot = default_digest, schedule_version = 0,
     new_producers = None, header_extensions = [], producer_signature = default_signature\<rparr>"

record header_confirmation =
  conf_block_id :: sha256
  conf_producer :: name
  conf_signature :: signature_type

text \<open>The cryptography the code calls.\<close>

record chain_crypto =
  header_hash :: "block_header \<Rightarrow> sha256"
  schedule_hash :: "producer_schedule_type \<Rightarrow> sha256"
  hash_pair :: pair_hash
  recover_key :: "signature_type \<Rightarrow> sha256 \<Rightarrow> bool \<Rightarrow> public_key_type result"

section \<open>Block numbers and ids\<close>

definition endian_reverse_u32 :: "32 word \<Rightarrow> 32 word" where
  "endian_reverse_u32 x =
     (drop_bit 0x18 x AND 0xFF)
     OR push_bit 0x08 (drop_bit 0x10 x AND 0xFF)
     OR push_bit 0x10 (drop_bit 0x08 x AND 0xFF)
     OR push_bit 0x18 (x AND 0xFF)"

definition num_from_id :: "sha256 \<Rightarrow> nat" where
  "num_from_id i = unat (endian_reverse_u32 (ucast (hash0 i)))"

definition header_block_num :: "'a block_header_scheme \<Rightarrow> nat" where
  "header_block_num h = u32 (num_from_id (previous h) + 1)"

definition header_digest :: "chain_crypto \<Rightarrow> 'a block_header_scheme \<Rightarrow> sha256" where
  "header_digest cr h = header_hash cr (block_header.truncate h)"

definition header_id :: "chain_crypto \<Rightarrow> 'a block_header_scheme \<Rightarrow> sha256" where
  "header_id cr h =
     (case header_digest cr h of SHA256 a b c d \<Rightarrow>
        SHA256 ((a AND 0xffffffff00000000) + ucast (endian_reverse_u32 (of_nat (header_block_num h)))) b c d)"

section \<open>The header state\<close>

definition producer_repetitions :: nat where
  "producer_repetitions = 12"

definition max_producers :: nat where
  "max_producers = 125"

definition maximum_tracked_dpos_confirmations :: nat where
  "maximum_tracked_dpos_confirmations = 1024"

record block_header_state =
  block_id :: sha256
  block_num :: nat
  header :: signed_block_header
  dpos_proposed_irreversible_blocknum :: nat
  dpos_irreversible_blocknum :: nat
  bft_irreversible_blocknum :: nat
  pending_schedule_lib_num :: nat
  pending_schedule_hash :: sha256
  pending_schedule :: producer_schedule_type
  active_schedule :: producer_schedule_type
  blockroot_merkle :: incremental_merkle
  producer_to_last_produced :: "(name \<times> nat) list"
  producer_to_last_implied_irb :: "(name \<times> nat) list"
  state_signing_key :: public_key_type
  confirm_count :: "nat list"
  confirmations :: "header_confirmation list"

definition default_header_state :: block_header_state where
  "default_header_state = \<lparr>block_id = default_digest, block_num = 0, header = default_signed_header,
     dpos_proposed_irreversible_blocknum = 0, dpos_irreversible_blocknum = 0,
     bft_irreversible_blocknum = 0, pending_schedule_lib_num = 0, pending_schedule_hash = default_digest,
     pending_schedule = empty_schedule, active_schedule = empty_schedule,
     blockroot_merkle = empty_incremental_merkle, producer_to_last_produced = [],
     producer_to_last_implied_irb = [], state_signing_key = default_public_key,
     confirm_count = [], confirmations = []\<rparr>"

definition has_pending_producers :: "block_header_state \<Rightarrow> bool" where
  "has_pending_producers s \<longleftrightarrow> producers (pending_schedule s) \<noteq> []"

definition is_active_producer :: "block_header_state \<Rightarrow> name \<Rightarrow> bool" where
  "is_active_producer s n \<longleftrightarrow> map_of (producer_to_last_produced s) n \<noteq> None"

text \<open>With an empty schedule the code takes a remainder modulo zero.\<close>

definition get_scheduled_producer :: "block_header_state \<Rightarrow> block_timestamp_type \<Rightarrow> producer_key result" where
  "get_scheduled_producer s t =
     (let ps = producers (active_schedule s) in
      if ps = [] then Inl undefined_behaviour
      else Inr (ps ! (t mod (length ps * producer_repetitions) div producer_repetitions)))"

definition calc_dpos_last_irreversible :: "block_header_state \<Rightarrow> nat" where
  "calc_dpos_last_irreversible s =
     (let blocknums = map snd (producer_to_last_implied_irb s) in
      if blocknums = [] then 0 else sort blocknums ! ((length blocknums - 1) div 3))"

definition grow_confirm_count :: "nat \<Rightarrow> nat list \<Rightarrow> nat list" where
  "grow_confirm_count required_confs cc =
     (if length cc < maximum_tracked_dpos_confirmations then cc @ [u8 required_confs]
      else tl cc @ [u8 required_confs])"

definition generate_next :: "chain_crypto \<Rightarrow> block_header_state \<Rightarrow> block_timestamp_type
    \<Rightarrow> block_header_state result" where
  "generate_next cr s when =
     bindR (if when \<noteq> 0
            then bes_assert (when > timestamp (header s)) block_validate_exception (Inr when)
            else Inr (u32 (timestamp (header s) + 1)))
    (\<lambda>when. bindR (get_scheduled_producer s when)
    (\<lambda>prokey. bindR (merkle_append (hash_pair cr) (blockroot_merkle s) (block_id s))
    (\<lambda>bm.
      let num = u32 (block_num s + 1);
          irb = map_put (producer_name prokey) (dpos_proposed_irreversible_blocknum s)
                  (producer_to_last_implied_irb s);
          result = default_header_state\<lparr>
            header := default_signed_header\<lparr>
              timestamp := when, previous := block_id s,
              schedule_version := version (active_schedule s), producer := producer_name prokey\<rparr>,
            state_signing_key := block_signing_key prokey,
            pending_schedule_lib_num := pending_schedule_lib_num s,
            pending_schedule_hash := pending_schedule_hash s,
            block_num := num,
            producer_to_last_produced := map_put (producer_name prokey) num (producer_to_last_produced s),
            producer_to_last_implied_irb := irb,
            blockroot_merkle := bm,
            active_schedule := active_schedule s,
            pending_schedule := pending_schedule s,
            dpos_proposed_irreversible_blocknum := dpos_proposed_irreversible_blocknum s,
            bft_irreversible_blocknum := bft_irreversible_blocknum s\<rparr>;
          result = result\<lparr>dpos_irreversible_blocknum := calc_dpos_last_irreversible result\<rparr>;
          required_confs = u32 (length (producers (active_schedule s)) * 2 div 3) + 1
      in Inr (result\<lparr>confirm_count := grow_confirm_count required_confs (confirm_count s)\<rparr>))))"

text \<open>The loops of \<open>maybe_promote_pending\<close> that build the new maps.\<close>

definition carry_over :: "nat \<Rightarrow> (name \<times> nat) list \<Rightarrow> producer_key \<Rightarrow> (name \<times> nat) list \<Rightarrow> (name \<times> nat) list" where
  "carry_over lib old pro new =
     map_put (producer_name pro)
       (case map_of old (producer_name pro) of Some x \<Rightarrow> x | None \<Rightarrow> lib) new"

definition maybe_promote_pending :: "block_header_state \<Rightarrow> bool \<times> block_header_state" where
  "maybe_promote_pending s =
     (if producers (pending_schedule s) \<noteq> [] \<and> dpos_irreversible_blocknum s \<ge> pending_schedule_lib_num s
      then
        let active = pending_schedule s;
            lib = dpos_irreversible_blocknum s;
            produced = fold (carry_over lib (producer_to_last_produced s)) (producers active) [];
            irb = fold (carry_over lib (producer_to_last_implied_irb s)) (producers active) []
        in (True, s\<lparr>active_schedule := active,
                    pending_schedule := (pending_schedule s)\<lparr>producers := []\<rparr>,
                    producer_to_last_produced := map_put (producer (header s)) (block_num s) produced,
                    producer_to_last_implied_irb := irb\<rparr>)
      else (False, s))"

definition set_new_producers :: "chain_crypto \<Rightarrow> producer_schedule_type \<Rightarrow> block_header_state
    \<Rightarrow> block_header_state result" where
  "set_new_producers cr pending s =
     bes_assert (version pending = u32 (version (active_schedule s) + 1)) producer_schedule_exception
    (bes_assert (length (producers (pending_schedule s)) = 0) producer_schedule_exception
    (Inr (s\<lparr>header := (header s)\<lparr>new_producers := Some pending\<rparr>,
            pending_schedule_hash := schedule_hash cr pending,
            pending_schedule := pending,
            pending_schedule_lib_num := block_num s\<rparr>)))"

text \<open>
  The loop of \<open>set_confirmed\<close>: the second argument is \<open>i + 1\<close>, the third \<open>blocks_to_confirm\<close>.
\<close>

fun set_confirmed_loop :: "block_header_state \<Rightarrow> nat \<Rightarrow> nat \<Rightarrow> block_header_state" where
  "set_confirmed_loop s 0 blocks_to_confirm = s"
| "set_confirmed_loop s (Suc i) blocks_to_confirm =
     (if blocks_to_confirm = 0 then s
      else
        let cc = (confirm_count s)[i := u8 (confirm_count s ! i + 255)];
            s = s\<lparr>confirm_count := cc\<rparr>
        in if cc ! i = 0 then
             s\<lparr>dpos_proposed_irreversible_blocknum := u32_sub (block_num s) (length cc - 1 - i),
               confirm_count := (if i = length cc - 1 then [] else drop (Suc i) cc)\<rparr>
           else set_confirmed_loop s i (blocks_to_confirm - 1))"

definition set_confirmed :: "nat \<Rightarrow> block_header_state \<Rightarrow> block_header_state" where
  "set_confirmed num_prev_blocks s =
     (let s = s\<lparr>header := (header s)\<lparr>confirmed := num_prev_blocks\<rparr>\<rparr>
      in set_confirmed_loop s (length (confirm_count s)) (num_prev_blocks + 1))"

definition sig_digest :: "chain_crypto \<Rightarrow> block_header_state \<Rightarrow> sha256" where
  "sig_digest cr s =
     (let header_bmroot = hash_pair cr (header_digest cr (header s), get_root (blockroot_merkle s))
      in hash_pair cr (header_bmroot, pending_schedule_hash s))"

definition sign :: "chain_crypto \<Rightarrow> (sha256 \<Rightarrow> signature_type) \<Rightarrow> block_header_state \<Rightarrow> block_header_state result" where
  "sign cr signer s =
     (let d = sig_digest cr s;
          s = s\<lparr>header := (header s)\<lparr>producer_signature := signer d\<rparr>\<rparr>
      in bindR (recover_key cr (signer d) d True)
        (\<lambda>k. bes_assert (state_signing_key s = k) wrong_signing_key (Inr s)))"

definition signee :: "chain_crypto \<Rightarrow> block_header_state \<Rightarrow> public_key_type result" where
  "signee cr s = recover_key cr (producer_signature (header s)) (sig_digest cr s) True"

text \<open>The last part of \<open>next\<close>: new producers, the fields that only the signed header knows, the signature.\<close>

definition apply_new_producers :: "chain_crypto \<Rightarrow> signed_block_header \<Rightarrow> bool \<times> block_header_state
    \<Rightarrow> block_header_state result" where
  "apply_new_producers cr h promoted =
     (case new_producers h of
        None \<Rightarrow> Inr (snd promoted)
      | Some ps \<Rightarrow> bes_assert (\<not> fst promoted) producer_schedule_exception
                    (set_new_producers cr ps (snd promoted)))"

definition seal_header :: "chain_crypto \<Rightarrow> signed_block_header \<Rightarrow> bool \<Rightarrow> block_header_state
    \<Rightarrow> block_header_state result" where
  "seal_header cr h trust s =
     (let s = s\<lparr>header := (header s)\<lparr>action_mroot := action_mroot h, transaction_mroot := transaction_mroot h,
                  producer_signature := producer_signature h\<rparr>\<rparr>;
          result = s\<lparr>block_id := header_id cr (header s)\<rparr>
      in if \<not> trust
         then bindR (signee cr result)
               (\<lambda>k. bes_assert (state_signing_key result = k) wrong_signing_key (Inr result))
         else Inr result)"

definition next_state :: "chain_crypto \<Rightarrow> block_header_state \<Rightarrow> signed_block_header \<Rightarrow> bool
    \<Rightarrow> block_header_state result" where
  "next_state cr s h trust =
     bes_assert (timestamp h \<noteq> 0) block_validate_exception
    (bes_assert (length (header_extensions h) = 0) block_validate_exception
    (bes_assert (timestamp h > timestamp (header s)) block_validate_exception
    (bes_assert (previous h = block_id s) unlinkable_block_exception
    (bindR (generate_next cr s (timestamp h))
    (\<lambda>result.
     bes_assert (producer (header result) = producer h) wrong_producer
    (bes_assert (schedule_version (header result) = schedule_version h) producer_schedule_exception
    (bes_assert (case map_of (producer_to_last_produced s) (producer h) of
                   None \<Rightarrow> True
                 | Some num \<Rightarrow> num < u32_sub (block_num result) (confirmed h)) producer_double_confirm
    (bindR (apply_new_producers cr h (maybe_promote_pending (set_confirmed (confirmed h) result)))
      (seal_header cr h trust)))))))))"

definition add_confirmation :: "chain_crypto \<Rightarrow> header_confirmation \<Rightarrow> block_header_state
    \<Rightarrow> block_header_state result" where
  "add_confirmation cr conf s =
     bes_assert (list_all (\<lambda>c. conf_producer c \<noteq> conf_producer conf) (confirmations s)) producer_double_confirm
    (let key = get_producer_key (active_schedule s) (conf_producer conf) in
     bes_assert (key \<noteq> default_public_key) producer_not_in_schedule
    (bindR (recover_key cr (conf_signature conf) (sig_digest cr s) True)
    (\<lambda>signer. bes_assert (signer = key) wrong_signing_key
      (Inr (s\<lparr>confirmations := confirmations s @ [conf]\<rparr>)))))"

text \<open>The state the fork database starts from (\<^verbatim>\<open>controller_impl::initialize_fork_db\<close>).\<close>

definition genesis_state :: "chain_crypto \<Rightarrow> name \<Rightarrow> public_key_type \<Rightarrow> block_timestamp_type \<Rightarrow> sha256
    \<Rightarrow> block_header_state" where
  "genesis_state cr system_account initial_key initial_timestamp chain_id =
     (let initial_schedule = \<lparr>version = 0,
            producers = [\<lparr>producer_name = system_account, block_signing_key = initial_key\<rparr>]\<rparr>;
          h = default_signed_header\<lparr>timestamp := initial_timestamp, action_mroot := chain_id\<rparr>
      in default_header_state\<lparr>active_schedule := initial_schedule, pending_schedule := initial_schedule,
           pending_schedule_hash := schedule_hash cr initial_schedule, header := h,
           block_id := header_id cr h, block_num := header_block_num h\<rparr>)"


section \<open>The block number in the id\<close>

lemma mask8: "(0xFF :: 32 word) = mask 8"
  by (simp add: mask_eq_exp_minus_1)

lemma bit_endian_reverse_u32:
  assumes "n < 32"
  shows "bit (endian_reverse_u32 x) n \<longleftrightarrow>
    bit x (if n < 8 then n + 24 else if n < 16 then n + 8 else if n < 24 then n - 8 else n - 24)"
  using assms unfolding endian_reverse_u32_def mask8
  by (auto simp: bit_simps not_less add.commute; arith)

lemma endian_reverse_u32_twice [simp]: "endian_reverse_u32 (endian_reverse_u32 x) = x"
proof (rule bit_word_eqI)
  fix n assume "n < LENGTH(32)"
  then consider "n < 8" | "8 \<le> n" "n < 16" | "16 \<le> n" "n < 24" | "24 \<le> n" "n < 32" by fastforce
  then show "bit (endian_reverse_u32 (endian_reverse_u32 x)) n = bit x n"
    by cases (auto simp: bit_endian_reverse_u32)
qed

lemma low_half:
  "ucast ((a AND 0xffffffff00000000) + ucast (y :: 32 word) :: word64) = y"
proof -
  have m: "(0xffffffff00000000 :: word64) = NOT (mask 32)" by (simp add: mask_eq_exp_minus_1)
  have "(a AND NOT (mask 32)) AND ucast y = (0 :: word64)"
    by (rule bit_word_eqI) (auto simp: bit_simps dest: bit_imp_le_length)
  then have "(a AND NOT (mask 32)) + ucast y = (a AND NOT (mask 32)) OR ucast y"
    by (rule disjunctive_add_eq_or)
  then show ?thesis unfolding m by (simp only:) (rule bit_word_eqI, auto simp: bit_simps)
qed

lemma num_from_header_id: "num_from_id (header_id cr h) = header_block_num h"
proof -
  have "header_block_num h < 2 ^ 32" by (simp add: header_block_num_def u32_def)
  then show ?thesis
    by (simp add: num_from_id_def header_id_def low_half unat_of_nat split: sha256.splits)
qed

section \<open>The last irreversible block\<close>

lemma length_filter_sort: "length (filter P (sort xs)) = length (filter P xs)"
  by (simp add: filter_sort)

text \<open>The element one third into the sorted list: the largest value reached by more than two thirds.\<close>

lemma third_quantile:
  fixes vs :: "nat list"
  assumes "vs \<noteq> []"
  shows "x \<le> sort vs ! ((length vs - 1) div 3) \<longleftrightarrow> 2 * length vs < 3 * length (filter (\<lambda>v. x \<le> v) vs)"
proof -
  let ?n = "length vs" and ?k = "(length vs - 1) div 3" and ?ws = "sort vs"
  have k: "?k < ?n" "3 * ?k < ?n" "?n \<le> 3 * ?k + 3" using assms by (cases vs; auto)+
  have split: "length (filter P vs) = length (filter P (take m ?ws)) + length (filter P (drop m ?ws))" for P m
    by (metis append_take_drop_id filter_append length_append length_filter_sort)
  show ?thesis
  proof
    assume x: "x \<le> ?ws ! ?k"
    have "x \<le> v" if "v \<in> set (drop ?k ?ws)" for v
    proof -
      from that obtain j where "v = ?ws ! (?k + j)" "?k + j < ?n" by (auto simp: in_set_conv_nth)
      then have "?ws ! ?k \<le> v" by (simp add: sorted_nth_mono)
      with x show ?thesis by simp
    qed
    then have "filter (\<lambda>v. x \<le> v) (drop ?k ?ws) = drop ?k ?ws" by simp
    then have "?n - ?k \<le> length (filter (\<lambda>v. x \<le> v) vs)"
      using split [of "\<lambda>v. x \<le> v" ?k] by (simp add: diff_le_mono)
    with k show "2 * ?n < 3 * length (filter (\<lambda>v. x \<le> v) vs)" by linarith
  next
    assume c: "2 * ?n < 3 * length (filter (\<lambda>v. x \<le> v) vs)"
    show "x \<le> ?ws ! ?k"
    proof (rule ccontr)
      assume x: "\<not> x \<le> ?ws ! ?k"
      have "\<not> x \<le> v" if "v \<in> set (take (Suc ?k) ?ws)" for v
      proof -
        from that obtain j where "v = ?ws ! j" "j \<le> ?k" by (auto simp: in_set_conv_nth less_Suc_eq_le)
        then have "v \<le> ?ws ! ?k" using k(1) by (simp add: sorted_nth_mono)
        with x show ?thesis by simp
      qed
      then have "filter (\<lambda>v. x \<le> v) (take (Suc ?k) ?ws) = []" by (simp add: filter_empty_conv)
      then have "length (filter (\<lambda>v. x \<le> v) vs) \<le> ?n - Suc ?k"
        using split [of "\<lambda>v. x \<le> v" "Suc ?k"] length_filter_le [of "\<lambda>v. x \<le> v" "drop (Suc ?k) ?ws"] by simp
      with c k show False by linarith
    qed
  qed
qed

lemma calc_lib_iff:
  assumes "producer_to_last_implied_irb s \<noteq> []"
  shows "x \<le> calc_dpos_last_irreversible s \<longleftrightarrow>
     2 * length (producer_to_last_implied_irb s)
       < 3 * length (filter (\<lambda>(p, irb). x \<le> irb) (producer_to_last_implied_irb s))"
  using third_quantile [of "map snd (producer_to_last_implied_irb s)" x] assms
  by (simp add: calc_dpos_last_irreversible_def Let_def filter_map o_def case_prod_unfold)

lemma calc_lib_mem:
  assumes "producer_to_last_implied_irb s \<noteq> []"
  shows "\<exists>p. (p, calc_dpos_last_irreversible s) \<in> set (producer_to_last_implied_irb s)"
proof -
  let ?vs = "map snd (producer_to_last_implied_irb s)"
  have "(length ?vs - 1) div 3 < length (sort ?vs)" using assms by (cases ?vs) auto
  from nth_mem [OF this] show ?thesis using assms
    by (force simp: calc_dpos_last_irreversible_def Let_def)
qed

text \<open>Raising one producer's entry, or adding one, to a value no other exceeds.\<close>

lemma filter_map_put:
  fixes v :: nat
  assumes "\<forall>(k, w) \<in> set m. w \<le> v" and "x \<le> v"
  shows "length (map_put k v m) + length (filter (\<lambda>(p, w). x \<le> w) m)
     \<le> length m + length (filter (\<lambda>(p, w). x \<le> w) (map_put k v m))
   \<and> length m \<le> length (map_put k v m) \<and> length (map_put k v m) \<le> Suc (length m)"
  using assms by (induction k v m rule: map_put.induct) auto

lemma calc_lib_put:
  assumes "\<forall>(k, w) \<in> set (producer_to_last_implied_irb s). w \<le> v"
    and "producer_to_last_implied_irb t = map_put p v (producer_to_last_implied_irb s)"
  shows "calc_dpos_last_irreversible s \<le> calc_dpos_last_irreversible t"
proof (cases "producer_to_last_implied_irb s = []")
  case True
  then show ?thesis by (simp add: calc_dpos_last_irreversible_def)
next
  case False
  let ?m = "producer_to_last_implied_irb s" and ?x = "calc_dpos_last_irreversible s"
  have t: "producer_to_last_implied_irb t \<noteq> []"
    by (simp add: assms(2))
  have "?x \<le> v" using calc_lib_mem [OF False] assms(1) by auto
  from filter_map_put [OF assms(1) this, of p] calc_lib_iff [OF False, of ?x]
  show ?thesis unfolding calc_lib_iff [OF t] unfolding assms(2) by simp
qed


section \<open>The invariant of the header state\<close>

text \<open>The tracked blocks are the last ones, all after the proposed irreversible one, none fully confirmed.\<close>

definition confirms_ok :: "block_header_state \<Rightarrow> bool" where
  "confirms_ok s \<longleftrightarrow>
     dpos_proposed_irreversible_blocknum s + length (confirm_count s) \<le> block_num s
   \<and> (\<forall>c \<in> set (confirm_count s). 0 < c \<and> c < 256)"

definition schedules_ok :: "block_header_state \<Rightarrow> bool" where
  "schedules_ok s \<longleftrightarrow> producers (active_schedule s) \<noteq> []
     \<and> length (producers (active_schedule s)) \<le> max_producers
     \<and> length (producers (pending_schedule s)) \<le> max_producers"

definition irb_ok :: "block_header_state \<Rightarrow> bool" where
  "irb_ok s \<longleftrightarrow> (\<forall>(p, v) \<in> set (producer_to_last_implied_irb s). v \<le> dpos_proposed_irreversible_blocknum s)
     \<and> dpos_irreversible_blocknum s \<le> dpos_proposed_irreversible_blocknum s"

definition time_ok :: "block_header_state \<Rightarrow> bool" where
  "time_ok s \<longleftrightarrow> block_num s \<le> timestamp (header s) \<and> timestamp (header s) < 2 ^ 32"

definition dpos_ok :: "block_header_state \<Rightarrow> bool" where
  "dpos_ok s \<longleftrightarrow> confirms_ok s \<and> schedules_ok s \<and> irb_ok s \<and> time_ok s"

definition header_state_ok :: "block_header_state \<Rightarrow> bool" where
  "header_state_ok s \<longleftrightarrow> dpos_ok s \<and> num_from_id (block_id s) = block_num s"

lemmas dpos_ok_defs = dpos_ok_def confirms_ok_def schedules_ok_def irb_ok_def time_ok_def

lemma set_confirmed_loop_ok:
  assumes "confirms_ok s" "block_num s < 2 ^ 32" "k \<le> length (confirm_count s)"
  shows "confirms_ok (set_confirmed_loop s k b)
    \<and> dpos_proposed_irreversible_blocknum s \<le> dpos_proposed_irreversible_blocknum (set_confirmed_loop s k b)
    \<and> (\<exists>cc p. set_confirmed_loop s k b = s\<lparr>dpos_proposed_irreversible_blocknum := p, confirm_count := cc\<rparr>)"
  using assms
proof (induction s k b rule: set_confirmed_loop.induct)
  case (1 s b)
  then show ?case by (auto intro!: exI [of _ "confirm_count s"] exI [of _ "dpos_proposed_irreversible_blocknum s"])
next
  case (2 s i b)
  let ?cc = "confirm_count s" and ?c = "confirm_count s ! i"
  let ?cc' = "?cc[i := ?c - 1]"
  have i: "i < length ?cc" using "2.prems"(3) by simp
  have c: "0 < ?c" "?c < 256" using "2.prems"(1) i by (auto simp: confirms_ok_def)
  have u: "u8 (?c + 255) = ?c - 1" using c by (simp add: u8_def mod_if)
  show ?case
  proof (cases "b = 0")
    case True
    with "2.prems" show ?thesis
      by (auto intro!: exI [of _ ?cc] exI [of _ "dpos_proposed_irreversible_blocknum s"])
  next
    case b: False
    show ?thesis
    proof (cases "?c = 1")
      case True
      have n: "length ?cc - 1 - i \<le> block_num s" using "2.prems"(1) i unfolding confirms_ok_def by linarith
      have w: "u32_sub (block_num s) (length ?cc - 1 - i) = block_num s - (length ?cc - 1 - i)"
        using n "2.prems"(2) by (intro u32_sub_id)
      have "set (drop (Suc i) ?cc') \<subseteq> set ?cc"
        by (simp add: drop_update_cancel set_drop_subset)
      with True b i u w "2.prems" show ?thesis
        by (auto simp: confirms_ok_def Let_def drop_update_cancel)
    next
      case False
      let ?s = "s\<lparr>confirm_count := ?cc'\<rparr>"
      have "confirms_ok ?s"
        unfolding confirms_ok_def
      proof (intro conjI ballI)
        fix x assume "x \<in> set (confirm_count ?s)"
        then have "x = ?c - 1 \<or> x \<in> set ?cc" using set_update_subset_insert [of ?cc i "?c - 1"] by auto
        with c False "2.prems"(1) show "0 < x" "x < 256" by (auto simp: confirms_ok_def)
      qed (use "2.prems"(1) in \<open>simp add: confirms_ok_def\<close>)
      moreover have "?cc' ! i \<noteq> 0" using c False i by simp
      moreover have "block_num ?s < 2 ^ 32" "i \<le> length (confirm_count ?s)" using "2.prems" by simp_all
      ultimately have ih: "confirms_ok (set_confirmed_loop ?s i (b - 1))
        \<and> dpos_proposed_irreversible_blocknum ?s \<le> dpos_proposed_irreversible_blocknum (set_confirmed_loop ?s i (b - 1))
        \<and> (\<exists>cc p. set_confirmed_loop ?s i (b - 1) = ?s\<lparr>dpos_proposed_irreversible_blocknum := p, confirm_count := cc\<rparr>)"
        using "2.IH" [OF b refl refl, unfolded u] by blast
      have "set_confirmed_loop s (Suc i) b = set_confirmed_loop ?s i (b - 1)"
        using b False c i u by (simp add: Let_def)
      with ih show ?thesis by auto
    qed
  qed
qed

lemma set_confirmed_ok:
  assumes "dpos_ok s"
  shows "dpos_ok (set_confirmed n s)"
    "dpos_proposed_irreversible_blocknum s \<le> dpos_proposed_irreversible_blocknum (set_confirmed n s)"
    "\<exists>cc p. set_confirmed n s = s\<lparr>header := (header s)\<lparr>confirmed := n\<rparr>,
       dpos_proposed_irreversible_blocknum := p, confirm_count := cc\<rparr>"
proof -
  let ?s = "s\<lparr>header := (header s)\<lparr>confirmed := n\<rparr>\<rparr>"
  have "confirms_ok ?s" "block_num ?s < 2 ^ 32" using assms by (simp_all add: dpos_ok_defs)
  from set_confirmed_loop_ok [OF this order_refl, of "n + 1"]
  obtain cc p where l: "confirms_ok (set_confirmed n s)"
    "dpos_proposed_irreversible_blocknum s \<le> dpos_proposed_irreversible_blocknum (set_confirmed n s)"
    "set_confirmed n s = ?s\<lparr>dpos_proposed_irreversible_blocknum := p, confirm_count := cc\<rparr>"
    by (auto simp: set_confirmed_def Let_def)
  then show "\<exists>cc p. set_confirmed n s = s\<lparr>header := (header s)\<lparr>confirmed := n\<rparr>,
       dpos_proposed_irreversible_blocknum := p, confirm_count := cc\<rparr>" by auto
  show "dpos_proposed_irreversible_blocknum s \<le> dpos_proposed_irreversible_blocknum (set_confirmed n s)"
    by (fact l)
  show "dpos_ok (set_confirmed n s)"
    using l assms unfolding l(3) by (auto simp: dpos_ok_defs)
qed

lemma set_map_put: "set (map_put k v m) \<subseteq> insert (k, v) (set m)"
  by (induction k v m rule: map_put.induct) auto

lemma carry_over_bound:
  assumes old: "\<And>p v. (p, v) \<in> set old \<Longrightarrow> v \<le> b" and "lib \<le> b"
  shows "(\<And>p v. (p, v) \<in> set new \<Longrightarrow> v \<le> b) \<Longrightarrow> (p, v) \<in> set (fold (carry_over lib old) ps new) \<Longrightarrow> v \<le> (b::nat)"
proof (induction ps arbitrary: new)
  case (Cons x ps)
  let ?v = "case map_of old (producer_name x) of Some x \<Rightarrow> x | None \<Rightarrow> lib"
  have v: "?v \<le> b"
  proof (cases "map_of old (producer_name x)")
    case (Some y)
    then show ?thesis using old [OF map_of_SomeD] by simp
  qed (use assms(2) in simp)
  have "v \<le> b" if "(p, v) \<in> set (carry_over lib old x new)" for p v
    using that set_map_put [of "producer_name x" ?v new] v Cons.prems(1) unfolding carry_over_def by blast
  then show ?case using Cons.prems(2) by (intro Cons.IH [of "carry_over lib old x new"]) simp_all
qed simp

lemma maybe_promote_ok:
  assumes "dpos_ok s"
  shows "dpos_ok (snd (maybe_promote_pending s))"
proof -
  let ?irb = "fold (carry_over (dpos_irreversible_blocknum s) (producer_to_last_implied_irb s))
      (producers (pending_schedule s)) []"
  have "\<forall>(p, v) \<in> set ?irb. v \<le> dpos_proposed_irreversible_blocknum s"
    using assms carry_over_bound [of "producer_to_last_implied_irb s" "dpos_proposed_irreversible_blocknum s"
        "dpos_irreversible_blocknum s" "[]"]
    unfolding dpos_ok_def irb_ok_def by fastforce
  with assms show ?thesis
    by (simp add: maybe_promote_pending_def dpos_ok_defs Let_def)
qed

lemma set_new_producers_ok:
  assumes "dpos_ok s" "set_new_producers cr ps s = Inr t" "length (producers ps) \<le> max_producers"
  shows "dpos_ok t"
  using assms by (auto simp: set_new_producers_def dpos_ok_defs result_simps)

lemma generate_nextE:
  assumes "generate_next cr s w = Inr g" "w \<noteq> 0"
  obtains pk bm where "get_scheduled_producer s w = Inr pk" "timestamp (header s) < w"
    and "merkle_append (hash_pair cr) (blockroot_merkle s) (block_id s) = Inr bm"
    and "header g = default_signed_header\<lparr>timestamp := w, previous := block_id s,
              schedule_version := version (active_schedule s), producer := producer_name pk\<rparr>"
    and "block_num g = u32 (block_num s + 1)" "blockroot_merkle g = bm"
    and "active_schedule g = active_schedule s" "pending_schedule g = pending_schedule s"
    and "dpos_proposed_irreversible_blocknum g = dpos_proposed_irreversible_blocknum s"
    and "producer_to_last_implied_irb g = map_put (producer_name pk)
          (dpos_proposed_irreversible_blocknum s) (producer_to_last_implied_irb s)"
    and "dpos_irreversible_blocknum g = calc_dpos_last_irreversible g"
    and "confirm_count g = grow_confirm_count
          (u32 (length (producers (active_schedule s)) * 2 div 3) + 1) (confirm_count s)"
    and "state_signing_key g = block_signing_key pk"
    and "producer_to_last_produced g = map_put (producer_name pk) (u32 (block_num s + 1)) (producer_to_last_produced s)"
  using assms by (auto simp: generate_next_def result_simps Let_def calc_dpos_last_irreversible_def intro!: that)

lemma grow_confirm_count_ok:
  assumes "confirms_ok s" "schedules_ok s"
  defines "cc \<equiv> grow_confirm_count (u32 (length (producers (active_schedule s)) * 2 div 3) + 1) (confirm_count s)"
  shows "dpos_proposed_irreversible_blocknum s + length cc \<le> Suc (block_num s)"
    "\<forall>c \<in> set cc. 0 < c \<and> c < 256"
proof -
  let ?n = "length (producers (active_schedule s))"
  have "?n * 2 \<le> 250" using assms(2) by (simp add: schedules_ok_def max_producers_def)
  from div_le_mono [OF this, of 3] have "?n * 2 div 3 \<le> 83" by simp
  then have "u8 (u32 (?n * 2 div 3) + 1) = ?n * 2 div 3 + 1" by (simp add: u32_def u8_def)
  moreover have "set (tl (confirm_count s)) \<subseteq> set (confirm_count s)" by (cases "confirm_count s") auto
  ultimately show "dpos_proposed_irreversible_blocknum s + length cc \<le> Suc (block_num s)"
    "\<forall>c \<in> set cc. 0 < c \<and> c < 256"
    using \<open>?n * 2 div 3 \<le> 83\<close> assms(1) unfolding cc_def grow_confirm_count_def
    by (auto simp: confirms_ok_def maximum_tracked_dpos_confirmations_def)
qed

lemma generate_next_ok:
  assumes ok: "header_state_ok s" and g: "generate_next cr s w = Inr g" and w: "w \<noteq> 0" "w < 2 ^ 32"
  shows "dpos_ok g" "block_num g = block_num s + 1"
proof -
  from g w(1) show bn: "block_num g = block_num s + 1"
  proof (cases rule: generate_nextE)
    case (1 pk bm)
    then show ?thesis
      using ok w(2) by (subst 1(5), intro u32_id) (auto simp: header_state_ok_def dpos_ok_defs)
  qed
  from g w(1) show "dpos_ok g"
  proof (cases rule: generate_nextE)
    case (1 pk bm)
    have d: "confirms_ok s" "schedules_ok s" "irb_ok s" "time_ok s"
      using ok by (simp_all add: header_state_ok_def dpos_ok_def)
    have "confirms_ok g" using grow_confirm_count_ok [OF d(1,2)] 1 bn by (simp add: confirms_ok_def)
    moreover have "schedules_ok g" using d(2) 1 by (simp add: schedules_ok_def)
    moreover have "time_ok g" using d(4) 1 bn w(2) by (simp add: time_ok_def)
    moreover have b: "\<forall>(p, v) \<in> set (producer_to_last_implied_irb g). v \<le> dpos_proposed_irreversible_blocknum g"
      using d(3) 1 set_map_put [of "producer_name pk" "dpos_proposed_irreversible_blocknum s" "producer_to_last_implied_irb s"]
      by (auto simp: irb_ok_def)
    moreover have "calc_dpos_last_irreversible g \<le> dpos_proposed_irreversible_blocknum g"
      using b calc_lib_mem [of g] 1(10) by auto
    ultimately show ?thesis by (simp add: dpos_ok_def irb_ok_def 1(11))
  qed
qed


section \<open>Steps\<close>

text \<open>What a successful \<open>next\<close> has done, stage by stage.\<close>

lemma next_stateE:
  assumes "next_state cr s h trust = Inr r"
  obtains g t where "generate_next cr s (timestamp h) = Inr g"
    and "timestamp h \<noteq> 0" "timestamp (header s) < timestamp h" "header_extensions h = []"
    and "previous h = block_id s"
    and "producer (header g) = producer h" "schedule_version (header g) = schedule_version h"
    and "case map_of (producer_to_last_produced s) (producer h) of None \<Rightarrow> True
         | Some num \<Rightarrow> num < u32_sub (block_num g) (confirmed h)"
    and "apply_new_producers cr h (maybe_promote_pending (set_confirmed (confirmed h) g)) = Inr t"
    and "seal_header cr h trust t = Inr r"
  using assms unfolding next_state_def result_simps by (elim exE conjE) (rule that; simp)

lemma seal_headerE:
  assumes "seal_header cr h trust s = Inr r"
  shows "r = s\<lparr>block_id := header_id cr (header r), header := (header s)\<lparr>action_mroot := action_mroot h,
      transaction_mroot := transaction_mroot h, producer_signature := producer_signature h\<rparr>\<rparr>"
    "trust \<or> signee cr r = Inr (state_signing_key r)"
  using assms by (auto simp: seal_header_def result_simps Let_def split: if_splits)

lemma seal_header_simps:
  assumes "seal_header cr h trust s = Inr r"
  shows "dpos_ok r \<longleftrightarrow> dpos_ok s" "block_num r = block_num s" "previous (header r) = previous (header s)"
    "dpos_proposed_irreversible_blocknum r = dpos_proposed_irreversible_blocknum s"
    "dpos_irreversible_blocknum r = dpos_irreversible_blocknum s"
    "producer_to_last_implied_irb r = producer_to_last_implied_irb s"
    "block_id r = header_id cr (header r)" "timestamp (header r) = timestamp (header s)"
    "blockroot_merkle r = blockroot_merkle s" "active_schedule r = active_schedule s"
    "producer (header r) = producer (header s)" "schedule_version (header r) = schedule_version (header s)"
  by (subst seal_headerE(1) [OF assms], simp add: dpos_ok_defs)+

lemma apply_new_producers_ok:
  assumes "apply_new_producers cr h p = Inr t"
  shows "dpos_ok (snd p) \<Longrightarrow> (\<And>ps. new_producers h = Some ps \<Longrightarrow> length (producers ps) \<le> max_producers) \<Longrightarrow> dpos_ok t"
    and "block_num t = block_num (snd p)" "previous (header t) = previous (header (snd p))"
    "dpos_proposed_irreversible_blocknum t = dpos_proposed_irreversible_blocknum (snd p)"
    "dpos_irreversible_blocknum t = dpos_irreversible_blocknum (snd p)"
    "producer_to_last_implied_irb t = producer_to_last_implied_irb (snd p)"
    "timestamp (header t) = timestamp (header (snd p))" "blockroot_merkle t = blockroot_merkle (snd p)"
    "active_schedule t = active_schedule (snd p)" "producer (header t) = producer (header (snd p))"
    "schedule_version (header t) = schedule_version (header (snd p))"
  using assms set_new_producers_ok [of "snd p" cr _ t]
  by (auto simp: apply_new_producers_def set_new_producers_def result_simps split: option.splits)

lemma maybe_promote_simps [simp]:
  "block_num (snd (maybe_promote_pending s)) = block_num s"
  "header (snd (maybe_promote_pending s)) = header s"
  "dpos_proposed_irreversible_blocknum (snd (maybe_promote_pending s)) = dpos_proposed_irreversible_blocknum s"
  "dpos_irreversible_blocknum (snd (maybe_promote_pending s)) = dpos_irreversible_blocknum s"
  "blockroot_merkle (snd (maybe_promote_pending s)) = blockroot_merkle s"
  by (simp_all add: maybe_promote_pending_def Let_def)

lemma set_confirmed_simps:
  assumes "dpos_ok s"
  shows "block_num (set_confirmed n s) = block_num s"
    "header (set_confirmed n s) = (header s)\<lparr>confirmed := n\<rparr>"
    "dpos_irreversible_blocknum (set_confirmed n s) = dpos_irreversible_blocknum s"
    "producer_to_last_implied_irb (set_confirmed n s) = producer_to_last_implied_irb s"
    "blockroot_merkle (set_confirmed n s) = blockroot_merkle s"
    "active_schedule (set_confirmed n s) = active_schedule s"
    "pending_schedule (set_confirmed n s) = pending_schedule s"
    "pending_schedule_lib_num (set_confirmed n s) = pending_schedule_lib_num s"
  using set_confirmed_ok(3) [OF assms, of n] by auto

text \<open>The stages of \<open>next\<close> from a consistent state.\<close>

lemma next_state_ok:
  assumes ok: "header_state_ok s" and n: "next_state cr s h trust = Inr r"
    and h: "timestamp h < 2 ^ 32" "\<And>ps. new_producers h = Some ps \<Longrightarrow> length (producers ps) \<le> max_producers"
  shows "header_state_ok r" "block_num r = block_num s + 1"
    "dpos_proposed_irreversible_blocknum s \<le> dpos_proposed_irreversible_blocknum r"
    "previous (header r) = block_id s" "timestamp (header s) < timestamp (header r)"
proof -
  obtain g t where g: "generate_next cr s (timestamp h) = Inr g" "timestamp h \<noteq> 0"
      "timestamp (header s) < timestamp h"
    and t: "apply_new_producers cr h (maybe_promote_pending (set_confirmed (confirmed h) g)) = Inr t"
    and r: "seal_header cr h trust t = Inr r"
    using next_stateE [OF n] by metis
  note gok = generate_next_ok [OF ok g(1,2) h(1)]
  from g(1,2) have gs: "previous (header g) = block_id s" "timestamp (header g) = timestamp h"
    "dpos_proposed_irreversible_blocknum g = dpos_proposed_irreversible_blocknum s"
    by (auto elim!: generate_nextE)
  note c = set_confirmed_simps [OF gok(1), of "confirmed h"]
  note rs = seal_header_simps [OF r]
  have d: "dpos_ok r"
    unfolding rs(1) using apply_new_producers_ok(1) [OF t] h(2) gok(1)
    by (simp add: maybe_promote_ok set_confirmed_ok)
  show bn: "block_num r = block_num s + 1"
    unfolding rs(2) apply_new_producers_ok(2) [OF t] using gok(2) c(1) by simp
  show pv: "previous (header r) = block_id s"
    unfolding rs(3) apply_new_producers_ok(3) [OF t] using gs(1) c(2) by simp
  show "dpos_proposed_irreversible_blocknum s \<le> dpos_proposed_irreversible_blocknum r"
    unfolding rs(4) apply_new_producers_ok(4) [OF t] using set_confirmed_ok(2) [OF gok(1), of "confirmed h"] gs(3) by simp
  show "timestamp (header s) < timestamp (header r)"
    unfolding rs(8) apply_new_producers_ok(7) [OF t] using c(2) gs(2) g(3) by simp
  have "block_num r < 2 ^ 32" using d by (simp add: dpos_ok_defs)
  then have "num_from_id (block_id r) = block_num r"
    using ok by (simp add: rs(7) num_from_header_id header_block_num_def pv header_state_ok_def bn u32_def)
  with d show "header_state_ok r" by (simp add: header_state_ok_def)
qed


section \<open>The header state machine\<close>

datatype header_op = Next signed_block_header bool | Confirm header_confirmation

fun header_step :: "chain_crypto \<Rightarrow> block_header_state \<Rightarrow> header_op \<Rightarrow> block_header_state result" where
  "header_step cr s (Next h trust) = next_state cr s h trust"
| "header_step cr s (Confirm c) = add_confirmation cr c s"

text \<open>A slot is a \<^verbatim>\<open>uint32_t\<close>, and a new schedule has at most \<open>max_producers\<close> producers.\<close>

fun header_admissible :: "header_op \<Rightarrow> bool" where
  "header_admissible (Next h trust) \<longleftrightarrow> timestamp h < 2 ^ 32
     \<and> (case new_producers h of None \<Rightarrow> True | Some ps \<Rightarrow> length (producers ps) \<le> max_producers)"
| "header_admissible (Confirm c) \<longleftrightarrow> True"

lemma add_confirmation_ok:
  assumes "add_confirmation cr c s = Inr t"
  shows "t = s\<lparr>confirmations := confirmations s @ [c]\<rparr>"
  using assms by (auto simp: add_confirmation_def result_simps Let_def)

lemma next_step_ok:
  assumes "header_state_ok s" "next_state cr s h trust = Inr r" "header_admissible (Next h trust)"
  shows "header_state_ok r" "block_num r = block_num s + 1"
    "dpos_proposed_irreversible_blocknum s \<le> dpos_proposed_irreversible_blocknum r"
    "previous (header r) = block_id s" "timestamp (header s) < timestamp (header r)"
proof -
  have "length (producers ps) \<le> max_producers" if "new_producers h = Some ps" for ps
    using assms(3) that by simp
  from next_state_ok [OF assms(1,2) _ this] assms(3)
  show "header_state_ok r" "block_num r = block_num s + 1"
    "dpos_proposed_irreversible_blocknum s \<le> dpos_proposed_irreversible_blocknum r"
    "previous (header r) = block_id s" "timestamp (header s) < timestamp (header r)" by simp_all
qed

interpretation headers: guarded_machine "header_step cr" header_admissible header_state_ok for cr
proof
  fix s x t
  assume a: "header_state_ok s" "header_admissible x" "header_step cr s x = Inr t"
  show "header_state_ok t"
  proof (cases x)
    case (Next h trust)
    with a next_step_ok(1) [OF a(1), of cr h trust t] show ?thesis by simp
  next
    case (Confirm c)
    with a add_confirmation_ok [of cr c s t] show ?thesis
      by (simp add: header_state_ok_def dpos_ok_defs)
  qed
qed

text \<open>
  Chains of headers: \<open>header_chain cr s ids r\<close> says that \<open>r\<close> is reached from \<open>s\<close> by accepting headers and
  confirmations, and \<open>ids\<close> are the ids of the blocks from \<open>s\<close> up to the one before \<open>r\<close>.
\<close>

inductive header_chain :: "chain_crypto \<Rightarrow> block_header_state \<Rightarrow> sha256 list \<Rightarrow> block_header_state \<Rightarrow> bool"
  for cr s where
  start: "header_chain cr s [] s"
| block: "header_chain cr s ids r \<Longrightarrow> header_admissible (Next h trust) \<Longrightarrow> next_state cr r h trust = Inr t
    \<Longrightarrow> header_chain cr s (ids @ [block_id r]) t"
| confirm: "header_chain cr s ids r \<Longrightarrow> add_confirmation cr c r = Inr t \<Longrightarrow> header_chain cr s ids t"

inductive_cases header_chain_NilE: "header_chain cr s [] r"

lemma header_chain_ok:
  assumes "header_chain cr s ids r" "header_state_ok s"
  shows "header_state_ok r" "block_num r = block_num s + length ids"
    "dpos_proposed_irreversible_blocknum s \<le> dpos_proposed_irreversible_blocknum r"
proof -
  have "header_state_ok r \<and> block_num r = block_num s + length ids
    \<and> dpos_proposed_irreversible_blocknum s \<le> dpos_proposed_irreversible_blocknum r"
    using assms
  proof (induction rule: header_chain.induct)
    case (block ids r h trust t)
    with next_step_ok [of r cr h trust t] show ?case by simp
  next
    case (confirm ids r c t)
    have "header_state_ok t" using confirm headers.step_inv [of r "Confirm c" cr t] by simp
    with confirm add_confirmation_ok [of cr c r t] show ?case by simp
  qed simp
  then show "header_state_ok r" "block_num r = block_num s + length ids"
    "dpos_proposed_irreversible_blocknum s \<le> dpos_proposed_irreversible_blocknum r" by simp_all
qed

lemma next_merkle:
  assumes "header_state_ok s" "next_state cr s h trust = Inr r" "header_admissible (Next h trust)"
  shows "merkle_append (hash_pair cr) (blockroot_merkle s) (block_id s) = Inr (blockroot_merkle r)"
proof -
  obtain g t where g: "generate_next cr s (timestamp h) = Inr g" "timestamp h \<noteq> 0"
    and t: "apply_new_producers cr h (maybe_promote_pending (set_confirmed (confirmed h) g)) = Inr t"
    and r: "seal_header cr h trust t = Inr r"
    using next_stateE [OF assms(2)] by metis
  have "dpos_ok g" using generate_next_ok(1) [OF assms(1) g] assms(3) by simp
  then have "blockroot_merkle r = blockroot_merkle g"
    by (simp add: seal_header_simps(9) [OF r] apply_new_producers_ok(8) [OF t] set_confirmed_simps)
  with g show ?thesis by (auto elim!: generate_nextE)
qed

lemma header_chain_tree:
  assumes "header_chain cr s ids r" "header_state_ok s" "tree_of (hash_pair cr) (blockroot_merkle s) xs"
    and "length xs \<le> block_num s"
  shows "tree_of (hash_pair cr) (blockroot_merkle r) (xs @ ids)"
  using assms
proof (induction rule: header_chain.induct)
  case (block ids r h trust t)
  have ok: "header_state_ok r" "block_num r = block_num s + length ids"
    using header_chain_ok [OF block(1)] block.prems(1) by simp_all
  have "length (xs @ ids) < 2 ^ 63"
    using ok block.prems(3) by (simp add: header_state_ok_def dpos_ok_defs)
  with block.IH block.prems tree.stands_for_add [of "hash_pair cr" "blockroot_merkle r" "xs @ ids" "block_id r"]
    next_merkle [OF ok(1) block(3,2)]
  show ?case by simp
next
  case (confirm ids r c t)
  with add_confirmation_ok [of cr c r t] show ?case by simp
qed simp

lemma genesis_ok:
  assumes "1 \<le> t" "t < 2 ^ 32"
  shows "header_state_ok (genesis_state cr n k t c)" "block_num (genesis_state cr n k t c) = 1"
    "blockroot_merkle (genesis_state cr n k t c) = empty_incremental_merkle"
proof -
  have "num_from_id default_digest = 0"
    by (simp add: num_from_id_def default_digest_def endian_reverse_u32_def)
  then show 1: "block_num (genesis_state cr n k t c) = 1"
    by (simp add: genesis_state_def Let_def header_block_num_def default_signed_header_def u32_def)
  show "blockroot_merkle (genesis_state cr n k t c) = empty_incremental_merkle"
    by (simp add: genesis_state_def Let_def default_header_state_def)
  have "num_from_id (block_id (genesis_state cr n k t c)) = 1"
    using 1 by (simp add: genesis_state_def Let_def num_from_header_id)
  then show "header_state_ok (genesis_state cr n k t c)"
    using 1 assms by (simp add: header_state_ok_def dpos_ok_defs)
      (simp add: genesis_state_def Let_def default_header_state_def default_signed_header_def max_producers_def)
qed

section \<open>Properties of the header state machine\<close>

text \<open>
  C16. A block id carries its block number: reading the number back from the id of any header gives the
  number of the header, whatever the hash is.
\<close>

theorem block_num_from_id: "num_from_id (header_id cr h) = header_block_num h"
  by (rule num_from_header_id)

text \<open>
  C14. Every header state reached from the genesis state by accepting headers and confirmations is
  consistent: its number is the number of its ancestors plus one and is the number in its id, the root
  of its block Merkle tree is the Merkle root of the ids of all its ancestors in order, and
  the irreversible block is at most the proposed irreversible block, which is an earlier or the same block.
\<close>

theorem reachable_header_states:
  assumes "header_chain cr (genesis_state cr n k t c) ids r" and "1 \<le> t" "t < 2 ^ 32"
  shows "block_num r = length ids + 1 \<and> num_from_id (block_id r) = block_num r
    \<and> get_root (blockroot_merkle r) = merkle (hash_pair cr) ids
    \<and> dpos_irreversible_blocknum r \<le> dpos_proposed_irreversible_blocknum r
    \<and> dpos_proposed_irreversible_blocknum r \<le> block_num r"
proof -
  note g = genesis_ok [OF assms(2,3), of cr n k c]
  have "tree_of (hash_pair cr) (blockroot_merkle r) ids"
    using header_chain_tree [OF assms(1) g(1), of "[]"] g(2,3) tree.stands_for_start by simp
  with header_chain_ok [OF assms(1) g(1)] g(2) show ?thesis
    by (auto simp: tree_of_def header_state_ok_def dpos_ok_defs)
qed

text \<open>
  C13. What the last irreversible block means: a block number is at most \<open>calc_dpos_last_irreversible\<close> if and
  only if more than two thirds of the producers have implied that it is irreversible.
\<close>

theorem irreversible_iff_two_thirds:
  assumes "producer_to_last_implied_irb s \<noteq> []"
  shows "x \<le> calc_dpos_last_irreversible s \<longleftrightarrow>
     2 * length (producer_to_last_implied_irb s)
       < 3 * length (filter (\<lambda>(p, irb). x \<le> irb) (producer_to_last_implied_irb s))"
  using assms by (rule calc_lib_iff)

theorem irreversible_iff_two_thirds_witness:
  "(7 \<le> calc_dpos_last_irreversible (default_header_state\<lparr>producer_to_last_implied_irb :=
       [(1, 5), (2, 7), (3, 9), (4, 9)]\<rparr>)) \<longleftrightarrow> 2 * (4::nat) < 3 * 3"
  using irreversible_iff_two_thirds [of "default_header_state\<lparr>producer_to_last_implied_irb :=
       [(1, 5), (2, 7), (3, 9), (4, 9)]\<rparr>" 7] by simp

text \<open>
  C15. Finality does not go back.  Accepting a header never lowers the proposed irreversible block, and it
  never lowers the irreversible block if that is still backed by the producers' entries; it stays
  backed by them as long as no producer schedule is pending.
\<close>

theorem irreversible_monotone:
  assumes ok: "header_state_ok s" and lib: "dpos_irreversible_blocknum s \<le> calc_dpos_last_irreversible s"
    and n: "next_state cr s h trust = Inr r" and adm: "header_admissible (Next h trust)"
  shows "dpos_proposed_irreversible_blocknum s \<le> dpos_proposed_irreversible_blocknum r
    \<and> dpos_irreversible_blocknum s \<le> dpos_irreversible_blocknum r
    \<and> (producers (pending_schedule s) = [] \<longrightarrow> dpos_irreversible_blocknum r \<le> calc_dpos_last_irreversible r)"
proof -
  obtain g t where g: "generate_next cr s (timestamp h) = Inr g" "timestamp h \<noteq> 0"
    and t: "apply_new_producers cr h (maybe_promote_pending (set_confirmed (confirmed h) g)) = Inr t"
    and r: "seal_header cr h trust t = Inr r"
    using next_stateE [OF n] by metis
  have gok: "dpos_ok g" using generate_next_ok(1) [OF ok g] adm by simp
  obtain p where p: "producer_to_last_implied_irb g =
      map_put p (dpos_proposed_irreversible_blocknum s) (producer_to_last_implied_irb s)"
    and lg: "dpos_irreversible_blocknum g = calc_dpos_last_irreversible g"
    and pg: "pending_schedule g = pending_schedule s"
    using g by (auto elim!: generate_nextE)
  have "calc_dpos_last_irreversible s \<le> calc_dpos_last_irreversible g"
    using calc_lib_put [OF _ p] ok by (simp add: header_state_ok_def dpos_ok_def irb_ok_def)
  moreover have lr: "dpos_irreversible_blocknum r = calc_dpos_last_irreversible g"
    by (simp add: seal_header_simps(5) [OF r] apply_new_producers_ok(5) [OF t] set_confirmed_simps [OF gok] lg)
  moreover have "calc_dpos_last_irreversible r = calc_dpos_last_irreversible g"
    if "producers (pending_schedule s) = []"
  proof -
    have "producer_to_last_implied_irb r = producer_to_last_implied_irb g"
      using that
      by (simp add: seal_header_simps(6) [OF r] apply_new_producers_ok(6) [OF t] set_confirmed_simps [OF gok]
          maybe_promote_pending_def pg)
    then show ?thesis by (simp add: calc_dpos_last_irreversible_def)
  qed
  ultimately show ?thesis using lib next_step_ok(3) [OF ok n adm] by simp
qed

section \<open>Concrete headers\<close>

text \<open>A cryptography that hashes everything to zero and recovers the same key from every signature.\<close>

definition null_crypto :: chain_crypto where
  "null_crypto = \<lparr>header_hash = (\<lambda>_. default_digest), schedule_hash = (\<lambda>_. default_digest),
     hash_pair = (\<lambda>_. default_digest), recover_key = (\<lambda>_ _ _. Inr (K1 7))\<rparr>"

definition block_at :: "block_header_state \<Rightarrow> nat \<Rightarrow> name \<Rightarrow> nat \<Rightarrow> signed_block_header" where
  "block_at s t p conf = default_signed_header\<lparr>timestamp := t, producer := p, confirmed := conf,
     previous := block_id s, schedule_version := version (active_schedule s)\<rparr>"

definition null_genesis :: block_header_state where
  "null_genesis = genesis_state null_crypto 1 (K1 7) 20 default_digest"

definition producer_keys :: "name list \<Rightarrow> producer_key list" where
  "producer_keys = map (\<lambda>n. \<lparr>producer_name = n, block_signing_key = K1 7\<rparr>)"

text \<open>Four producers, of which the first lags behind, and a pending schedule of the first and a new one.\<close>

definition lagging_state :: block_header_state where
  "lagging_state = default_header_state\<lparr>block_id := SHA256 (ucast (endian_reverse_u32 20)) 0 0 0,
     block_num := 20, header := default_signed_header\<lparr>timestamp := 47\<rparr>,
     dpos_proposed_irreversible_blocknum := 10, dpos_irreversible_blocknum := 10,
     active_schedule := \<lparr>version = 1, producers = producer_keys [1, 2, 3, 4]\<rparr>,
     pending_schedule := \<lparr>version = 2, producers = producer_keys [1, 5]\<rparr>,
     producer_to_last_implied_irb := [(1, 5), (2, 10), (3, 10), (4, 10)]\<rparr>"


lemma endian_reverse_examples:
  "endian_reverse_u32 20 = 335544320" "endian_reverse_u32 0 = 0" "endian_reverse_u32 1 = 16777216"
  "endian_reverse_u32 2 = 33554432" "endian_reverse_u32 21 = 352321536" "endian_reverse_u32 22 = 369098752"
  "num_from_id (SHA256 335544320 0 0 0) = 20" "num_from_id (SHA256 352321536 0 0 0) = 21"
  "num_from_id (SHA256 16777216 0 0 0) = 1" "num_from_id (SHA256 0 0 0 0) = 0"
  by (simp_all add: endian_reverse_u32_def num_from_id_def)

lemmas header_eval = null_crypto_def block_at_def lagging_state_def null_genesis_def producer_keys_def
  next_state_def generate_next_def bes_assert_def Let_def get_scheduled_producer_def producer_repetitions_def
  merkle_append_def calcluate_max_depth_def next_power_of_2_def clz_power_2_def empty_incremental_merkle_def
  default_header_state_def default_signed_header_def u32_def grow_confirm_count_def u8_def
  maximum_tracked_dpos_confirmations_def calc_dpos_last_irreversible_def apply_new_producers_def
  maybe_promote_pending_def set_confirmed_def seal_header_def carry_over_def header_id_def header_digest_def
  header_block_num_def default_digest_def u32_sub_def endian_reverse_examples signee_def genesis_state_def
  empty_schedule_def max_producers_def header_state_ok_def dpos_ok_defs

lemma null_genesis_next:
  "next_state null_crypto null_genesis (block_at null_genesis 21 1 0) False
     = Inr (projr (next_state null_crypto null_genesis (block_at null_genesis 21 1 0) False))"
  by (simp add: header_eval)

theorem reachable_header_states_witness:
  "block_num (projr (next_state null_crypto null_genesis (block_at null_genesis 21 1 0) False)) = 2
 \<and> get_root (blockroot_merkle (projr (next_state null_crypto null_genesis (block_at null_genesis 21 1 0) False)))
    = merkle (hash_pair null_crypto) [block_id null_genesis]"
proof -
  have "header_chain null_crypto null_genesis ([] @ [block_id null_genesis])
      (projr (next_state null_crypto null_genesis (block_at null_genesis 21 1 0) False))"
    by (rule header_chain.block [OF header_chain.start _ null_genesis_next])
      (simp add: block_at_def default_signed_header_def)
  from reachable_header_states [of null_crypto 1 "K1 7" 20 default_digest, folded null_genesis_def, OF this]
  show ?thesis by simp
qed

theorem irreversible_monotone_witness:
  "dpos_irreversible_blocknum lagging_state
     \<le> dpos_irreversible_blocknum (projr (next_state null_crypto lagging_state (block_at lagging_state 60 2 0) True))"
proof -
  have "header_state_ok lagging_state" by (simp add: header_eval)
  moreover have "dpos_irreversible_blocknum lagging_state \<le> calc_dpos_last_irreversible lagging_state"
    by (simp add: header_eval)
  moreover have "next_state null_crypto lagging_state (block_at lagging_state 60 2 0) True
      = Inr (projr (next_state null_crypto lagging_state (block_at lagging_state 60 2 0) True))"
    by (simp add: header_eval)
  moreover have "header_admissible (Next (block_at lagging_state 60 2 0) True)"
    by (simp add: header_eval)
  ultimately show ?thesis using irreversible_monotone by blast
qed



end
