(* ===== verification/ResourceLimits.thy ===== *)
theory ResourceLimits
  imports Names
begin

text \<open>
  Rate limiting and resource accounting: \<^verbatim>\<open>resource_limits.hpp\<close>, \<^verbatim>\<open>resource_limits_private.hpp\<close> and
  \<^verbatim>\<open>resource_limits.cpp\<close> in \<^verbatim>\<open>libraries/chain\<close>.

  The database rows of the manager are the record \<open>resource_db\<close>.  The index \<open>by_owner\<close> of the limits is
  ordered by the pending flag and the owner and unique in both: it is modelled as two maps from
  owners, \<open>limits\<close> for the rows in effect and \<open>pending_limits\<close> for the pending ones, each in ascending
  order of owners.  All \<^verbatim>\<open>uint64_t\<close> and \<^verbatim>\<open>uint128_t\<close> arithmetic has its wrap-around written out.

  The lemmas show that the guards rule out every wrap-around in the moving averages and totals, that the
  elastic limits stay between their bounds, that the totals are the sums of the positive limits, and when each
  operation throws.
\<close>

section \<open>Ratios, ceilings, casts\<close>

record ratio =
  numerator :: nat
  denominator :: nat

definition ratio_mult :: "nat \<Rightarrow> ratio \<Rightarrow> nat result" where
  "ratio_mult value r =
     bes_assert (numerator r = 0 \<or> UINT64_MAX div numerator r \<ge> value) rate_limiting_state_inconsistent
    (if denominator r = 0 then Inl undefined_behaviour
     else Inr (u64 (value * numerator r) div denominator r))"

definition integer_divide_ceil :: "nat \<Rightarrow> nat \<Rightarrow> nat" where
  "integer_divide_ceil num den = num div den + (if num mod den > 0 then 1 else 0)"

text \<open>\<^verbatim>\<open>downgrade_cast<uint64_t>\<close> and \<^verbatim>\<open>downgrade_cast<int64_t>\<close> of a \<^verbatim>\<open>uint128_t\<close>.\<close>

definition downgrade_cast_u64 :: "nat \<Rightarrow> nat result" where
  "downgrade_cast_u64 val = bes_assert (val \<le> UINT64_MAX) rate_limiting_state_inconsistent (Inr val)"

definition downgrade_cast_i64 :: "nat \<Rightarrow> int result" where
  "downgrade_cast_i64 val =
     bes_assert (int val \<le> INT64_MAX) rate_limiting_state_inconsistent (Inr (int val))"

section \<open>The exponential moving average\<close>

definition rate_limiting_precision :: nat where
  "rate_limiting_precision = 1000000"

definition max_raw_value :: nat where
  "max_raw_value = UINT64_MAX div rate_limiting_precision"

record usage_accumulator =
  last_ordinal :: nat
  value_ex :: nat
  consumed :: nat

definition new_accumulator :: usage_accumulator where
  "new_accumulator = \<lparr>last_ordinal = 0, value_ex = 0, consumed = 0\<rparr>"

definition average :: "usage_accumulator \<Rightarrow> nat" where
  "average a = integer_divide_ceil (value_ex a) rate_limiting_precision"

text \<open>The part of \<^verbatim>\<open>add\<close> that moves to a later period.\<close>

definition advance :: "nat \<Rightarrow> nat \<Rightarrow> usage_accumulator \<Rightarrow> usage_accumulator result" where
  "advance ordinal window_size a =
     (if last_ordinal a \<noteq> ordinal then
        bes_assert (ordinal > last_ordinal a) resource_limit_exception
       (bindR (if u64 (last_ordinal a + window_size) > ordinal
               then (let delta = u32_sub ordinal (last_ordinal a) in
                     ratio_mult (value_ex a) \<lparr>numerator = u64_sub window_size delta, denominator = window_size\<rparr>)
               else Inr 0)
       (\<lambda>v. let a = a\<lparr>value_ex := v, last_ordinal := ordinal\<rparr> in Inr (a\<lparr>consumed := average a\<rparr>)))
      else Inr a)"

text \<open>With a window of size zero the code divides by zero.\<close>

definition usage_add :: "nat \<Rightarrow> nat \<Rightarrow> nat \<Rightarrow> usage_accumulator \<Rightarrow> usage_accumulator result" where
  "usage_add units ordinal window_size a =
     bes_assert (units \<le> max_raw_value) rate_limiting_state_inconsistent
    (bes_assert (u64_sub UINT64_MAX (consumed a) \<ge> units) rate_limiting_state_inconsistent
    (if window_size = 0 then Inl undefined_behaviour
     else bindR (downgrade_cast_u64 (integer_divide_ceil (u128 (units * rate_limiting_precision)) window_size))
    (\<lambda>value_ex_contrib.
       bes_assert (u64_sub UINT64_MAX (value_ex a) \<ge> value_ex_contrib) rate_limiting_state_inconsistent
      (bindR (advance ordinal window_size a)
      (\<lambda>a. Inr (a\<lparr>consumed := u64 (consumed a + units), value_ex := u64 (value_ex a + value_ex_contrib)\<rparr>))))))"

section \<open>Elastic limits\<close>

record elastic_limit_parameters =
  target :: nat
  max_usage :: nat
  periods :: nat
  max_multiplier :: nat
  contract_rate :: ratio
  expand_rate :: ratio

definition elastic_validate :: "elastic_limit_parameters \<Rightarrow> unit result" where
  "elastic_validate p =
     bes_assert (periods p > 0) resource_limit_exception
    (bes_assert (denominator (contract_rate p) > 0) resource_limit_exception
    (bes_assert (denominator (expand_rate p) > 0) resource_limit_exception
    (Inr ())))"

definition update_elastic_limit :: "nat \<Rightarrow> nat \<Rightarrow> elastic_limit_parameters \<Rightarrow> nat result" where
  "update_elastic_limit current_limit average_usage params =
     bindR (ratio_mult current_limit
              (if average_usage > target params then contract_rate params else expand_rate params))
    (\<lambda>result. Inr (min (max result (max_usage params)) (u64 (max_usage params * max_multiplier params))))"

section \<open>The rows\<close>

record resource_limits_object =
  net_weight :: int
  cpu_weight :: int
  ram_bytes :: int

definition unlimited :: resource_limits_object where
  "unlimited = \<lparr>net_weight = -1, cpu_weight = -1, ram_bytes = -1\<rparr>"

record resource_usage_object =
  net_usage :: usage_accumulator
  cpu_usage :: usage_accumulator
  ram_usage :: nat

definition no_usage :: resource_usage_object where
  "no_usage = \<lparr>net_usage = new_accumulator, cpu_usage = new_accumulator, ram_usage = 0\<rparr>"

record resource_limits_config =
  cpu_limit_parameters :: elastic_limit_parameters
  net_limit_parameters :: elastic_limit_parameters
  account_cpu_usage_average_window :: nat
  account_net_usage_average_window :: nat

record resource_limits_state =
  average_block_net_usage :: usage_accumulator
  average_block_cpu_usage :: usage_accumulator
  pending_net_usage :: nat
  pending_cpu_usage :: nat
  total_net_weight :: nat
  total_cpu_weight :: nat
  total_ram_bytes :: nat
  virtual_net_limit :: nat
  virtual_cpu_limit :: nat

record resource_db =
  limits :: "(name \<times> resource_limits_object) list"
  pending_limits :: "(name \<times> resource_limits_object) list"
  usages :: "(name \<times> resource_usage_object) list"
  rl_config :: resource_limits_config
  rl_state :: resource_limits_state

text \<open>The defaults in the declaration of \<^verbatim>\<open>resource_limits_config_object\<close> and \<^verbatim>\<open>config.hpp\<close>.\<close>

definition bes_percent :: "nat \<Rightarrow> nat \<Rightarrow> nat" where
  "bes_percent value percentage = u64 (value * percentage) div 10000"

definition default_config :: resource_limits_config where
  "default_config = \<lparr>
     cpu_limit_parameters = \<lparr>target = bes_percent 200000 1000, max_usage = 200000, periods = 60000 div 500,
       max_multiplier = 1000, contract_rate = \<lparr>numerator = 99, denominator = 100\<rparr>,
       expand_rate = \<lparr>numerator = 1000, denominator = 999\<rparr>\<rparr>,
     net_limit_parameters = \<lparr>target = bes_percent (1024 * 1024) 1000, max_usage = 1024 * 1024, periods = 60000 div 500,
       max_multiplier = 1000, contract_rate = \<lparr>numerator = 99, denominator = 100\<rparr>,
       expand_rate = \<lparr>numerator = 1000, denominator = 999\<rparr>\<rparr>,
     account_cpu_usage_average_window = 86400000 div 500,
     account_net_usage_average_window = 86400000 div 500\<rparr>"

definition initialize_database :: resource_db where
  "initialize_database = \<lparr>limits = [], pending_limits = [], usages = [], rl_config = default_config,
     rl_state = \<lparr>average_block_net_usage = new_accumulator, average_block_cpu_usage = new_accumulator,
       pending_net_usage = 0, pending_cpu_usage = 0, total_net_weight = 0, total_cpu_weight = 0, total_ram_bytes = 0,
       virtual_net_limit = max_usage (net_limit_parameters default_config),
       virtual_cpu_limit = max_usage (cpu_limit_parameters default_config)\<rparr>\<rparr>"

section \<open>The manager\<close>

text \<open>\<^verbatim>\<open>create\<close> throws when the owner already has a row.\<close>

definition initialize_account :: "name \<Rightarrow> resource_db \<Rightarrow> resource_db result" where
  "initialize_account account db =
     bes_assert (map_of (limits db) account = None) logic_error
    (bes_assert (map_of (usages db) account = None) logic_error
    (Inr (db\<lparr>limits := map_put account unlimited (limits db),
             usages := map_put account no_usage (usages db)\<rparr>)))"

definition set_block_parameters :: "elastic_limit_parameters \<Rightarrow> elastic_limit_parameters \<Rightarrow> resource_db
    \<Rightarrow> resource_db result" where
  "set_block_parameters cpu net db =
     bindR (elastic_validate cpu) (\<lambda>_.
     bindR (elastic_validate net) (\<lambda>_.
     Inr (db\<lparr>rl_config := (rl_config db)\<lparr>cpu_limit_parameters := cpu, net_limit_parameters := net\<rparr>\<rparr>)))"

definition get_usage :: "name \<Rightarrow> resource_db \<Rightarrow> resource_usage_object result" where
  "get_usage account db = of_option out_of_range (map_of (usages db) account)"

text \<open>Both \<^verbatim>\<open>modify\<close> calls that add to the accumulators of an account.\<close>

definition add_account_usage :: "nat \<Rightarrow> nat \<Rightarrow> nat \<Rightarrow> name \<Rightarrow> resource_db \<Rightarrow> resource_db result" where
  "add_account_usage cpu net time_slot a db =
     bindR (get_usage a db) (\<lambda>bu.
     bindR (usage_add net time_slot (account_net_usage_average_window (rl_config db)) (net_usage bu)) (\<lambda>nu.
     bindR (usage_add cpu time_slot (account_cpu_usage_average_window (rl_config db)) (cpu_usage bu)) (\<lambda>cu.
     Inr (db\<lparr>usages := map_put a (bu\<lparr>net_usage := nu, cpu_usage := cu\<rparr>) (usages db)\<rparr>))))"

definition update_account_usage :: "name list \<Rightarrow> nat \<Rightarrow> resource_db \<Rightarrow> resource_db result" where
  "update_account_usage accounts time_slot db = foldR (add_account_usage 0 0 time_slot) accounts db"

definition get_account_limits :: "name \<Rightarrow> resource_db \<Rightarrow> resource_limits_object result" where
  "get_account_limits account db =
     (case map_of (pending_limits db) account of
        Some l \<Rightarrow> Inr l
      | None \<Rightarrow> of_option out_of_range (map_of (limits db) account))"

text \<open>
  The share of an account in a window, with the products in \<^verbatim>\<open>uint128_t\<close>: the usage allowed by its weight, and
  the usage that its accumulator stands for, rounded down (\<open>used_in_window\<close>) or up.
\<close>

definition max_user_use_in_window :: "nat \<Rightarrow> nat \<Rightarrow> int \<Rightarrow> nat \<Rightarrow> nat" where
  "max_user_use_in_window capacity window_size weight all_user_weight =
     u128 (u128 (capacity * window_size) * nat (weight mod 2 ^ 128)) div all_user_weight"

definition used_in_window :: "usage_accumulator \<Rightarrow> nat \<Rightarrow> nat" where
  "used_in_window a window_size = u128 (value_ex a * window_size) div rate_limiting_precision"

definition used_in_window_ceil :: "usage_accumulator \<Rightarrow> nat \<Rightarrow> nat" where
  "used_in_window_ceil a window_size =
     integer_divide_ceil (u128 (value_ex a * window_size)) rate_limiting_precision"

definition bill_account :: "nat \<Rightarrow> nat \<Rightarrow> nat \<Rightarrow> name \<Rightarrow> resource_db \<Rightarrow> resource_db result" where
  "bill_account cpu net time_slot a db =
     bindR (get_usage a db) (\<lambda>_.
     bindR (get_account_limits a db) (\<lambda>l.
     bindR (add_account_usage cpu net time_slot a db) (\<lambda>db.
     bindR (get_usage a db) (\<lambda>usage.
       let state = rl_state db; config = rl_config db in
       bes_assert (cpu_weight l \<ge> 0 \<and> total_cpu_weight state > 0 \<longrightarrow>
          used_in_window (cpu_usage usage) (account_cpu_usage_average_window config)
            \<le> max_user_use_in_window (virtual_cpu_limit state) (account_cpu_usage_average_window config)
                (cpu_weight l) (total_cpu_weight state)) tx_cpu_usage_exceeded
      (bes_assert (net_weight l \<ge> 0 \<and> total_net_weight state > 0 \<longrightarrow>
          used_in_window (net_usage usage) (account_net_usage_average_window config)
            \<le> max_user_use_in_window (virtual_net_limit state) (account_net_usage_average_window config)
                (net_weight l) (total_net_weight state)) tx_net_usage_exceeded
      (Inr db))))))"

definition add_transaction_usage :: "name list \<Rightarrow> nat \<Rightarrow> nat \<Rightarrow> nat \<Rightarrow> resource_db \<Rightarrow> resource_db result" where
  "add_transaction_usage accounts cpu net time_slot db =
     bindR (foldR (bill_account cpu net time_slot) accounts db)
    (\<lambda>db.
      let state = rl_state db;
          state = state\<lparr>pending_cpu_usage := u64 (pending_cpu_usage state + cpu),
                         pending_net_usage := u64 (pending_net_usage state + net)\<rparr>;
          db = db\<lparr>rl_state := state\<rparr>
      in bes_assert (pending_cpu_usage state \<le> max_usage (cpu_limit_parameters (rl_config db))) block_resource_exhausted
        (bes_assert (pending_net_usage state \<le> max_usage (net_limit_parameters (rl_config db))) block_resource_exhausted
        (Inr db)))"

definition add_pending_ram_usage :: "name \<Rightarrow> int \<Rightarrow> resource_db \<Rightarrow> resource_db result" where
  "add_pending_ram_usage account ram_delta db =
     (if ram_delta = 0 then Inr db
      else bindR (get_usage account db)
     (\<lambda>usage.
        bes_assert (ram_delta \<le> 0 \<or> u64_sub UINT64_MAX (ram_usage usage) \<ge> to_u64 ram_delta) transaction_exception
       (bes_assert (ram_delta \<ge> 0 \<or> ram_usage usage \<ge> to_u64 (i64 (- ram_delta))) transaction_exception
       (Inr (db\<lparr>usages := map_put account
               (usage\<lparr>ram_usage := u64 (ram_usage usage + to_u64 ram_delta)\<rparr>) (usages db)\<rparr>)))))"

definition verify_account_ram_usage :: "name \<Rightarrow> resource_db \<Rightarrow> unit result" where
  "verify_account_ram_usage account db =
     bindR (get_account_limits account db) (\<lambda>l.
     bindR (get_usage account db) (\<lambda>usage.
     if ram_bytes l \<ge> 0
     then bes_assert (ram_usage usage \<le> to_u64 (ram_bytes l)) ram_usage_exceeded (Inr ())
     else Inr ()))"

definition get_account_ram_usage :: "name \<Rightarrow> resource_db \<Rightarrow> int result" where
  "get_account_ram_usage account db =
     bindR (get_usage account db) (\<lambda>u. Inr (i64 (int (ram_usage u))))"

definition set_account_limits :: "name \<Rightarrow> int \<Rightarrow> int \<Rightarrow> int \<Rightarrow> resource_db \<Rightarrow> (bool \<times> resource_db) result" where
  "set_account_limits account ram net cpu db =
     bindR (get_account_limits account db)
    (\<lambda>l.
      let decreased_limit = (ram \<ge> 0 \<and> (ram_bytes l < 0 \<or> ram < ram_bytes l))
      in Inr (decreased_limit,
              db\<lparr>pending_limits := map_put account \<lparr>net_weight = net, cpu_weight = cpu, ram_bytes = ram\<rparr>
                  (pending_limits db)\<rparr>))"

text \<open>\<^verbatim>\<open>update_state_and_value\<close>: replaces one account's value in a total.\<close>

definition update_total :: "nat \<Rightarrow> int \<Rightarrow> int \<Rightarrow> nat result" where
  "update_total tot value pending_value =
     bindR (if value > 0
            then bes_assert (tot \<ge> to_u64 value) rate_limiting_state_inconsistent (Inr (u64_sub tot (to_u64 value)))
            else Inr tot)
    (\<lambda>tot.
      if pending_value > 0
      then bes_assert (u64_sub UINT64_MAX tot \<ge> to_u64 pending_value) rate_limiting_state_inconsistent
             (Inr (u64 (tot + to_u64 pending_value)))
      else Inr tot)"

text \<open>One round of the loop of \<open>process_account_limit_updates\<close>, for the first pending row.\<close>

definition apply_pending :: "name \<times> resource_limits_object \<Rightarrow> resource_db \<Rightarrow> resource_db result" where
  "apply_pending row db =
     (case row of (account, p) \<Rightarrow>
        bindR (of_option out_of_range (map_of (limits db) account)) (\<lambda>l.
        bindR (update_total (total_ram_bytes (rl_state db)) (ram_bytes l) (ram_bytes p)) (\<lambda>ram.
        bindR (update_total (total_cpu_weight (rl_state db)) (cpu_weight l) (cpu_weight p)) (\<lambda>cpu.
        bindR (update_total (total_net_weight (rl_state db)) (net_weight l) (net_weight p)) (\<lambda>net.
        Inr (db\<lparr>limits := map_put account p (limits db),
                pending_limits := map_del account (pending_limits db),
                rl_state := (rl_state db)\<lparr>total_ram_bytes := ram, total_cpu_weight := cpu,
                              total_net_weight := net\<rparr>\<rparr>))))))"

definition process_account_limit_updates :: "resource_db \<Rightarrow> resource_db result" where
  "process_account_limit_updates db = foldR apply_pending (pending_limits db) db"

definition process_block_usage :: "nat \<Rightarrow> resource_db \<Rightarrow> resource_db result" where
  "process_block_usage num db =
     (let s = rl_state db; config = rl_config db;
          cpu = cpu_limit_parameters config; net = net_limit_parameters config
      in bindR (usage_add (pending_cpu_usage s) num (periods cpu) (average_block_cpu_usage s)) (\<lambda>ca.
         bindR (update_elastic_limit (virtual_cpu_limit s) (average ca) cpu) (\<lambda>vc.
         bindR (usage_add (pending_net_usage s) num (periods net) (average_block_net_usage s)) (\<lambda>na.
         bindR (update_elastic_limit (virtual_net_limit s) (average na) net) (\<lambda>vn.
         Inr (db\<lparr>rl_state := s\<lparr>average_block_cpu_usage := ca, virtual_cpu_limit := vc, pending_cpu_usage := 0,
                               average_block_net_usage := na, virtual_net_limit := vn, pending_net_usage := 0\<rparr>\<rparr>))))))"

definition get_virtual_block_cpu_limit :: "resource_db \<Rightarrow> nat" where
  "get_virtual_block_cpu_limit db = virtual_cpu_limit (rl_state db)"

definition get_virtual_block_net_limit :: "resource_db \<Rightarrow> nat" where
  "get_virtual_block_net_limit db = virtual_net_limit (rl_state db)"

definition get_block_cpu_limit :: "resource_db \<Rightarrow> nat" where
  "get_block_cpu_limit db =
     u64_sub (max_usage (cpu_limit_parameters (rl_config db))) (pending_cpu_usage (rl_state db))"

definition get_block_net_limit :: "resource_db \<Rightarrow> nat" where
  "get_block_net_limit db =
     u64_sub (max_usage (net_limit_parameters (rl_config db))) (pending_net_usage (rl_state db))"

record account_resource_limit =
  used :: int
  available :: int
  max_use :: int

text \<open>The common part of \<open>get_account_cpu_limit_ex\<close> and \<open>get_account_net_limit_ex\<close>.\<close>

definition account_limit :: "nat \<Rightarrow> nat \<Rightarrow> account_resource_limit result" where
  "account_limit allowed in_use =
     bindR (if allowed \<le> in_use then Inr 0
            else downgrade_cast_i64 (allowed - in_use)) (\<lambda>av.
     bindR (downgrade_cast_i64 in_use) (\<lambda>us.
     bindR (downgrade_cast_i64 allowed) (\<lambda>mx.
     Inr \<lparr>used = us, available = av, max_use = mx\<rparr>)))"

definition get_account_cpu_limit_ex :: "name \<Rightarrow> bool \<Rightarrow> resource_db \<Rightarrow> account_resource_limit result" where
  "get_account_cpu_limit_ex account elastic db =
     bindR (get_usage account db) (\<lambda>usage.
     bindR (get_account_limits account db) (\<lambda>l.
       let state = rl_state db; config = rl_config db;
           window_size = account_cpu_usage_average_window config
       in if cpu_weight l < 0 \<or> total_cpu_weight state = 0
          then Inr \<lparr>used = -1, available = -1, max_use = -1\<rparr>
          else account_limit
             (max_user_use_in_window
               (if elastic then virtual_cpu_limit state else max_usage (cpu_limit_parameters config))
               window_size (cpu_weight l) (total_cpu_weight state))
             (used_in_window_ceil (cpu_usage usage) window_size)))"

definition get_account_net_limit_ex :: "name \<Rightarrow> bool \<Rightarrow> resource_db \<Rightarrow> account_resource_limit result" where
  "get_account_net_limit_ex account elastic db =
     bindR (get_usage account db) (\<lambda>usage.
     bindR (get_account_limits account db) (\<lambda>l.
       let state = rl_state db; config = rl_config db;
           window_size = account_net_usage_average_window config
       in if net_weight l < 0 \<or> total_net_weight state = 0
          then Inr \<lparr>used = -1, available = -1, max_use = -1\<rparr>
          else account_limit
             (max_user_use_in_window
               (if elastic then virtual_net_limit state else max_usage (net_limit_parameters config))
               window_size (net_weight l) (total_net_weight state))
             (used_in_window_ceil (net_usage usage) window_size)))"

definition get_account_cpu_limit :: "name \<Rightarrow> bool \<Rightarrow> resource_db \<Rightarrow> int result" where
  "get_account_cpu_limit account elastic db =
     bindR (get_account_cpu_limit_ex account elastic db) (\<lambda>arl. Inr (available arl))"

definition get_account_net_limit :: "name \<Rightarrow> bool \<Rightarrow> resource_db \<Rightarrow> int result" where
  "get_account_net_limit account elastic db =
     bindR (get_account_net_limit_ex account elastic db) (\<lambda>arl. Inr (available arl))"

definition get_account_ram_own_usage :: "name \<Rightarrow> resource_db \<Rightarrow> (int \<times> int) result" where
  "get_account_ram_own_usage account db =
     bindR (get_account_limits account db) (\<lambda>l.
     bindR (get_usage account db) (\<lambda>u. Inr (ram_bytes l, i64 (int (ram_usage u)))))"

section \<open>Arithmetic of the averages\<close>

lemma ceil_bounds:
  assumes "0 < den"
  shows "num \<le> den * integer_divide_ceil num den" "den * integer_divide_ceil num den < num + den"
proof -
  obtain x r where x: "x = den * (num div den)" "r = num mod den" "x + r = num" "r < den"
    using mult_div_mod_eq [of den num] mod_less_divisor [OF assms, of num] by blast
  have "den * integer_divide_ceil num den = x + (if 0 < r then den else 0)"
    by (simp add: integer_divide_ceil_def x)
  moreover have "num \<le> x + (if 0 < r then den else 0)" "x + (if 0 < r then den else 0) < num + den"
    using x(3,4) by auto
  ultimately show "num \<le> den * integer_divide_ceil num den" "den * integer_divide_ceil num den < num + den"
    by simp_all
qed

lemmas ceil_upper = ceil_bounds(1)
  and ceil_lower = ceil_bounds(2)

lemma ceil_le_iff:
  assumes "0 < den"
  shows "integer_divide_ceil num den \<le> k \<longleftrightarrow> num \<le> den * k"
proof
  assume "integer_divide_ceil num den \<le> k"
  then have "den * integer_divide_ceil num den \<le> den * k" by simp
  with ceil_upper [OF assms] show "num \<le> den * k" by (rule le_trans)
next
  assume "num \<le> den * k"
  with ceil_lower [OF assms, of num] have "den * integer_divide_ceil num den < den * (k + 1)" by simp
  then show "integer_divide_ceil num den \<le> k" unfolding mult_less_cancel1 by simp
qed

text \<open>Accumulators as the code can hold them.\<close>

definition acc_ok :: "usage_accumulator \<Rightarrow> bool" where
  "acc_ok a \<longleftrightarrow> last_ordinal a < 2 ^ 32 \<and> value_ex a < 2 ^ 64 \<and> consumed a < 2 ^ 64"

text \<open>The mathematical content of \<^verbatim>\<open>add\<close>, on natural numbers without bounds.\<close>

definition decayed :: "nat \<Rightarrow> nat \<Rightarrow> usage_accumulator \<Rightarrow> nat" where
  "decayed ordinal w a = value_ex a * (w - (ordinal - last_ordinal a)) div w"

definition ema_add :: "nat \<Rightarrow> nat \<Rightarrow> nat \<Rightarrow> usage_accumulator \<Rightarrow> usage_accumulator" where
  "ema_add units ordinal w a =
     (let v = decayed ordinal w a;
          c = (if last_ordinal a = ordinal then consumed a else integer_divide_ceil v rate_limiting_precision)
      in \<lparr>last_ordinal = ordinal, value_ex = v + integer_divide_ceil (units * rate_limiting_precision) w,
          consumed = c + units\<rparr>)"

lemma ratio_mult_decay:
  assumes "d \<le> w" "0 < w" "v < 2 ^ 64" "w < 2 ^ 32"
    and "ratio_mult v \<lparr>numerator = w - d, denominator = w\<rparr> = Inr r"
  shows "r = v * (w - d) div w"
proof -
  have "v * (w - d) \<le> UINT64_MAX \<or> w - d = 0"
  proof (cases "w - d = 0")
    case False
    then have "v \<le> UINT64_MAX div (w - d)" using assms(5) by (simp add: ratio_mult_def result_simps)
    then have "v * (w - d) \<le> UINT64_MAX div (w - d) * (w - d)" by simp
    also have "\<dots> \<le> UINT64_MAX" by (rule div_times_less_eq_dividend)
    finally show ?thesis by simp
  qed simp
  then have "v * (w - d) < 2 ^ 64" by (auto simp: UINT64_MAX_def)
  then have "u64 (v * (w - d)) = v * (w - d)" by (rule u64_id)
  with assms(2,5) show ?thesis by (simp add: ratio_mult_def result_simps split: if_splits)
qed

lemma advance_eq:
  assumes "acc_ok a" "ordinal < 2 ^ 32" "w < 2 ^ 32" "advance ordinal w a = Inr b" "0 < w"
  shows "last_ordinal b = ordinal" "value_ex b = decayed ordinal w a"
    "consumed b = (if last_ordinal a = ordinal then consumed a else average b)"
    "last_ordinal a \<le> ordinal"
proof -
  consider "last_ordinal a = ordinal"
    | "last_ordinal a < ordinal" "ordinal < last_ordinal a + w"
    | "last_ordinal a < ordinal" "last_ordinal a + w \<le> ordinal"
    using assms(4) by (force simp: advance_def result_simps split: if_splits)
  then have "last_ordinal b = ordinal \<and> value_ex b = decayed ordinal w a
    \<and> consumed b = (if last_ordinal a = ordinal then consumed a else average b) \<and> last_ordinal a \<le> ordinal"
  proof cases
    case 1
    with assms show ?thesis by (simp add: advance_def decayed_def)
  next
    case 2
    have u: "u64 (last_ordinal a + w) = last_ordinal a + w"
      using assms(1,3) by (intro u64_id) (simp add: acc_ok_def)
    have s: "u32_sub ordinal (last_ordinal a) = ordinal - last_ordinal a"
      using 2 assms(2) by (intro u32_sub_id) simp_all
    have s': "u64_sub w (ordinal - last_ordinal a) = w - (ordinal - last_ordinal a)"
      using 2 assms(3) by (intro u64_sub_id) simp_all
    from 2 assms(4) obtain v where
      v: "ratio_mult (value_ex a) \<lparr>numerator = w - (ordinal - last_ordinal a), denominator = w\<rparr> = Inr v"
      and b: "b = a\<lparr>value_ex := v, last_ordinal := ordinal,
        consumed := average (a\<lparr>value_ex := v, last_ordinal := ordinal\<rparr>)\<rparr>"
      by (auto simp: advance_def result_simps Let_def u s s')
    have "v = value_ex a * (w - (ordinal - last_ordinal a)) div w"
      using 2 assms(1,3,5) by (intro ratio_mult_decay [OF _ _ _ _ v]) (simp_all add: acc_ok_def)
    with 2 b show ?thesis by (simp add: decayed_def average_def)
  next
    case 3
    have u: "u64 (last_ordinal a + w) = last_ordinal a + w"
      using assms(1,3) by (intro u64_id) (simp add: acc_ok_def)
    have "w - (ordinal - last_ordinal a) = 0" using 3 by simp
    with 3 assms(4) show ?thesis by (auto simp: advance_def u decayed_def average_def Let_def)
  qed
  then show "last_ordinal b = ordinal" "value_ex b = decayed ordinal w a"
    "consumed b = (if last_ordinal a = ordinal then consumed a else average b)"
    "last_ordinal a \<le> ordinal" by blast+
qed

lemma decayed_le: "decayed ordinal w a \<le> value_ex a"
proof (cases "w = 0")
  case False
  have "value_ex a * (w - (ordinal - last_ordinal a)) \<le> value_ex a * w" by simp
  from div_le_mono [OF this, of w] False show ?thesis by (simp add: decayed_def)
qed (simp add: decayed_def)

lemma usage_add_eq:
  assumes "acc_ok a" "ordinal < 2 ^ 32" "w < 2 ^ 32" "units < 2 ^ 64" "usage_add units ordinal w a = Inr b"
  shows "b = ema_add units ordinal w a" "acc_ok b"
proof -
  let ?c = "integer_divide_ceil (units * rate_limiting_precision) w"
  have w: "0 < w" using assms(5) by (auto simp: usage_add_def result_simps split: if_splits)
  have "units * rate_limiting_precision < 2 ^ 128"
    using assms(4) by (simp add: rate_limiting_precision_def)
  then have u: "u128 (units * rate_limiting_precision) = units * rate_limiting_precision" by (rule u128_id)
  obtain b0 where units: "units \<le> max_raw_value" "units \<le> u64_sub UINT64_MAX (consumed a)"
    and c: "?c \<le> u64_sub UINT64_MAX (value_ex a)" and b0: "advance ordinal w a = Inr b0"
    and b: "b = b0\<lparr>consumed := u64 (consumed b0 + units), value_ex := u64 (value_ex b0 + ?c)\<rparr>"
    using assms(5) w by (auto simp: usage_add_def downgrade_cast_u64_def result_simps u)
  note adv = advance_eq [OF assms(1-3) b0 w]
  have vx: "value_ex b0 + ?c < 2 ^ 64"
    using c decayed_le [of ordinal w a] assms(1)
    unfolding adv(2) acc_ok_def by (simp add: UINT64_MAX_def u64_sub_id) linarith
  have "consumed b0 + units < 2 ^ 64"
  proof (cases "last_ordinal a = ordinal")
    case True
    with adv(3) units(2) assms(1) show ?thesis by (simp add: acc_ok_def UINT64_MAX_def u64_sub_id) linarith
  next
    case False
    have "average b0 \<le> 2 ^ 63"
      unfolding average_def using vx by (subst ceil_le_iff) (simp_all add: rate_limiting_precision_def)
    moreover have "units < 2 ^ 63"
      using units(1) by (simp add: max_raw_value_def UINT64_MAX_def rate_limiting_precision_def)
    ultimately show ?thesis using False adv(3) by simp
  qed
  then show "b = ema_add units ordinal w a" "acc_ok b"
    using vx b adv assms(2) by (simp_all add: ema_add_def u64_id acc_ok_def Let_def average_def)
qed

lemma ratio_mult_ok:
  assumes "v * numerator r \<le> UINT64_MAX" "0 < denominator r"
  shows "ratio_mult v r = Inr (v * numerator r div denominator r)"
proof -
  have "numerator r = 0 \<or> v \<le> UINT64_MAX div numerator r"
    using assms(1) by (cases "numerator r = 0") (simp_all add: less_eq_div_iff_mult_less_eq)
  moreover have "u64 (v * numerator r) = v * numerator r"
    using assms(1) by (intro u64_id) (simp add: UINT64_MAX_def)
  ultimately show ?thesis using assms(2) by (simp add: ratio_mult_def)
qed

lemma usage_add_total:
  assumes "acc_ok a" "last_ordinal a \<le> ordinal" "ordinal < 2 ^ 32" "0 < w" "w < 2 ^ 32"
    and "units * rate_limiting_precision < 2 ^ 64" "consumed a + units < 2 ^ 64" "value_ex a * w < 2 ^ 64"
    and "value_ex a + integer_divide_ceil (units * rate_limiting_precision) w < 2 ^ 64"
  shows "usage_add units ordinal w a = Inr (ema_add units ordinal w a)"
proof -
  let ?c = "integer_divide_ceil (units * rate_limiting_precision) w"
  have u: "units < 2 ^ 64" "units \<le> max_raw_value" "u128 (units * rate_limiting_precision) = units * rate_limiting_precision"
    using assms(6)
    by (simp_all add: max_raw_value_def UINT64_MAX_def rate_limiting_precision_def u128_id less_eq_div_iff_mult_less_eq)
  have s: "u64_sub UINT64_MAX (consumed a) = UINT64_MAX - consumed a" "u64_sub UINT64_MAX (value_ex a) = UINT64_MAX - value_ex a"
    using assms(7,9) by (simp_all add: UINT64_MAX_def u64_sub_id)
  have g: "ratio_mult (value_ex a) \<lparr>numerator = k, denominator = w\<rparr> = Inr (value_ex a * k div w)" if "k \<le> w" for k
  proof -
    have "value_ex a * k \<le> value_ex a * w" using that by simp
    then have "value_ex a * k \<le> UINT64_MAX" using assms(8) unfolding UINT64_MAX_def by linarith
    then show ?thesis using assms(4) by (simp add: ratio_mult_ok)
  qed
  obtain b where b: "advance ordinal w a = Inr b"
  proof (cases "last_ordinal a < ordinal \<and> ordinal < last_ordinal a + w")
    case True
    then have "u32_sub ordinal (last_ordinal a) = ordinal - last_ordinal a" "ordinal - last_ordinal a \<le> w"
      using assms(3) by (simp add: u32_sub_id, linarith)
    then have "u64_sub w (u32_sub ordinal (last_ordinal a)) \<le> w"
      using assms(5) by (simp add: u64_sub_id)
    with True g that assms(1,2,5) show ?thesis by (auto simp: advance_def Let_def acc_ok_def u64_id)
  next
    case False
    have "u64 (last_ordinal a + w) = last_ordinal a + w"
      using assms(1,5) by (intro u64_id) (simp add: acc_ok_def)
    then have "\<exists>b. advance ordinal w a = Inr b"
      using False assms(2) by (cases "last_ordinal a = ordinal") (simp_all add: advance_def Let_def)
    with that show ?thesis by blast
  qed
  have le: "units \<le> u64_sub UINT64_MAX (consumed a)" "?c \<le> u64_sub UINT64_MAX (value_ex a)" "?c \<le> UINT64_MAX"
    using assms(7,9) unfolding s by (simp_all add: UINT64_MAX_def)
  have "usage_add units ordinal w a
      = Inr (b\<lparr>consumed := u64 (consumed b + units), value_ex := u64 (value_ex b + ?c)\<rparr>)"
    using assms(4) u b le by (simp add: usage_add_def downgrade_cast_u64_def)
  with usage_add_eq(1) [OF assms(1,3,5) u(1)] show ?thesis by auto
qed

section \<open>Block meters: the average of a block resource and its elastic limit\<close>

definition params_ok :: "elastic_limit_parameters \<Rightarrow> bool" where
  "params_ok p \<longleftrightarrow> 0 < periods p \<and> periods p < 2 ^ 32 \<and> 1 \<le> max_multiplier p
     \<and> 0 < denominator (contract_rate p) \<and> 0 < denominator (expand_rate p)
     \<and> max_usage p * max_multiplier p * (1 + numerator (contract_rate p) + numerator (expand_rate p)) < 2 ^ 64
     \<and> (max_usage p * rate_limiting_precision + periods p) * (periods p + 1) < 2 ^ 64"

definition meter_ok :: "elastic_limit_parameters \<Rightarrow> usage_accumulator \<Rightarrow> nat \<Rightarrow> nat \<Rightarrow> bool" where
  "meter_ok p a limit pending \<longleftrightarrow> params_ok p
     \<and> last_ordinal a < 2 ^ 32
     \<and> value_ex a \<le> max_usage p * rate_limiting_precision + periods p
     \<and> consumed a \<le> max_usage p * rate_limiting_precision + periods p + max_usage p
     \<and> max_usage p \<le> limit \<and> limit \<le> max_usage p * max_multiplier p
     \<and> pending \<le> max_usage p"

text \<open>In steady state the average stays below the largest input, up to rounding.\<close>

lemma ema_bound:
  assumes "0 < w" "last_ordinal a < ordinal" "units \<le> m" "value_ex a \<le> m * rate_limiting_precision + w"
  shows "value_ex (ema_add units ordinal w a) \<le> m * rate_limiting_precision + w"
proof -
  let ?P = rate_limiting_precision and ?v = "decayed ordinal w a"
  let ?c = "integer_divide_ceil (units * ?P) w"
  have "w * ?v \<le> value_ex a * (w - (ordinal - last_ordinal a))"
    unfolding decayed_def by (simp add: mult.commute [of w])
  also have "\<dots> \<le> (m * ?P + w) * (w - 1)" using assms(2,4) by (intro mult_le_mono) simp_all
  finally have "w * ?v + (m * ?P + w) \<le> (m * ?P + w) * w"
    using assms(1) by (cases w) (simp_all add: algebra_simps)
  moreover have "w * ?c < m * ?P + w"
    using ceil_lower [OF assms(1), of "units * ?P"] mult_le_mono1 [OF assms(3), of ?P] by linarith
  ultimately have "w * (?v + ?c) < w * (m * ?P + w + 1)" by (simp add: algebra_simps)
  then show ?thesis unfolding mult_less_cancel1 by (simp add: ema_add_def Let_def)
qed

lemma ema_consumed_bound:
  assumes "0 < w" "last_ordinal a < ordinal" "units \<le> m" "value_ex a \<le> m * rate_limiting_precision + w"
  shows "consumed (ema_add units ordinal w a) \<le> m * rate_limiting_precision + w + m"
proof -
  have "integer_divide_ceil (decayed ordinal w a) rate_limiting_precision \<le> value_ex a"
    using decayed_le [of ordinal w a] by (subst ceil_le_iff) (simp_all add: rate_limiting_precision_def)
  with assms show ?thesis by (simp add: ema_add_def Let_def)
qed

lemma update_elastic_limit_ok:
  assumes "params_ok p" "limit \<le> max_usage p * max_multiplier p"
  shows "\<exists>l. update_elastic_limit limit avg p = Inr l \<and> max_usage p \<le> l \<and> l \<le> max_usage p * max_multiplier p"
proof -
  let ?r = "if avg > target p then contract_rate p else expand_rate p"
  have d: "0 < denominator ?r" using assms(1) by (simp add: params_ok_def)
  have "limit * numerator ?r \<le> max_usage p * max_multiplier p * (1 + numerator (contract_rate p) + numerator (expand_rate p))"
    using assms(2) by (intro mult_le_mono) simp_all
  also have "\<dots> < 2 ^ 64" using assms(1) by (simp add: params_ok_def)
  finally have "limit * numerator ?r \<le> UINT64_MAX" unfolding UINT64_MAX_def by simp
  then have r: "ratio_mult limit ?r = Inr (limit * numerator ?r div denominator ?r)"
    using d by (rule ratio_mult_ok)
  have "max_usage p * max_multiplier p \<le> max_usage p * max_multiplier p * (1 + numerator (contract_rate p) + numerator (expand_rate p))"
    by simp
  with assms(1) have "max_usage p * max_multiplier p < 2 ^ 64" unfolding params_ok_def by linarith
  then have u: "u64 (max_usage p * max_multiplier p) = max_usage p * max_multiplier p" by (rule u64_id)
  have "max_usage p \<le> max_usage p * max_multiplier p" using assms(1) by (simp add: params_ok_def)
  with r u show ?thesis unfolding update_elastic_limit_def by (simp only: bindR_Inr) auto
qed

lemma meter_step:
  assumes m: "meter_ok p a limit pending" and o: "last_ordinal a < num" "num < 2 ^ 32"
  obtains a' limit' where "usage_add pending num (periods p) a = Inr a'"
    "update_elastic_limit limit (average a') p = Inr limit'"
    "meter_ok p a' limit' 0" "last_ordinal a' = num"
proof -
  let ?P = rate_limiting_precision and ?M = "max_usage p" and ?w = "periods p"
  let ?B = "?M * ?P + ?w"
  have p: "params_ok p" "0 < ?w" "?w < 2 ^ 32" and v: "value_ex a \<le> ?B" "consumed a \<le> ?B + ?M"
    and pe: "pending \<le> ?M" and b: "?B * (?w + 1) < 2 ^ 64"
    using m by (simp_all add: meter_ok_def params_ok_def)
  have b2: "?B + ?B < 2 ^ 64" "?B * ?w < 2 ^ 64"
    using b p(2) mult_le_mono2 [of 2 "?w + 1" ?B] by (simp_all add: algebra_simps)
  have up: "pending * ?P \<le> ?M * ?P" using pe by simp
  have "?M + ?M \<le> ?M * ?P" by (simp add: rate_limiting_precision_def)
  then have c: "consumed a + pending < 2 ^ 64" using v(2) pe b2(1) by linarith
  have "value_ex a * ?w \<le> ?B * ?w" using v(1) by simp
  then have vw: "value_ex a * ?w < 2 ^ 64" using b2(2) by linarith
  have "integer_divide_ceil (pending * ?P) ?w \<le> pending * ?P"
    using p(2) by (subst ceil_le_iff) simp_all
  then have vc: "value_ex a + integer_divide_ceil (pending * ?P) ?w < 2 ^ 64" using v(1) up b2(1) by linarith
  have aok: "acc_ok a" using m v c vw p(2) b2 unfolding acc_ok_def meter_ok_def by linarith
  have add: "usage_add pending num ?w a = Inr (ema_add pending num ?w a)"
    using o up b2(1) by (intro usage_add_total [OF aok _ o(2) p(2,3) _ c vw vc]) linarith+
  obtain l where l: "update_elastic_limit limit (average (ema_add pending num ?w a)) p = Inr l"
      "?M \<le> l" "l \<le> ?M * max_multiplier p"
    using update_elastic_limit_ok [OF p(1)] m by (auto simp: meter_ok_def)
  show thesis
  proof (rule that [OF add l(1)])
    show "meter_ok p (ema_add pending num ?w a) l 0"
      using p(1) l(2,3) ema_bound [OF p(2) o(1) pe v(1)] ema_consumed_bound [OF p(2) o(1) pe v(1)] o(2)
      by (simp add: meter_ok_def) (simp add: ema_add_def Let_def)
    show "last_ordinal (ema_add pending num ?w a) = num" by (simp add: ema_add_def Let_def)
  qed
qed

section \<open>Totals\<close>

text \<open>The positive part of a field, summed over the rows in effect.\<close>

definition pos_sum :: "('v \<Rightarrow> int) \<Rightarrow> ('k \<times> 'v) list \<Rightarrow> nat" where
  "pos_sum f m = (\<Sum>(k, l) \<leftarrow> m. nat (f l))"

lemma pos_sum_put:
  assumes "sorted_keys m"
  shows "pos_sum f (map_put k v m) + (case map_of m k of None \<Rightarrow> 0 | Some l \<Rightarrow> nat (f l))
       = pos_sum f m + nat (f v)"
  using assms
proof (induction k v m rule: map_put.induct)
  case (2 k v k' v' m)
  have s: "sorted_keys m" and lt: "\<forall>x \<in> fst ` set m. k' < x"
    using "2.prems" by (auto simp: sorted_keys_def)
  consider "k < k'" | "k = k'" | "k' < k" by (rule linorder_less_linear [THEN disjE]) auto
  then show ?case
  proof cases
    case 1
    then have "map_of m k = None" using lt by (auto simp: map_of_eq_None_iff)
    with 1 show ?thesis by (simp add: pos_sum_def)
  next
    case 3
    with "2.IH" s show ?thesis by (simp add: pos_sum_def)
  qed (simp add: pos_sum_def)
qed (simp add: pos_sum_def)

lemma pos_sum_mem:
  assumes "sorted_keys m" "map_of m k = Some l"
  shows "nat (f l) \<le> pos_sum f m"
proof -
  have "(k, l) \<in> set m" using assms(2) by (rule map_of_SomeD)
  then show ?thesis unfolding pos_sum_def by (induction m) auto
qed

lemma update_total_eq:
  assumes "tot < 2 ^ 64" "is_i64 v" "is_i64 p"
  shows "update_total tot v p = Inr r \<longleftrightarrow> nat v \<le> tot \<and> tot - nat v + nat p < 2 ^ 64 \<and> r = tot - nat v + nat p"
proof -
  have v: "to_u64 x = nat x" if "is_i64 x" "0 < x" for x
    using that by (simp add: to_u64_def is_i64_def)
  have s: "u64_sub UINT64_MAX t = UINT64_MAX - t" if "t \<le> tot" for t
    using that assms(1) by (simp add: UINT64_MAX_def u64_sub_id)
  have "bindR (if v > 0 then bes_assert (tot \<ge> to_u64 v) rate_limiting_state_inconsistent
            (Inr (u64_sub tot (to_u64 v))) else Inr tot) k
      = bes_assert (nat v \<le> tot) rate_limiting_state_inconsistent (k (tot - nat v))" for k :: "nat \<Rightarrow> nat result"
    using assms(1,2) by (cases "nat v \<le> tot") (auto simp: v u64_sub_id)
  moreover have "(if p > 0 then bes_assert (u64_sub UINT64_MAX t \<ge> to_u64 p) rate_limiting_state_inconsistent
             (Inr (u64 (t + to_u64 p))) else Inr t) = Inr r \<longleftrightarrow> t + nat p < 2 ^ 64 \<and> r = t + nat p"
    if "t \<le> tot" for t
  proof (cases "p > 0")
    case True
    have "nat p \<le> UINT64_MAX - t \<longleftrightarrow> t + nat p < 2 ^ 64"
      using that assms(1) unfolding UINT64_MAX_def by auto
    with True that assms(3) show ?thesis by (auto simp: v s result_simps u64_id)
  next
    case False
    with that assms(1) show ?thesis by auto
  qed
  ultimately show ?thesis unfolding update_total_def by (auto simp: result_simps)
qed

definition row_ok :: "resource_limits_object \<Rightarrow> bool" where
  "row_ok l \<longleftrightarrow> is_i64 (net_weight l) \<and> is_i64 (cpu_weight l) \<and> is_i64 (ram_bytes l)"

definition totals_ok :: "resource_db \<Rightarrow> bool" where
  "totals_ok db \<longleftrightarrow> sorted_keys (limits db) \<and> sorted_keys (pending_limits db)
     \<and> fst ` set (pending_limits db) \<subseteq> fst ` set (limits db)
     \<and> (\<forall>(a, l) \<in> set (limits db) \<union> set (pending_limits db). row_ok l)
     \<and> total_ram_bytes (rl_state db) = pos_sum ram_bytes (limits db)
     \<and> total_cpu_weight (rl_state db) = pos_sum cpu_weight (limits db)
     \<and> total_net_weight (rl_state db) = pos_sum net_weight (limits db)
     \<and> pos_sum ram_bytes (limits db) < 2 ^ 64
     \<and> pos_sum cpu_weight (limits db) < 2 ^ 64 \<and> pos_sum net_weight (limits db) < 2 ^ 64"

lemma set_map_put_subset: "set (map_put k v m) \<subseteq> insert (k, v) (set m)"
  by (induction k v m rule: map_put.induct) auto

lemma set_map_del: "set (map_del k m) \<subseteq> set m"
  by (auto simp: map_del_def)

lemma update_total_sum:
  assumes s: "sorted_keys m" and l: "map_of m a = Some l" and "is_i64 (f l)" "is_i64 (f p)" "pos_sum f m < 2 ^ 64"
    and u: "update_total (pos_sum f m) (f l) (f p) = Inr r"
  shows "r = pos_sum f (map_put a p m) \<and> r < 2 ^ 64"
proof -
  have "nat (f l) \<le> pos_sum f m" "pos_sum f m - nat (f l) + nat (f p) < 2 ^ 64" "r = pos_sum f m - nat (f l) + nat (f p)"
    using u unfolding update_total_eq [OF assms(5,3,4)] by blast+
  moreover have "pos_sum f (map_put a p m) + nat (f l) = pos_sum f m + nat (f p)"
    using pos_sum_put [OF s, of f a p] l by simp
  ultimately show ?thesis by linarith
qed

lemma apply_pending_ok:
  assumes ok: "totals_ok db" and mem: "(a, p) \<in> set (pending_limits db)" and e: "apply_pending (a, p) db = Inr db'"
  shows "totals_ok db'" "pending_limits db' = map_del a (pending_limits db)"
    "limits db' = map_put a p (limits db)"
proof -
  obtain l ram cpu net where l: "map_of (limits db) a = Some l"
    and u: "update_total (total_ram_bytes (rl_state db)) (ram_bytes l) (ram_bytes p) = Inr ram"
      "update_total (total_cpu_weight (rl_state db)) (cpu_weight l) (cpu_weight p) = Inr cpu"
      "update_total (total_net_weight (rl_state db)) (net_weight l) (net_weight p) = Inr net"
    and db': "db' = db\<lparr>limits := map_put a p (limits db), pending_limits := map_del a (pending_limits db),
        rl_state := (rl_state db)\<lparr>total_ram_bytes := ram, total_cpu_weight := cpu, total_net_weight := net\<rparr>\<rparr>"
    using e by (auto simp: apply_pending_def result_simps)
  show "pending_limits db' = map_del a (pending_limits db)" "limits db' = map_put a p (limits db)"
    by (simp_all add: db')
  have s: "sorted_keys (limits db)" using ok by (simp add: totals_ok_def)
  have "(a, l) \<in> set (limits db)" using l by (rule map_of_SomeD)
  then have r: "row_ok l" "row_ok p" using ok mem by (auto simp: totals_ok_def)
  have t: "total_ram_bytes (rl_state db) = pos_sum ram_bytes (limits db)"
    "total_cpu_weight (rl_state db) = pos_sum cpu_weight (limits db)"
    "total_net_weight (rl_state db) = pos_sum net_weight (limits db)"
    "pos_sum ram_bytes (limits db) < 2 ^ 64" "pos_sum cpu_weight (limits db) < 2 ^ 64"
    "pos_sum net_weight (limits db) < 2 ^ 64"
    using ok by (simp_all add: totals_ok_def)
  have sums: "ram = pos_sum ram_bytes (map_put a p (limits db)) \<and> ram < 2 ^ 64"
    "cpu = pos_sum cpu_weight (map_put a p (limits db)) \<and> cpu < 2 ^ 64"
    "net = pos_sum net_weight (map_put a p (limits db)) \<and> net < 2 ^ 64"
    using update_total_sum [OF s l _ _ t(4) u(1) [unfolded t(1)]] update_total_sum [OF s l _ _ t(5) u(2) [unfolded t(2)]]
      update_total_sum [OF s l _ _ t(6) u(3) [unfolded t(3)]] r unfolding row_ok_def by blast+
  have "fst ` set (map_del a (pending_limits db)) \<subseteq> fst ` set (map_put a p (limits db))"
    using ok set_map_del [of a "pending_limits db"] unfolding totals_ok_def set_map_fst_map_put by auto
  moreover have "\<forall>(a, l) \<in> set (map_put a p (limits db)) \<union> set (map_del a (pending_limits db)). row_ok l"
    using ok r set_map_del [of a "pending_limits db"] set_map_put_subset [of a p "limits db"]
    unfolding totals_ok_def by blast
  ultimately show "totals_ok db'"
    using ok sums by (simp add: totals_ok_def db')
qed

lemma process_updates_fold:
  assumes "totals_ok db" "pending_limits db = rows" "foldR apply_pending rows db = Inr db'"
  shows "totals_ok db' \<and> pending_limits db' = [] \<and> map_of (limits db') = map_of (limits db) ++ map_of rows"
  using assms
proof (induction rows arbitrary: db)
  case (Cons row rows)
  obtain a p where row: "row = (a, p)" by force
  from Cons.prems(3) obtain db1 where 1: "apply_pending (a, p) db = Inr db1" "foldR apply_pending rows db1 = Inr db'"
    by (auto simp: result_simps row)
  have mem: "(a, p) \<in> set (pending_limits db)" by (simp add: Cons.prems(2) row)
  note ap = apply_pending_ok [OF Cons.prems(1) mem 1(1)]
  have s: "sorted_keys (limits db)" "sorted_keys (row # rows)" using Cons.prems(1,2) by (auto simp: totals_ok_def)
  have fresh: "a \<notin> fst ` set rows" using sorted_keys_distinct [OF s(2)] by (simp add: row)
  then have "pending_limits db1 = rows"
    unfolding ap(2) Cons.prems(2) map_del_def row by (force simp: filter_id_conv)
  from Cons.IH [OF ap(1) this 1(2)] have "totals_ok db' \<and> pending_limits db' = []
      \<and> map_of (limits db') = (map_of (limits db))(a \<mapsto> p) ++ map_of rows"
    unfolding ap(3) map_of_map_put [OF s(1)] .
  moreover have "map_of rows a = None" using fresh by (simp add: map_of_eq_None_iff)
  then have "(map_of (limits db))(a \<mapsto> p) ++ map_of rows = map_of (limits db) ++ map_of (row # rows)"
    by (auto simp: row map_add_def fun_eq_iff split: option.splits)
  ultimately show ?case by (simp only:)
qed simp

section \<open>The accounting machine\<close>

definition meters_ok :: "resource_db \<Rightarrow> bool" where
  "meters_ok db \<longleftrightarrow>
     meter_ok (cpu_limit_parameters (rl_config db)) (average_block_cpu_usage (rl_state db))
       (virtual_cpu_limit (rl_state db)) (pending_cpu_usage (rl_state db))
   \<and> meter_ok (net_limit_parameters (rl_config db)) (average_block_net_usage (rl_state db))
       (virtual_net_limit (rl_state db)) (pending_net_usage (rl_state db))"

text \<open>The operations; blocks come with increasing numbers, which the first component of the state records.\<close>

datatype resource_op =
    Init_Account name
  | Touch "name list" nat
  | Bill "name list" nat nat nat
  | Ram name int
  | Set_Limits name int int int
  | Process_Updates
  | Process_Block nat

fun resource_step :: "nat \<times> resource_db \<Rightarrow> resource_op \<Rightarrow> (nat \<times> resource_db) result" where
  "resource_step (n, db) (Init_Account a) = map_sum id (Pair n) (initialize_account a db)"
| "resource_step (n, db) (Touch as t) = map_sum id (Pair n) (update_account_usage as t db)"
| "resource_step (n, db) (Bill as cpu net t) = map_sum id (Pair n) (add_transaction_usage as cpu net t db)"
| "resource_step (n, db) (Ram a d) = map_sum id (Pair n) (add_pending_ram_usage a d db)"
| "resource_step (n, db) (Set_Limits a ram net cpu) = map_sum id (\<lambda>r. (n, snd r)) (set_account_limits a ram net cpu db)"
| "resource_step (n, db) Process_Updates = map_sum id (Pair n) (process_account_limit_updates db)"
| "resource_step (n, db) (Process_Block k) =
     (if n < k \<and> k < 2 ^ 32 then map_sum id (Pair k) (process_block_usage k db) else Inl unlinkable_block_exception)"

text \<open>The arguments of \<^verbatim>\<open>int64_t\<close> type are 64-bit numbers.\<close>

fun resource_admissible :: "resource_op \<Rightarrow> bool" where
  "resource_admissible (Set_Limits a ram net cpu) \<longleftrightarrow> is_i64 ram \<and> is_i64 net \<and> is_i64 cpu"
| "resource_admissible _ \<longleftrightarrow> True"

definition resource_ok :: "nat \<times> resource_db \<Rightarrow> bool" where
  "resource_ok s \<longleftrightarrow> totals_ok (snd s) \<and> meters_ok (snd s)
     \<and> last_ordinal (average_block_cpu_usage (rl_state (snd s))) \<le> fst s
     \<and> last_ordinal (average_block_net_usage (rl_state (snd s))) \<le> fst s"

text \<open>Billing accounts changes nothing but their usage.\<close>

definition only_usages :: "resource_db \<Rightarrow> resource_db \<Rightarrow> bool" where
  "only_usages db db' \<longleftrightarrow> (\<exists>u. db' = db\<lparr>usages := u\<rparr>)"

lemma only_usages_refl: "only_usages db db"
  unfolding only_usages_def by (rule exI [of _ "usages db"]) simp

lemma only_usages_trans: "only_usages a b \<Longrightarrow> only_usages b c \<Longrightarrow> only_usages a c"
  by (auto simp: only_usages_def)

lemma only_usages_ok:
  assumes "only_usages db db'"
  shows "totals_ok db' \<longleftrightarrow> totals_ok db" "meters_ok db' \<longleftrightarrow> meters_ok db" "rl_state db' = rl_state db"
    "rl_config db' = rl_config db"
proof -
  from assms obtain u where "db' = db\<lparr>usages := u\<rparr>" by (auto simp: only_usages_def)
  then show "totals_ok db' \<longleftrightarrow> totals_ok db" "meters_ok db' \<longleftrightarrow> meters_ok db" "rl_state db' = rl_state db"
    "rl_config db' = rl_config db" by (simp_all add: totals_ok_def meters_ok_def)
qed

lemma add_account_usage_frame: "add_account_usage cpu net t a db = Inr db' \<Longrightarrow> only_usages db db'"
  by (auto simp: add_account_usage_def result_simps only_usages_def)

lemma bill_account_frame: "bill_account cpu net t a db = Inr db' \<Longrightarrow> only_usages db db'"
  by (auto simp: bill_account_def result_simps Let_def dest: add_account_usage_frame)

lemma foldR_only_usages:
  assumes "foldR f xs db = Inr db'" "\<And>x db db'. f x db = Inr db' \<Longrightarrow> only_usages db db'"
  shows "only_usages db db'"
  using assms(1) by (rule foldR_invariant) (auto intro: only_usages_refl only_usages_trans assms(2))

lemma add_transaction_usage_ok:
  assumes "add_transaction_usage as cpu net t db = Inr db'"
  shows "totals_ok db \<Longrightarrow> totals_ok db'" "meters_ok db \<Longrightarrow> meters_ok db'"
    "average_block_cpu_usage (rl_state db') = average_block_cpu_usage (rl_state db)"
    "average_block_net_usage (rl_state db') = average_block_net_usage (rl_state db)"
    "pending_cpu_usage (rl_state db') \<le> max_usage (cpu_limit_parameters (rl_config db'))"
    "pending_net_usage (rl_state db') \<le> max_usage (net_limit_parameters (rl_config db'))"
proof -
  obtain db1 where f: "foldR (bill_account cpu net t) as db = Inr db1"
    and db': "db' = db1\<lparr>rl_state := (rl_state db1)\<lparr>pending_cpu_usage := u64 (pending_cpu_usage (rl_state db1) + cpu),
        pending_net_usage := u64 (pending_net_usage (rl_state db1) + net)\<rparr>\<rparr>"
    and le: "u64 (pending_cpu_usage (rl_state db1) + cpu) \<le> max_usage (cpu_limit_parameters (rl_config db1))"
      "u64 (pending_net_usage (rl_state db1) + net) \<le> max_usage (net_limit_parameters (rl_config db1))"
    using assms by (auto simp: add_transaction_usage_def result_simps Let_def)
  have "only_usages db db1" using f bill_account_frame by (rule foldR_only_usages)
  note u = only_usages_ok [OF this]
  show "totals_ok db \<Longrightarrow> totals_ok db'" using u(1) by (simp add: totals_ok_def db')
  show "meters_ok db \<Longrightarrow> meters_ok db'" using u(2) le by (simp add: meters_ok_def meter_ok_def db')
  show "average_block_cpu_usage (rl_state db') = average_block_cpu_usage (rl_state db)"
    "average_block_net_usage (rl_state db') = average_block_net_usage (rl_state db)" using u(3) by (simp_all add: db')
  show "pending_cpu_usage (rl_state db') \<le> max_usage (cpu_limit_parameters (rl_config db'))"
    "pending_net_usage (rl_state db') \<le> max_usage (net_limit_parameters (rl_config db'))"
    using le by (simp_all add: db')
qed

lemma initialize_account_ok:
  assumes "initialize_account a db = Inr db'" "totals_ok db"
  shows "totals_ok db'"
proof -
  have db': "db' = db\<lparr>limits := map_put a unlimited (limits db), usages := map_put a no_usage (usages db)\<rparr>"
    and n: "map_of (limits db) a = None"
    using assms(1) by (auto simp: initialize_account_def result_simps)
  have s: "sorted_keys (limits db)" using assms(2) by (simp add: totals_ok_def)
  have "pos_sum f (map_put a unlimited (limits db)) = pos_sum f (limits db) + nat (f unlimited)" for f
    using pos_sum_put [OF s, of f a unlimited] n by simp
  moreover have "\<forall>(a, l) \<in> set (map_put a unlimited (limits db)) \<union> set (pending_limits db). row_ok l"
  proof -
    have "row_ok unlimited" by (simp add: row_ok_def unlimited_def is_i64_def)
    then show ?thesis
      using assms(2) set_map_put_subset [of a unlimited "limits db"] unfolding totals_ok_def by blast
  qed
  moreover have "fst ` set (pending_limits db) \<subseteq> fst ` set (map_put a unlimited (limits db))"
    using assms(2) unfolding totals_ok_def set_map_fst_map_put by auto
  ultimately show ?thesis using assms(2) s by (simp add: totals_ok_def db' unlimited_def)
qed

lemma set_account_limits_ok:
  assumes "set_account_limits a ram net cpu db = Inr (b, db')" "totals_ok db" "is_i64 ram" "is_i64 net" "is_i64 cpu"
  shows "totals_ok db'"
proof -
  obtain l where l: "get_account_limits a db = Inr l"
    and db': "db' = db\<lparr>pending_limits := map_put a \<lparr>net_weight = net, cpu_weight = cpu, ram_bytes = ram\<rparr> (pending_limits db)\<rparr>"
    using assms(1) by (auto simp: set_account_limits_def result_simps)
  have "a \<in> fst ` set (limits db)"
    using l assms(2) unfolding get_account_limits_def totals_ok_def
    by (force simp: result_simps split: option.splits dest: map_of_SomeD)
  moreover have "\<forall>(a, l) \<in> set (limits db) \<union> set (map_put a \<lparr>net_weight = net, cpu_weight = cpu, ram_bytes = ram\<rparr> (pending_limits db)). row_ok l"
  proof -
    have "row_ok \<lparr>net_weight = net, cpu_weight = cpu, ram_bytes = ram\<rparr>" using assms(3-5) by (simp add: row_ok_def)
    then show ?thesis
      using assms(2) set_map_put_subset [of a "\<lparr>net_weight = net, cpu_weight = cpu, ram_bytes = ram\<rparr>" "pending_limits db"]
      unfolding totals_ok_def by blast
  qed
  ultimately show ?thesis using assms(2) by (simp add: totals_ok_def db' set_map_fst_map_put)
qed

lemma process_block_ok:
  assumes m: "meters_ok db" and o: "last_ordinal (average_block_cpu_usage (rl_state db)) < k"
    "last_ordinal (average_block_net_usage (rl_state db)) < k" "k < 2 ^ 32"
  obtains db' where "process_block_usage k db = Inr db'" "meters_ok db'" "totals_ok db' \<longleftrightarrow> totals_ok db"
    "last_ordinal (average_block_cpu_usage (rl_state db')) = k" "last_ordinal (average_block_net_usage (rl_state db')) = k"
    "pending_cpu_usage (rl_state db') = 0" "pending_net_usage (rl_state db') = 0"
proof -
  have mc: "meter_ok (cpu_limit_parameters (rl_config db)) (average_block_cpu_usage (rl_state db))
       (virtual_cpu_limit (rl_state db)) (pending_cpu_usage (rl_state db))"
    and mn: "meter_ok (net_limit_parameters (rl_config db)) (average_block_net_usage (rl_state db))
       (virtual_net_limit (rl_state db)) (pending_net_usage (rl_state db))"
    using m by (simp_all add: meters_ok_def)
  obtain ca vc where c: "usage_add (pending_cpu_usage (rl_state db)) k (periods (cpu_limit_parameters (rl_config db)))
        (average_block_cpu_usage (rl_state db)) = Inr ca"
      "update_elastic_limit (virtual_cpu_limit (rl_state db)) (average ca) (cpu_limit_parameters (rl_config db)) = Inr vc"
      "meter_ok (cpu_limit_parameters (rl_config db)) ca vc 0" "last_ordinal ca = k"
    using meter_step [OF mc o(1,3)] by metis
  obtain na vn where n: "usage_add (pending_net_usage (rl_state db)) k (periods (net_limit_parameters (rl_config db)))
        (average_block_net_usage (rl_state db)) = Inr na"
      "update_elastic_limit (virtual_net_limit (rl_state db)) (average na) (net_limit_parameters (rl_config db)) = Inr vn"
      "meter_ok (net_limit_parameters (rl_config db)) na vn 0" "last_ordinal na = k"
    using meter_step [OF mn o(2,3)] by metis
  let ?s = "(rl_state db)\<lparr>average_block_cpu_usage := ca, virtual_cpu_limit := vc, pending_cpu_usage := 0,
      average_block_net_usage := na, virtual_net_limit := vn, pending_net_usage := 0\<rparr>"
  show thesis
    by (rule that [of "db\<lparr>rl_state := ?s\<rparr>"]) (use c n in \<open>simp_all add: process_block_usage_def Let_def meters_ok_def totals_ok_def\<close>)
qed

lemma process_updates_frame:
  assumes "process_account_limit_updates db = Inr db'"
  shows "rl_config db' = rl_config db
    \<and> average_block_cpu_usage (rl_state db') = average_block_cpu_usage (rl_state db)
    \<and> average_block_net_usage (rl_state db') = average_block_net_usage (rl_state db)
    \<and> virtual_cpu_limit (rl_state db') = virtual_cpu_limit (rl_state db)
    \<and> virtual_net_limit (rl_state db') = virtual_net_limit (rl_state db)
    \<and> pending_cpu_usage (rl_state db') = pending_cpu_usage (rl_state db)
    \<and> pending_net_usage (rl_state db') = pending_net_usage (rl_state db)"
  using assms unfolding process_account_limit_updates_def
  by (rule foldR_invariant) (auto simp: apply_pending_def result_simps)

interpretation accounting: guarded_machine resource_step resource_admissible resource_ok
proof
  fix s x t
  assume ok: "resource_ok s" and adm: "resource_admissible x" and st: "resource_step s x = Inr t"
  obtain n db where s: "s = (n, db)" by force
  have inv: "totals_ok db" "meters_ok db"
    "last_ordinal (average_block_cpu_usage (rl_state db)) \<le> n" "last_ordinal (average_block_net_usage (rl_state db)) \<le> n"
    using ok by (simp_all add: resource_ok_def s)
  show "resource_ok t"
  proof (cases x)
    case (Init_Account a)
    then obtain db' where "t = (n, db')" "initialize_account a db = Inr db'"
      using st by (cases "initialize_account a db") (auto simp: s)
    with inv initialize_account_ok [of a db db'] show ?thesis
      by (auto simp: resource_ok_def initialize_account_def result_simps meters_ok_def)
  next
    case (Touch as k)
    then obtain db' where t: "t = (n, db')" "update_account_usage as k db = Inr db'"
      using st by (cases "update_account_usage as k db") (auto simp: s)
    have "only_usages db db'"
      using t(2) unfolding update_account_usage_def by (rule foldR_only_usages) (rule add_account_usage_frame)
    from only_usages_ok [OF this] inv t(1) show ?thesis by (simp add: resource_ok_def)
  next
    case (Bill as cpu net k)
    then obtain db' where "t = (n, db')" "add_transaction_usage as cpu net k db = Inr db'"
      using st by (cases "add_transaction_usage as cpu net k db") (auto simp: s)
    with inv add_transaction_usage_ok [of as cpu net k db db'] show ?thesis by (simp add: resource_ok_def)
  next
    case (Ram a d)
    then obtain db' where t: "t = (n, db')" "add_pending_ram_usage a d db = Inr db'"
      using st by (cases "add_pending_ram_usage a d db") (auto simp: s)
    have "only_usages db db'"
      using t(2) by (auto simp: add_pending_ram_usage_def result_simps only_usages_def intro: only_usages_refl [unfolded only_usages_def] split: if_splits)
    from only_usages_ok [OF this] inv t(1) show ?thesis by (simp add: resource_ok_def)
  next
    case (Set_Limits a ram net cpu)
    then obtain b db' where t: "t = (n, db')" "set_account_limits a ram net cpu db = Inr (b, db')"
      using st by (cases "set_account_limits a ram net cpu db") (auto simp: s)
    have "totals_ok db'" using set_account_limits_ok [OF t(2) inv(1)] adm Set_Limits by simp
    moreover have "rl_state db' = rl_state db" "rl_config db' = rl_config db"
      using t(2) by (auto simp: set_account_limits_def result_simps)
    ultimately show ?thesis using inv t(1) by (simp add: resource_ok_def meters_ok_def)
  next
    case Process_Updates
    then obtain db' where t: "t = (n, db')" "process_account_limit_updates db = Inr db'"
      using st by (cases "process_account_limit_updates db") (auto simp: s)
    have 1: "totals_ok db'"
      using process_updates_fold [OF inv(1) refl] t(2) by (simp add: process_account_limit_updates_def)
    note fr = process_updates_frame [OF t(2)]
    have "meters_ok db'" using inv(2) fr by (simp add: meters_ok_def)
    with 1 inv t(1) fr show ?thesis by (simp add: resource_ok_def)
  next
    case (Process_Block k)
    then obtain db' where t: "t = (k, db')" "process_block_usage k db = Inr db'" "n < k" "k < 2 ^ 32"
      using st by (cases "process_block_usage k db") (auto simp: s split: if_splits)
    then have "last_ordinal (average_block_cpu_usage (rl_state db)) < k" "last_ordinal (average_block_net_usage (rl_state db)) < k"
      using inv by auto
    from process_block_ok [OF inv(2) this t(4)] t(1,2) inv(1) show ?thesis
      by (metis Inr_inject fst_conv order_refl resource_ok_def snd_conv)
  qed
qed

lemma resource_ok_init: "resource_ok (0, initialize_database)"
  by (simp add: resource_ok_def totals_ok_def meters_ok_def meter_ok_def params_ok_def initialize_database_def
      default_config_def new_accumulator_def pos_sum_def rate_limiting_precision_def bes_percent_def u64_def)

section \<open>Properties of resource accounting\<close>





text \<open>
  \<open>process_account_limit_updates\<close> makes every pending limit the limit in effect, leaves no pending limit and
  keeps the totals equal to the sums: an account whose limits changed has its new limits, every other its old ones.
\<close>

theorem process_account_limit_updates_effect:
  assumes "totals_ok db" "process_account_limit_updates db = Inr db'"
  shows "totals_ok db' \<and> pending_limits db' = [] \<and> map_of (limits db') = map_of (limits db) ++ map_of (pending_limits db)"
  using process_updates_fold [OF assms(1) refl] assms(2) by (simp add: process_account_limit_updates_def)

theorem process_account_limit_updates_effect_witness:
  "totals_ok (projr (process_account_limit_updates (initialize_database\<lparr>limits := [(5, unlimited)],
     pending_limits := [(5, \<lparr>net_weight = 1, cpu_weight = 2, ram_bytes = 3\<rparr>)]\<rparr>)))"
proof -
  let ?db = "initialize_database\<lparr>limits := [(5, unlimited)],
     pending_limits := [(5, \<lparr>net_weight = 1, cpu_weight = 2, ram_bytes = 3\<rparr>)]\<rparr>"
  have "totals_ok ?db"
    by (simp add: totals_ok_def initialize_database_def pos_sum_def unlimited_def row_ok_def is_i64_def sorted_keys_def)
  moreover have "process_account_limit_updates ?db = Inr (projr (process_account_limit_updates ?db))"
    by (simp add: process_account_limit_updates_def apply_pending_def initialize_database_def update_total_def
        unlimited_def to_u64_def UINT64_MAX_def u64_sub_def)
  ultimately show ?thesis using process_account_limit_updates_effect by blast
qed

text \<open>
  C22. Memory accounting is exact.  For a 64-bit change of the memory of an existing account,
  \<open>add_pending_ram_usage\<close> throws if and only if the new usage would be negative or not fit into 64
  bits; otherwise the usage of the account changes by exactly the delta, and nothing else changes.
\<close>

theorem add_pending_ram_usage_exact:
  assumes "map_of (usages db) a = Some u" "ram_usage u < 2 ^ 64" "is_i64 d" "sorted_keys (usages db)"
  shows "add_pending_ram_usage a d db =
    (if 0 \<le> int (ram_usage u) + d \<and> int (ram_usage u) + d < 2 ^ 64
     then Inr (if d = 0 then db
               else db\<lparr>usages := map_put a (u\<lparr>ram_usage := nat (int (ram_usage u) + d)\<rparr>) (usages db)\<rparr>)
     else Inl transaction_exception)"
proof -
  consider "d = 0" | "0 < d" | "d < 0" by linarith
  then show ?thesis
  proof cases
    case 1
    with assms show ?thesis by (simp add: add_pending_ram_usage_def)
  next
    case 2
    have t: "to_u64 d = nat d" using 2 assms(3) by (simp add: to_u64_def is_i64_def)
    have "nat d \<le> u64_sub UINT64_MAX (ram_usage u) \<longleftrightarrow> int (ram_usage u) + d < 2 ^ 64"
      using 2 assms(2) by (simp add: UINT64_MAX_def u64_sub_id) linarith
    moreover have "u64 (ram_usage u + nat d) = nat (int (ram_usage u) + d)" if "int (ram_usage u) + d < 2 ^ 64"
    proof -
      have "nat (int (ram_usage u) + d) = ram_usage u + nat d" using 2 by (simp add: nat_add_distrib)
      moreover have "ram_usage u + nat d < 2 ^ 64" using that 2 by simp
      ultimately show ?thesis by (simp add: u64_id)
    qed
    ultimately show ?thesis using 2 assms(1) by (auto simp: add_pending_ram_usage_def get_usage_def t)
  next
    case 3
    have "d mod 2 ^ 64 = (d + 2 ^ 64) mod 2 ^ 64" by simp
    also have "\<dots> = d + 2 ^ 64" using 3 assms(3) by (intro mod_pos_pos_trivial) (simp_all add: is_i64_def)
    finally have t: "to_u64 d = nat (d + 2 ^ 64)" by (simp add: to_u64_def)
    have n: "to_u64 (i64 (- d)) = nat (- d)"
      using 3 assms(3) by (cases "d = - (2 ^ 63)") (auto simp: to_u64_def is_i64_def i64_def)
    have "u64 (ram_usage u + to_u64 d) = nat (int (ram_usage u) + d)" if "0 \<le> int (ram_usage u) + d"
    proof -
      have "ram_usage u + to_u64 d = nat (int (ram_usage u) + d) + 2 ^ 64"
        using that 3 assms(3) unfolding t by (simp add: is_i64_def)
      then show ?thesis using that assms(2) 3 by (simp add: u64_def)
    qed
    moreover have "nat (- d) \<le> ram_usage u \<longleftrightarrow> 0 \<le> int (ram_usage u) + d" by linarith
    ultimately show ?thesis using 3 assms(1,2) by (auto simp: add_pending_ram_usage_def get_usage_def n)
  qed
qed

theorem add_pending_ram_usage_exact_witness:
  "add_pending_ram_usage 5 (-101) (initialize_database\<lparr>usages := [(5, no_usage\<lparr>ram_usage := 100\<rparr>)]\<rparr>)
     = Inl transaction_exception
 \<and> add_pending_ram_usage 5 (-100) (initialize_database\<lparr>usages := [(5, no_usage\<lparr>ram_usage := 100\<rparr>)]\<rparr>)
     = Inr (initialize_database\<lparr>usages := [(5, no_usage)]\<rparr>)"
proof -
  let ?u = "no_usage\<lparr>ram_usage := 100\<rparr>" and ?db = "initialize_database\<lparr>usages := [(5, no_usage\<lparr>ram_usage := 100\<rparr>)]\<rparr>"
  have a: "map_of (usages ?db) 5 = Some ?u" "ram_usage ?u < 2 ^ 64" "sorted_keys (usages ?db)"
    by (simp_all add: sorted_keys_def)
  have "is_i64 (-101)" "is_i64 (-100)" by (simp_all add: is_i64_def)
  note ex = add_pending_ram_usage_exact [OF a(1,2) this(1) a(3)] add_pending_ram_usage_exact [OF a(1,2) this(2) a(3)]
  show ?thesis unfolding ex by (simp add: no_usage_def)
qed

text \<open>
  The moving average is exact.  Whenever adding usage to a well-formed accumulator succeeds, the result is the
  one of exact arithmetic on unbounded numbers: the old average decayed by the elapsed share of the window, rounded
  down, plus the new usage spread over the window, rounded up; no 64-bit or 128-bit operation wraps around.
\<close>

theorem usage_add_exact:
  assumes "acc_ok a" "ordinal < 2 ^ 32" "w < 2 ^ 32" "units < 2 ^ 64" "usage_add units ordinal w a = Inr b"
  shows "b = ema_add units ordinal w a \<and> acc_ok b"
  using usage_add_eq [OF assms] by simp

theorem usage_add_exact_witness:
  "ema_add 12 3 10 \<lparr>last_ordinal = 1, value_ex = 700, consumed = 1\<rparr>
     = \<lparr>last_ordinal = 3, value_ex = 560 + 1200000, consumed = 13\<rparr>"
proof -
  have "usage_add 12 3 10 \<lparr>last_ordinal = 1, value_ex = 700, consumed = 1\<rparr>
      = Inr \<lparr>last_ordinal = 3, value_ex = 560 + 1200000, consumed = 13\<rparr>"
    by (simp add: usage_add_def advance_def max_raw_value_def UINT64_MAX_def rate_limiting_precision_def u64_sub_def
        u32_sub_def u128_def u64_def downgrade_cast_u64_def ratio_mult_def integer_divide_ceil_def average_def Let_def)
  from usage_add_exact [OF _ _ _ _ this] show ?thesis by (simp add: acc_ok_def)
qed


definition small_db :: resource_db where
  "small_db = initialize_database\<lparr>limits := [(5, \<lparr>net_weight = 10, cpu_weight = 10, ram_bytes = 10\<rparr>)],
     usages := [(5, no_usage)],
     rl_state := (rl_state initialize_database)\<lparr>total_cpu_weight := 10, total_net_weight := 10, total_ram_bytes := 10\<rparr>\<rparr>"

lemmas resource_eval = small_db_def initialize_database_def add_transaction_usage_def bill_account_def
  add_account_usage_def get_usage_def get_account_limits_def usage_add_def advance_def no_usage_def new_accumulator_def
  default_config_def max_raw_value_def UINT64_MAX_def rate_limiting_precision_def u64_sub_def u32_sub_def u128_def u64_def
  downgrade_cast_u64_def ratio_mult_def integer_divide_ceil_def average_def Let_def used_in_window_def
  max_user_use_in_window_def bes_percent_def get_account_cpu_limit_ex_def account_limit_def downgrade_cast_i64_def
  INT64_MAX_def used_in_window_ceil_def


text \<open>
  The limits reported for an account are consistent: for an account without a weight all three numbers are -1;
  otherwise the usage is not negative and what is available is the maximum less the usage, or zero when
  the usage exceeds the maximum.
\<close>

theorem get_account_cpu_limit_ex_consistent:
  assumes "get_account_cpu_limit_ex a elastic db = Inr arl" "get_account_limits a db = Inr l"
  shows "if cpu_weight l < 0 \<or> total_cpu_weight (rl_state db) = 0
    then used arl = -1 \<and> available arl = -1 \<and> max_use arl = -1
    else 0 \<le> used arl \<and> 0 \<le> max_use arl \<and> available arl = max 0 (max_use arl - used arl)"
  using assms
  by (auto simp: get_account_cpu_limit_ex_def account_limit_def downgrade_cast_i64_def result_simps Let_def
      split: if_splits)

theorem get_account_cpu_limit_ex_consistent_witness:
  "available (projr (get_account_cpu_limit_ex 5 True small_db))
     = max 0 (max_use (projr (get_account_cpu_limit_ex 5 True small_db))
          - used (projr (get_account_cpu_limit_ex 5 True small_db)))"
proof -
  have 1: "get_account_cpu_limit_ex 5 True small_db = Inr (projr (get_account_cpu_limit_ex 5 True small_db))"
    by (simp add: resource_eval)
  have "get_account_limits 5 small_db = Inr \<lparr>net_weight = 10, cpu_weight = 10, ram_bytes = 10\<rparr>"
    by (simp add: get_account_limits_def small_db_def initialize_database_def)
  from get_account_cpu_limit_ex_consistent [OF 1 this] show ?thesis
    by (simp add: small_db_def initialize_database_def)
qed

end
