(* ===== verification/Authority.thy ===== *)
theory Authority
  imports Keys "HOL-Library.Multiset"
begin

text \<open>
  Authorities and the authority checker: \<^verbatim>\<open>libraries/chain/include/besio/chain/authority.hpp\<close>,
  \<^verbatim>\<open>authority_checker.hpp\<close> and the permission levels of \<^verbatim>\<open>action.hpp\<close>.

  An authority is a threshold and a list of weighted factors: keys, permissions of accounts, waiting times.  The
  checker decides whether provided keys, permissions and a delay reach the threshold, following permissions of
  other accounts recursively up to a depth limit, with a cache of the permissions already decided and a record of the
  keys that were used.  The specification \<open>authorized\<close> is the least fixed point: a permission holds if it was provided,
  or if factors that hold reach the threshold of its authority.
\<close>

section \<open>Permission levels\<close>

datatype permission_level = Permission_Level (actor: name) (permission: name)

instantiation permission_level :: linorder
begin

definition less_permission_level :: "permission_level \<Rightarrow> permission_level \<Rightarrow> bool" where
  "less_permission_level lhs rhs \<longleftrightarrow>
     actor lhs < actor rhs \<or> actor lhs = actor rhs \<and> permission lhs < permission rhs"

definition less_eq_permission_level :: "permission_level \<Rightarrow> permission_level \<Rightarrow> bool" where
  "less_eq_permission_level lhs rhs \<longleftrightarrow>
     actor lhs < actor rhs \<or> actor lhs = actor rhs \<and> permission lhs \<le> permission rhs"

instance
proof
  fix a b c :: permission_level
  show "a < b \<longleftrightarrow> a \<le> b \<and> \<not> b \<le> a"
    by (auto simp: less_permission_level_def less_eq_permission_level_def)
  show "a \<le> a" by (simp add: less_eq_permission_level_def)
  show "a \<le> b \<Longrightarrow> b \<le> c \<Longrightarrow> a \<le> c"
    by (auto simp: less_eq_permission_level_def)
  show "a \<le> b \<Longrightarrow> b \<le> a \<Longrightarrow> a = b"
    by (auto simp: less_eq_permission_level_def permission_level.expand)
  show "a \<le> b \<or> b \<le> a"
    by (auto simp: less_eq_permission_level_def)
qed

end

section \<open>Authorities\<close>

text \<open>Weights are \<^verbatim>\<open>uint16_t\<close>, the threshold is a \<^verbatim>\<open>uint32_t\<close>.\<close>

record permission_level_weight =
  plw_permission :: permission_level
  plw_weight :: nat

record key_weight =
  kw_key :: public_key_type
  kw_weight :: nat

record wait_weight =
  wait_sec :: nat
  ww_weight :: nat

record authority =
  threshold :: nat
  auth_keys :: "key_weight list"
  auth_accounts :: "permission_level_weight list"
  auth_waits :: "wait_weight list"

definition authority_of_key :: "public_key_type \<Rightarrow> nat \<Rightarrow> authority" where
  "authority_of_key k delay_sec =
     (let a = \<lparr>threshold = 1, auth_keys = [\<lparr>kw_key = k, kw_weight = 1\<rparr>], auth_accounts = [], auth_waits = []\<rparr>
      in if delay_sec > 0
         then a\<lparr>threshold := 2, auth_waits := auth_waits a @ [\<lparr>wait_sec = delay_sec, ww_weight = 1\<rparr>]\<rparr>
         else a)"

text \<open>The sizes that an authority is billed for; a packed public key is the index of its variant and 33 bytes.\<close>

definition billable_alignment :: nat where
  "billable_alignment = 16"

definition billable_size_v :: "nat \<Rightarrow> nat" where
  "billable_size_v v = (v + billable_alignment - 1) div billable_alignment * billable_alignment"

definition key_pack_size :: "public_key_type \<Rightarrow> nat" where
  "key_pack_size k = 1 + 33"

definition get_billable_size :: "authority \<Rightarrow> nat" where
  "get_billable_size a =
     (let accounts_size = u64 (length (auth_accounts a) * billable_size_v 24);
          waits_size = u64 (length (auth_waits a) * billable_size_v 16);
          keys_size = fold (\<lambda>k s. u64 (u64 (s + billable_size_v 8) + key_pack_size (kw_key k))) (auth_keys a) 0
      in u64 (u64 (accounts_size + waits_size) + keys_size))"

text \<open>
  The three loops of \<open>validate\<close> have one shape: return false if an entry does not follow its predecessor, else add
  its weight to the \<^verbatim>\<open>uint32_t\<close> total.  \<open>None\<close> is the early return.
\<close>

fun validate_loop :: "('a \<Rightarrow> 'a \<Rightarrow> bool) \<Rightarrow> ('a \<Rightarrow> nat) \<Rightarrow> 'a option \<Rightarrow> 'a list \<Rightarrow> nat \<Rightarrow> nat option" where
  "validate_loop follows weight prev [] total_weight = Some total_weight"
| "validate_loop follows weight prev (x # xs) total_weight =
     (if (case prev of None \<Rightarrow> False | Some p \<Rightarrow> \<not> follows p x) then None
      else validate_loop follows weight (Some x) xs (u32 (total_weight + weight x)))"

definition validate :: "authority \<Rightarrow> bool" where
  "validate auth =
     (if length (auth_keys auth) + length (auth_accounts auth) + length (auth_waits auth) > 65536 then False
      else if threshold auth = 0 then False
      else case validate_loop (\<lambda>p k. kw_key p < kw_key k) kw_weight None (auth_keys auth) 0 of
        None \<Rightarrow> False
      | Some total_weight \<Rightarrow>
         (case validate_loop (\<lambda>p a. \<not> plw_permission p \<ge> plw_permission a) plw_weight None
                 (auth_accounts auth) total_weight of
            None \<Rightarrow> False
          | Some total_weight \<Rightarrow>
             if auth_waits auth \<noteq> [] \<and> wait_sec (hd (auth_waits auth)) = 0 then False
             else (case validate_loop (\<lambda>p w. \<not> wait_sec p \<ge> wait_sec w) ww_weight None
                          (auth_waits auth) total_weight of
                None \<Rightarrow> False
              | Some total_weight \<Rightarrow> total_weight \<ge> threshold auth)))"

section \<open>The authority checker\<close>

datatype meta_permission =
  Account_Factor permission_level_weight | Key_Factor key_weight | Wait_Factor wait_weight

fun meta_weight :: "meta_permission \<Rightarrow> nat" where
  "meta_weight (Account_Factor a) = plw_weight a"
| "meta_weight (Key_Factor k) = kw_weight k"
| "meta_weight (Wait_Factor w) = ww_weight w"

fun meta_which :: "meta_permission \<Rightarrow> nat" where
  "meta_which (Account_Factor _) = 0"
| "meta_which (Key_Factor _) = 1"
| "meta_which (Wait_Factor _) = 2"

definition meta_before :: "meta_permission \<Rightarrow> meta_permission \<Rightarrow> bool" where
  "meta_before lhs rhs \<longleftrightarrow>
     meta_weight lhs > meta_weight rhs \<or> meta_weight lhs = meta_weight rhs \<and> meta_which lhs > meta_which rhs"

text \<open>\<^verbatim>\<open>flat_multiset::insert\<close>: behind the elements that are equivalent to the new one.\<close>

fun meta_insert :: "meta_permission \<Rightarrow> meta_permission list \<Rightarrow> meta_permission list" where
  "meta_insert x [] = [x]"
| "meta_insert x (y # ys) = (if meta_before x y then x # y # ys else y # meta_insert x ys)"

definition meta_permission_set :: "authority \<Rightarrow> meta_permission list" where
  "meta_permission_set auth =
     fold meta_insert (map Account_Factor (auth_accounts auth))
       (fold meta_insert (map Key_Factor (auth_keys auth))
         (fold meta_insert (map Wait_Factor (auth_waits auth)) []))"

datatype permission_cache_status = being_evaluated | permission_unsatisfied | permission_satisfied

type_synonym permission_cache = "permission_level \<rightharpoonup> permission_cache_status"

text \<open>
  The fields of the checker that an evaluation does not change; the field \<^verbatim>\<open>_used_keys\<close>, one flag for each
  provided key, is passed and returned together with the cache.  Both sets are given in ascending order.
\<close>

record authority_checker =
  permission_to_authority :: "permission_level \<Rightarrow> authority result"
  provided_keys :: "public_key_type list"
  provided_permissions :: "permission_level list"
  provided_delay :: int
  recursion_depth_limit :: nat

type_synonym checker_state = "bool list \<times> permission_cache"

definition permission_status_in_cache :: "permission_cache \<Rightarrow> permission_level \<Rightarrow> permission_cache_status option" where
  "permission_status_in_cache permissions level =
     (case permissions level of
        Some s \<Rightarrow> Some s
      | None \<Rightarrow> permissions (Permission_Level (actor level) 0))"

definition initialize_permission_cache :: "authority_checker \<Rightarrow> permission_cache" where
  "initialize_permission_cache chk =
     fold (\<lambda>p c. if c p = None then c(p \<mapsto> permission_satisfied) else c) (provided_permissions chk) Map.empty"

text \<open>\<^verbatim>\<open>boost::find\<close> on the provided keys.\<close>

fun find_index :: "'a \<Rightarrow> 'a list \<Rightarrow> nat option" where
  "find_index x [] = None"
| "find_index x (y # ys) = (if x = y then Some 0 else map_option Suc (find_index x ys))"

text \<open>
  The three operators of \<open>weight_tally_visitor\<close>, the loop over the factors and the private \<open>satisfied\<close>.  A
  failed evaluation reverts the used keys, not the cache.
\<close>

function (sequential) satisfied_at ::
    "authority_checker \<Rightarrow> authority \<Rightarrow> nat \<Rightarrow> checker_state \<Rightarrow> (bool \<times> checker_state) result"
  and tally :: "authority_checker \<Rightarrow> nat \<Rightarrow> nat \<Rightarrow> meta_permission list \<Rightarrow> nat \<Rightarrow> checker_state
      \<Rightarrow> (bool \<times> checker_state) result"
  and visit :: "authority_checker \<Rightarrow> nat \<Rightarrow> meta_permission \<Rightarrow> nat \<Rightarrow> checker_state \<Rightarrow> (nat \<times> checker_state) result" where
  "satisfied_at chk auth depth st =
     bindR (tally chk (threshold auth) depth (meta_permission_set auth) 0 st) (\<lambda>(r, st').
       Inr (r, if r then st' else (fst st, snd st')))"
| "tally chk thr depth [] total_weight st = Inr (False, st)"
| "tally chk thr depth (p # ps) total_weight st =
     bindR (visit chk depth p total_weight st) (\<lambda>(total_weight, st).
       if total_weight \<ge> thr then Inr (True, st) else tally chk thr depth ps total_weight st)"
| "visit chk depth (Wait_Factor w) total_weight st =
     Inr (if provided_delay chk \<ge> seconds (int (wait_sec w)) then u32 (total_weight + ww_weight w) else total_weight, st)"
| "visit chk depth (Key_Factor k) total_weight st =
     (case find_index (kw_key k) (provided_keys chk) of
        Some i \<Rightarrow> Inr (u32 (total_weight + kw_weight k), ((fst st)[i := True], snd st))
      | None \<Rightarrow> Inr (total_weight, st))"
| "visit chk depth (Account_Factor a) total_weight st =
     (case permission_status_in_cache (snd st) (plw_permission a) of
        None \<Rightarrow>
          if depth < recursion_depth_limit chk then
            (case permission_to_authority chk (plw_permission a) of
               Inl e \<Rightarrow> if e = permission_query_exception then Inr (total_weight, st) else Inl e
             | Inr auth \<Rightarrow>
                 bindR (satisfied_at chk auth (depth + 1)
                          (fst st, (snd st)(plw_permission a \<mapsto> being_evaluated))) (\<lambda>(r, st).
                   if r then Inr (u32 (total_weight + plw_weight a),
                                  (fst st, (snd st)(plw_permission a \<mapsto> permission_satisfied)))
                   else Inr (total_weight, (fst st, (snd st)(plw_permission a \<mapsto> permission_unsatisfied)))))
          else Inr (total_weight, st)
      | Some s \<Rightarrow> Inr (if s = permission_satisfied then u32 (total_weight + plw_weight a) else total_weight, st))"
  by pat_completeness auto

termination
  by (relation "inv_image (less_than <*lex*> less_than <*lex*> less_than)
     (\<lambda>x. case x of
        Inl (chk, auth, depth, st) \<Rightarrow> (recursion_depth_limit chk - depth, 2, 0)
      | Inr (Inl (chk, thr, depth, ps, t, st)) \<Rightarrow> (recursion_depth_limit chk - depth, 1, length ps)
      | Inr (Inr (chk, depth, p, t, st)) \<Rightarrow> (recursion_depth_limit chk - depth, 0, 0))") auto

text \<open>
  The public \<open>satisfied\<close> for a permission, for a permission with another delay, and for an authority; each starts with
  a fresh cache when the caller gives none.
\<close>

definition satisfied :: "authority_checker \<Rightarrow> permission_level \<Rightarrow> bool list \<Rightarrow> (bool \<times> bool list) result" where
  "satisfied chk p used =
     bindR (visit chk 0 (Account_Factor \<lparr>plw_permission = p, plw_weight = 1\<rparr>) 0
              (used, initialize_permission_cache chk)) (\<lambda>(w, used, cache). Inr (w > 0, used))"

definition satisfied_delay :: "authority_checker \<Rightarrow> permission_level \<Rightarrow> int \<Rightarrow> bool list \<Rightarrow> (bool \<times> bool list) result" where
  "satisfied_delay chk p delay used = satisfied (chk\<lparr>provided_delay := delay\<rparr>) p used"

definition satisfied_authority :: "authority_checker \<Rightarrow> authority \<Rightarrow> bool list \<Rightarrow> (bool \<times> bool list) result" where
  "satisfied_authority chk auth used =
     bindR (satisfied_at chk auth 0 (used, initialize_permission_cache chk)) (\<lambda>(r, used, cache). Inr (r, used))"

definition satisfied_authority_delay :: "authority_checker \<Rightarrow> authority \<Rightarrow> int \<Rightarrow> bool list \<Rightarrow> (bool \<times> bool list) result" where
  "satisfied_authority_delay chk auth delay used = satisfied_authority (chk\<lparr>provided_delay := delay\<rparr>) auth used"

definition make_auth_checker :: "(permission_level \<Rightarrow> authority result) \<Rightarrow> nat \<Rightarrow> public_key_type list
    \<Rightarrow> permission_level list \<Rightarrow> int \<Rightarrow> authority_checker \<times> bool list" where
  "make_auth_checker pta limit ks ps delay =
     (\<lparr>permission_to_authority = pta, provided_keys = ks, provided_permissions = ps, provided_delay = delay,
       recursion_depth_limit = limit\<rparr>, replicate (length ks) False)"

definition all_keys_used :: "bool list \<Rightarrow> bool" where
  "all_keys_used used \<longleftrightarrow> list_all id used"

definition filter_data_by_marker :: "'a list \<Rightarrow> bool list \<Rightarrow> bool \<Rightarrow> 'a list" where
  "filter_data_by_marker data markers v = map snd (filter (\<lambda>(m, d). m = v) (zip markers data))"

definition used_keys :: "authority_checker \<Rightarrow> bool list \<Rightarrow> public_key_type list" where
  "used_keys chk used = sort (remdups (filter_data_by_marker (provided_keys chk) used True))"

definition unused_keys :: "authority_checker \<Rightarrow> bool list \<Rightarrow> public_key_type list" where
  "unused_keys chk used = sort (remdups (filter_data_by_marker (provided_keys chk) used False))"

section \<open>Valid authorities\<close>

lemma validate_loop_eq:
  assumes "t + sum_list (map weight xs) < 2 ^ 32" and "transp follows"
  shows "validate_loop follows weight prev xs t =
    (if sorted_wrt follows (case prev of None \<Rightarrow> xs | Some p \<Rightarrow> p # xs)
     then Some (t + sum_list (map weight xs)) else None)"
  using assms(1)
proof (induction xs arbitrary: prev t)
  case (Cons x xs)
  have "u32 (t + weight x) = t + weight x" using Cons.prems by (simp add: u32_def)
  moreover have "sorted_wrt follows (p # x # xs) \<longleftrightarrow> follows p x \<and> sorted_wrt follows (x # xs)" for p
    using assms(2) by (auto dest: transpD)
  ultimately show ?case
    using Cons.IH [of "t + weight x" "Some x"] Cons.prems by (auto split: option.split simp: add.assoc)
qed (simp split: option.split)

lemma sum_weights_le: "(\<And>x. x \<in> set xs \<Longrightarrow> w x \<le> b) \<Longrightarrow> sum_list (map w xs) \<le> length xs * (b :: nat)"
  by (induction xs) (simp_all add: add_le_mono)

text \<open>All factors of an authority, and the type of the weights.\<close>

definition factors :: "authority \<Rightarrow> meta_permission list" where
  "factors auth = map Wait_Factor (auth_waits auth) @ map Key_Factor (auth_keys auth)
     @ map Account_Factor (auth_accounts auth)"

definition weights_ok :: "authority \<Rightarrow> bool" where
  "weights_ok auth \<longleftrightarrow> list_all (\<lambda>f. meta_weight f < 2 ^ 16) (factors auth)"

definition total_weight :: "authority \<Rightarrow> nat" where
  "total_weight auth = sum_list (map meta_weight (factors auth))"

lemma meta_weight_comp [simp]:
  "meta_weight \<circ> Wait_Factor = ww_weight" "meta_weight \<circ> Key_Factor = kw_weight"
  "meta_weight \<circ> Account_Factor = plw_weight"
  by (simp_all add: fun_eq_iff)

lemma total_weight_eq:
  "total_weight auth = sum_list (map ww_weight (auth_waits auth)) + (sum_list (map kw_weight (auth_keys auth))
     + sum_list (map plw_weight (auth_accounts auth)))"
  by (simp add: total_weight_def factors_def)

lemma total_weight_bound:
  assumes "weights_ok auth" "length (factors auth) \<le> 65536"
  shows "total_weight auth < 2 ^ 32"
proof -
  have "meta_weight f \<le> 65535" if "f \<in> set (factors auth)" for f
    using assms(1) that by (fastforce simp: weights_ok_def list_all_iff)
  from sum_weights_le [OF this] have "total_weight auth \<le> length (factors auth) * 65535"
    by (simp add: total_weight_def)
  also have "\<dots> \<le> 65536 * 65535" using assms(2) by simp
  finally show ?thesis by simp
qed

lemma sorted_wrt_positive:
  "sorted_wrt (\<lambda>p w. wait_sec p < wait_sec w) ws \<Longrightarrow>
    (\<forall>w \<in> set ws. 0 < wait_sec w) \<longleftrightarrow> \<not> (ws \<noteq> [] \<and> wait_sec (hd ws) = 0)"
  by (cases ws) auto

lemma validate_factors: "validate auth \<Longrightarrow> length (factors auth) \<le> 65536 \<and> 0 < threshold auth"
  by (auto simp: validate_def factors_def split: if_splits)

text \<open>
  C25. What \<open>validate\<close> accepts: at most 65536 factors, a positive threshold, keys, permissions and waiting times in strictly
  ascending order and so without duplicates, no waiting time of zero, and weights whose sum reaches the threshold.
  The sum is the exact one: with 16-bit weights the 32-bit total cannot wrap around.
\<close>

theorem validate_iff:
  assumes "weights_ok auth"
  shows "validate auth \<longleftrightarrow>
     length (factors auth) \<le> 65536 \<and> 0 < threshold auth
   \<and> sorted_wrt (<) (map kw_key (auth_keys auth)) \<and> sorted_wrt (<) (map plw_permission (auth_accounts auth))
   \<and> sorted_wrt (<) (map wait_sec (auth_waits auth)) \<and> 0 \<notin> wait_sec ` set (auth_waits auth)
   \<and> threshold auth \<le> total_weight auth"
proof (cases "length (factors auth) \<le> 65536")
  case True
  have b: "total_weight auth < 2 ^ 32" using assms True by (rule total_weight_bound)
  have t: "transp (\<lambda>p k. kw_key p < kw_key k)" "transp (\<lambda>p a. plw_permission p < plw_permission a)"
    "transp (\<lambda>p w. wait_sec p < wait_sec w)"
    by (auto intro!: transpI)
  have l: "\<not> 65536 < length (auth_keys auth) + length (auth_accounts auth) + length (auth_waits auth)"
    using True by (simp add: factors_def)
  have k: "validate_loop (\<lambda>p k. kw_key p < kw_key k) kw_weight None (auth_keys auth) 0 =
      (if sorted_wrt (\<lambda>p k. kw_key p < kw_key k) (auth_keys auth)
       then Some (sum_list (map kw_weight (auth_keys auth))) else None)"
    using b by (subst validate_loop_eq [OF _ t(1)]) (simp_all add: total_weight_eq)
  have a: "validate_loop (\<lambda>p a. plw_permission p < plw_permission a) plw_weight None (auth_accounts auth)
        (sum_list (map kw_weight (auth_keys auth))) =
      (if sorted_wrt (\<lambda>p a. plw_permission p < plw_permission a) (auth_accounts auth)
       then Some (sum_list (map kw_weight (auth_keys auth)) + sum_list (map plw_weight (auth_accounts auth))) else None)"
    using b by (subst validate_loop_eq [OF _ t(2)]) (simp_all add: total_weight_eq)
  have w: "validate_loop (\<lambda>p w. wait_sec p < wait_sec w) ww_weight None (auth_waits auth)
        (sum_list (map kw_weight (auth_keys auth)) + sum_list (map plw_weight (auth_accounts auth))) =
      (if sorted_wrt (\<lambda>p w. wait_sec p < wait_sec w) (auth_waits auth) then Some (total_weight auth) else None)"
    using b by (subst validate_loop_eq [OF _ t(3)]) (simp_all add: total_weight_eq)
  show ?thesis
    unfolding validate_def using True l
    by (simp add: k a w not_le sorted_wrt_map) (use sorted_wrt_positive in \<open>fastforce simp: image_iff\<close>)
qed (simp add: validate_def factors_def)

theorem validate_iff_witness:
  "validate (authority_of_key (K1 7) 60) \<and> threshold (authority_of_key (K1 7) 60) \<le> total_weight (authority_of_key (K1 7) 60)"
proof -
  have "weights_ok (authority_of_key (K1 7) 60)"
    by (simp add: weights_ok_def factors_def authority_of_key_def)
  from validate_iff [OF this] show ?thesis
    by (simp add: factors_def total_weight_def authority_of_key_def)
qed

section \<open>What a satisfied authority means\<close>

text \<open>
  The weight that a factor contributes when the permissions in \<open>Q\<close> hold.  A permission holds if it was provided, if the
  whole actor was provided (an empty permission name), or if the factors that hold reach its threshold.
\<close>

fun granted :: "authority_checker \<Rightarrow> permission_level set \<Rightarrow> meta_permission \<Rightarrow> nat" where
  "granted chk Q (Wait_Factor w) = (if seconds (int (wait_sec w)) \<le> provided_delay chk then ww_weight w else 0)"
| "granted chk Q (Key_Factor k) = (if kw_key k \<in> set (provided_keys chk) then kw_weight k else 0)"
| "granted chk Q (Account_Factor a) = (if plw_permission a \<in> Q then plw_weight a else 0)"

definition granted_weight :: "authority_checker \<Rightarrow> permission_level set \<Rightarrow> authority \<Rightarrow> nat" where
  "granted_weight chk Q auth = sum_list (map (granted chk Q) (factors auth))"

inductive authorized :: "authority_checker \<Rightarrow> permission_level \<Rightarrow> bool" for chk where
  authorized_provided: "p \<in> set (provided_permissions chk) \<Longrightarrow> authorized chk p"
| authorized_wildcard: "authorized chk (Permission_Level (actor p) 0) \<Longrightarrow> authorized chk p"
| authorized_derived: "permission_to_authority chk p = Inr auth \<Longrightarrow> \<forall>q \<in> Q. authorized chk q \<Longrightarrow>
    threshold auth \<le> granted_weight chk Q auth \<Longrightarrow> authorized chk p"

lemma mset_meta_insert: "mset (meta_insert x xs) = add_mset x (mset xs)"
  by (induction xs) auto

lemma mset_fold_meta_insert: "mset (fold meta_insert xs ys) = mset xs + mset ys"
  by (induction xs arbitrary: ys) (simp_all add: mset_meta_insert)

lemma mset_meta_permission_set: "mset (meta_permission_set auth) = mset (factors auth)"
  by (simp add: meta_permission_set_def factors_def mset_fold_meta_insert)

lemma sum_meta_permission_set:
  "sum_list (map f (meta_permission_set auth)) = sum_list (map (f :: meta_permission \<Rightarrow> nat) (factors auth))"
proof -
  have "sum_list (map f xs) = sum_mset (image_mset f (mset xs))" for xs
    by (simp add: sum_mset_sum_list flip: mset_map)
  then show ?thesis by (simp add: mset_meta_permission_set)
qed

lemma find_index_Some: "find_index x xs = Some i \<Longrightarrow> i < length xs \<and> xs ! i = x"
  by (induction x xs arbitrary: i rule: find_index.induct) (auto split: if_splits)

lemma find_index_None: "find_index x xs = None \<longleftrightarrow> x \<notin> set xs"
  by (induction x xs rule: find_index.induct) auto

lemma find_index_iff: "(\<exists>i. find_index x xs = Some i) \<longleftrightarrow> x \<in> set xs"
  using find_index_None [of x xs] by (cases "find_index x xs") auto

definition cache_sound :: "authority_checker \<Rightarrow> checker_state \<Rightarrow> bool" where
  "cache_sound chk st \<longleftrightarrow> (\<forall>p. snd st p = Some permission_satisfied \<longrightarrow> authorized chk p)"

lemma cache_sound_status:
  "cache_sound chk st \<Longrightarrow> permission_status_in_cache (snd st) p = Some permission_satisfied \<Longrightarrow> authorized chk p"
  by (auto simp: cache_sound_def permission_status_in_cache_def split: option.splits intro: authorized_wildcard)

lemma initialize_cache_eq:
  "initialize_permission_cache chk p =
     (if p \<in> set (provided_permissions chk) then Some permission_satisfied else None)"
proof -
  have "fold (\<lambda>p c. if c p = None then c(p \<mapsto> permission_satisfied) else c) ps c p =
      (if c p \<noteq> None then c p else if p \<in> set ps then Some permission_satisfied else None)" for ps c
    by (induction ps arbitrary: c) auto
  then show ?thesis by (simp add: initialize_permission_cache_def)
qed

lemma cache_sound_init: "cache_sound chk (used, initialize_permission_cache chk)"
  by (auto simp: cache_sound_def initialize_cache_eq intro: authorized_provided)

lemma u32_le: "u32 n \<le> n"
  by (simp add: u32_def)

abbreviation (input) holds :: "authority_checker \<Rightarrow> permission_level set" where
  "holds chk \<equiv> {q. authorized chk q}"

declare satisfied_at.simps [simp del]

lemma sound:
  "\<forall>r st'. satisfied_at chk auth depth st = Inr (r, st') \<longrightarrow> cache_sound chk st \<longrightarrow>
     cache_sound chk st' \<and> (r \<longrightarrow> threshold auth \<le> granted_weight chk (holds chk) auth)"
  "\<forall>r st'. tally chk thr depth ps t st = Inr (r, st') \<longrightarrow> cache_sound chk st \<longrightarrow>
     cache_sound chk st' \<and> (r \<longrightarrow> thr \<le> t + sum_list (map (granted chk (holds chk)) ps))"
  "\<forall>t' st'. visit chk depth p t st = Inr (t', st') \<longrightarrow> cache_sound chk st \<longrightarrow>
     cache_sound chk st' \<and> t' \<le> t + granted chk (holds chk) p"
proof (induction chk auth depth st and chk thr depth ps t st and chk depth p t st
    rule: satisfied_at_tally_visit.induct)
  case (1 chk auth depth st)
  then show ?case
    by (auto simp: satisfied_at.simps granted_weight_def sum_meta_permission_set cache_sound_def result_simps split: prod.splits)
next
  case (2 chk thr depth t st)
  then show ?case by simp
next
  case (3 chk thr depth p ps t st)
  show ?case
  proof (intro allI impI)
    fix r st'
    assume a: "tally chk thr depth (p # ps) t st = Inr (r, st')" "cache_sound chk st"
    then obtain t1 st1 where v: "visit chk depth p t st = Inr (t1, st1)"
      and r: "(if thr \<le> t1 then Inr (True, st1) else tally chk thr depth ps t1 st1) = Inr (r, st')"
      by (auto simp: result_simps)
    have s: "cache_sound chk st1" "t1 \<le> t + granted chk (holds chk) p" using 3(1) v a(2) by blast+
    show "cache_sound chk st' \<and> (r \<longrightarrow> thr \<le> t + sum_list (map (granted chk (holds chk)) (p # ps)))"
    proof (cases "thr \<le> t1")
      case True
      with r s show ?thesis by auto
    next
      case False
      with r have "tally chk thr depth ps t1 st1 = Inr (r, st')" by simp
      with 3(2) [OF False] s(1) have "cache_sound chk st'"
        "r \<Longrightarrow> thr \<le> t1 + sum_list (map (granted chk (holds chk)) ps)" by blast+
      with s(2) show ?thesis by force
    qed
  qed
next
  case (4 chk depth w t st)
  then show ?case by (auto simp: u32_le)
next
  case (5 chk depth k t st)
  then show ?case
    using find_index_iff [of "kw_key k" "provided_keys chk"]
    by (auto simp: u32_le cache_sound_def split: option.splits)
next
  case (6 chk depth a t st)
  let ?p = "plw_permission a"
  show ?case
  proof (intro allI impI)
    fix t' st'
    assume a: "visit chk depth (Account_Factor a) t st = Inr (t', st')" "cache_sound chk st"
    show "cache_sound chk st' \<and> t' \<le> t + granted chk (holds chk) (Account_Factor a)"
    proof (cases "permission_status_in_cache (snd st) ?p")
      case (Some s)
      with a cache_sound_status [OF a(2), of ?p] show ?thesis by (auto simp: u32_le split: if_splits)
    next
      case None
      show ?thesis
      proof (cases "depth < recursion_depth_limit chk")
        case False
        with a None show ?thesis by simp
      next
        case True
        show ?thesis
        proof (cases "permission_to_authority chk ?p")
          case (Inl e)
          with a None True show ?thesis by (simp split: if_splits)
        next
          case (Inr auth)
          let ?s = "(fst st, (snd st)(?p \<mapsto> being_evaluated))"
          obtain r st1 where sat: "satisfied_at chk auth (depth + 1) ?s = Inr (r, st1)"
            and r: "(t', st') = (if r then (u32 (t + plw_weight a), (fst st1, (snd st1)(?p \<mapsto> permission_satisfied)))
               else (t, (fst st1, (snd st1)(?p \<mapsto> permission_unsatisfied))))"
            using a(1) None True Inr by (auto simp: result_simps split: if_splits)
          have "cache_sound chk ?s" using a(2) by (simp add: cache_sound_def)
          with 6(1) [OF None True Inr] sat have s: "cache_sound chk st1"
            "r \<Longrightarrow> threshold auth \<le> granted_weight chk (holds chk) auth" by blast+
          have "authorized chk ?p" if r using s(2) [OF that] by (intro authorized_derived [OF Inr]) auto
          with s(1) r show ?thesis by (auto simp: cache_sound_def u32_le split: if_splits)
        qed
      qed
    qed
  qed
qed

lemma satisfied_authorized:
  assumes "satisfied chk p used = Inr (True, used')"
  shows "authorized chk p"
proof -
  let ?f = "Account_Factor \<lparr>plw_permission = p, plw_weight = 1\<rparr>"
  obtain w st where v: "visit chk 0 ?f 0 (used, initialize_permission_cache chk) = Inr (w, st)" "w > 0"
    using assms by (auto simp: satisfied_def result_simps)
  have "w \<le> 0 + granted chk (holds chk) ?f"
    using sound(3) [of chk 0 ?f 0 "(used, initialize_permission_cache chk)"] v(1) cache_sound_init by blast
  with v(2) show ?thesis by (simp split: if_splits)
qed

text \<open>
  C23. The checker is sound.  If \<open>satisfied\<close> accepts a permission, then the permission follows from what was provided: it is
  derivable from the provided keys, permissions and delay by the authorities of the permissions, with exact weights.
  The cache, the depth limit, cycles of permissions and the 32-bit sum never make it accept more.
\<close>

theorem satisfied_sound:
  assumes "satisfied chk p used = Inr (True, used')"
  shows "authorized chk p"
  using assms by (rule satisfied_authorized)

section \<open>When the checker accepts\<close>

text \<open>
  The permissions that were provided directly, or by providing their whole actor; the cache never changes for them.
\<close>

definition directly_provided :: "authority_checker \<Rightarrow> permission_level set" where
  "directly_provided chk = {p. p \<in> set (provided_permissions chk)
     \<or> Permission_Level (actor p) 0 \<in> set (provided_permissions chk)}"

definition cache_keeps :: "authority_checker \<Rightarrow> permission_cache \<Rightarrow> bool" where
  "cache_keeps chk c \<longleftrightarrow> (\<forall>p \<in> directly_provided chk. c p = initialize_permission_cache chk p)"

definition only_missing :: "authority_checker \<Rightarrow> bool" where
  "only_missing chk \<longleftrightarrow> (\<forall>p e. permission_to_authority chk p = Inl e \<longrightarrow> e = permission_query_exception)"

lemma cache_keeps_status:
  assumes "cache_keeps chk c" "p \<in> directly_provided chk"
  shows "permission_status_in_cache c p = Some permission_satisfied"
proof -
  have "c (Permission_Level (actor p) 0) = Some permission_satisfied" if "p \<notin> set (provided_permissions chk)"
    using assms that by (auto simp: cache_keeps_def directly_provided_def initialize_cache_eq)
  then show ?thesis
    using assms by (auto simp: cache_keeps_def permission_status_in_cache_def initialize_cache_eq split: option.splits)
qed

lemma cache_keeps_upd: "cache_keeps chk c \<Longrightarrow> q \<notin> directly_provided chk \<Longrightarrow> cache_keeps chk (c(q \<mapsto> s))"
  by (auto simp: cache_keeps_def)

text \<open>
  An evaluation throws nothing if looking up a permission throws nothing but \<^verbatim>\<open>permission_query_exception\<close>, and in
  the result the used keys have the same length, no used key has become unused, and a failure has used no key.
\<close>

definition keys_grow :: "bool list \<Rightarrow> bool list \<Rightarrow> bool" where
  "keys_grow us vs \<longleftrightarrow> list_all2 (\<longrightarrow>) us vs"

lemma keys_grow_refl [simp]: "keys_grow us us"
  by (simp add: keys_grow_def list_all2_same)

lemma keys_grow_trans [trans]: "keys_grow us vs \<Longrightarrow> keys_grow vs ws \<Longrightarrow> keys_grow us ws"
  unfolding keys_grow_def by (rule list_all2_trans) auto

lemma keys_grow_update [simp]: "keys_grow us (us[i := True])"
  by (simp add: keys_grow_def list_all2_conv_all_nth) (metis nth_list_update_eq nth_list_update_neq)

definition good_step :: "authority_checker \<Rightarrow> checker_state \<Rightarrow> checker_state \<Rightarrow> bool" where
  "good_step chk st st' \<longleftrightarrow> keys_grow (fst st) (fst st') \<and> (cache_keeps chk (snd st) \<longrightarrow> cache_keeps chk (snd st'))"

lemma good_step_refl [simp]: "good_step chk st st"
  by (simp add: good_step_def)

lemma good_step_trans: "good_step chk st st1 \<Longrightarrow> good_step chk st1 st2 \<Longrightarrow> good_step chk st st2"
  by (auto simp: good_step_def intro: keys_grow_trans)

lemma tally_ConsE:
  assumes "tally chk thr d (p # ps) t st = Inr (r, st')"
  obtains t1 st1 where "visit chk d p t st = Inr (t1, st1)" "thr \<le> t1 \<longrightarrow> st' = st1"
    "\<not> thr \<le> t1 \<longrightarrow> tally chk thr d ps t1 st1 = Inr (r, st')"
  using assms that by (auto simp: result_simps split: if_splits)

lemma steps:
  "\<forall>r st'. satisfied_at chk auth depth st = Inr (r, st') \<longrightarrow> good_step chk st st' \<and> (\<not> r \<longrightarrow> fst st' = fst st)"
  "\<forall>r st'. tally chk thr depth ps t st = Inr (r, st') \<longrightarrow> good_step chk st st'"
  "\<forall>t' st'. visit chk depth p t st = Inr (t', st') \<longrightarrow> good_step chk st st'"
proof (induction chk auth depth st and chk thr depth ps t st and chk depth p t st
    rule: satisfied_at_tally_visit.induct)
  case (1 chk auth depth st)
  then show ?case by (auto simp: satisfied_at.simps result_simps good_step_def split: if_splits)
next
  case (3 chk thr depth p ps t st)
  show ?case
  proof (intro allI impI)
    fix r st'
    assume "tally chk thr depth (p # ps) t st = Inr (r, st')"
    then obtain t1 st1 where v: "visit chk depth p t st = Inr (t1, st1)" "thr \<le> t1 \<longrightarrow> st' = st1"
      "\<not> thr \<le> t1 \<longrightarrow> tally chk thr depth ps t1 st1 = Inr (r, st')" by (elim tally_ConsE)
    have "good_step chk st st1" using 3(1) v(1) by blast
    moreover have "good_step chk st1 st'"
    proof (cases "thr \<le> t1")
      case False
      with v(3) 3(2) [OF False] show ?thesis by blast
    qed (use v(2) in simp)
    ultimately show "good_step chk st st'" by (rule good_step_trans)
  qed
next
  case (5 chk depth k t st)
  then show ?case by (auto simp: good_step_def split: option.splits)
next
  case (6 chk depth a t st)
  let ?p = "plw_permission a" and ?b = "(fst st, (snd st)(plw_permission a \<mapsto> being_evaluated))"
  have d: "?p \<notin> directly_provided chk" if "cache_keeps chk (snd st)" "permission_status_in_cache (snd st) ?p = None"
    using cache_keeps_status that by fastforce
  have "good_step chk st (fst st', (snd st')(?p \<mapsto> s))"
    if "good_step chk ?b st'" "permission_status_in_cache (snd st) ?p = None" for st' s
    using that d by (auto simp: good_step_def intro: cache_keeps_upd)
  with 6 show ?case
    by (auto simp: result_simps split: option.splits if_splits sum.splits)
qed simp_all

lemma is_ok_bindR: "is_ok m \<Longrightarrow> (\<And>x. m = Inr x \<Longrightarrow> is_ok (k x)) \<Longrightarrow> is_ok (bindR m k)"
  by (cases m) simp_all

lemma total:
  assumes "only_missing chk"
  shows "is_ok (satisfied_at chk auth depth st)" "is_ok (tally chk thr depth ps t st)" "is_ok (visit chk depth p t st)"
  using assms
proof (induction chk auth depth st and chk thr depth ps t st and chk depth p t st
    rule: satisfied_at_tally_visit.induct)
  case (1 chk auth depth st)
  then show ?case by (auto simp: satisfied_at.simps is_ok_iff)
next
  case (3 chk thr depth p ps t st)
  then obtain t1 st1 where "visit chk depth p t st = Inr (t1, st1)" by (auto simp: is_ok_iff)
  with 3 show ?case by simp
next
  case (5 chk depth k t st)
  then show ?case by (simp split: option.split)
next
  case (6 chk depth a t st)
  then show ?case
    by (auto simp: only_missing_def intro!: is_ok_bindR split: option.splits sum.splits)
qed simp_all

text \<open>One factor adds at least the weight that is granted outright, and at most its own weight.\<close>

lemma visit_weight:
  assumes "visit chk depth p t st = Inr (t', st')" "cache_keeps chk (snd st)" "t + meta_weight p < 2 ^ 32"
  shows "t + granted chk (directly_provided chk) p \<le> t' \<and> t' \<le> t + meta_weight p"
proof -
  have w: "u32 (t + meta_weight p) = t + meta_weight p" using assms(3) by (simp add: u32_def)
  show ?thesis
  proof (cases p)
    case (Account_Factor a)
    show ?thesis
    proof (cases "plw_permission a \<in> directly_provided chk")
      case True
      with cache_keeps_status [OF assms(2)] Account_Factor assms(1) w show ?thesis by simp
    next
      case False
      with Account_Factor assms(1) w show ?thesis
        by (auto simp: result_simps split: option.splits if_splits sum.splits)
    qed
  next
    case (Key_Factor k)
    with assms(1) w find_index_None [of "kw_key k" "provided_keys chk"] show ?thesis
      by (auto split: option.splits)
  next
    case (Wait_Factor x)
    with assms(1) w show ?thesis by auto
  qed
qed

lemma tally_accepts:
  assumes "only_missing chk" "cache_keeps chk (snd st)"
    and "t + sum_list (map meta_weight ps) < 2 ^ 32" "t < thr"
    and "thr \<le> t + sum_list (map (granted chk (directly_provided chk)) ps)"
  shows "\<exists>st'. tally chk thr depth ps t st = Inr (True, st')"
  using assms(2-)
proof (induction ps arbitrary: t st)
  case (Cons p ps)
  obtain t1 st1 where v: "visit chk depth p t st = Inr (t1, st1)"
    using total(3) [OF assms(1), of depth p t st] by (auto simp: is_ok_iff)
  have k: "cache_keeps chk (snd st1)" using steps(3) v Cons.prems(1) by (metis good_step_def)
  have w: "t + granted chk (directly_provided chk) p \<le> t1" "t1 \<le> t + meta_weight p"
    using visit_weight [OF v Cons.prems(1)] Cons.prems(2) by simp_all
  show ?case
  proof (cases "thr \<le> t1")
    case True
    with v show ?thesis by simp
  next
    case False
    with w Cons.prems have "\<exists>st'. tally chk thr depth ps t1 st1 = Inr (True, st')"
      by (intro Cons.IH [OF k]) simp_all
    with v False show ?thesis by simp
  qed
qed simp

lemma satisfied_at_accepts:
  assumes "only_missing chk" "cache_keeps chk (snd st)" "total_weight auth < 2 ^ 32" "0 < threshold auth"
    and "threshold auth \<le> granted_weight chk (directly_provided chk) auth"
  shows "\<exists>st'. satisfied_at chk auth depth st = Inr (True, st')"
proof -
  have "\<exists>st'. tally chk (threshold auth) depth (meta_permission_set auth) 0 st = Inr (True, st')"
    using assms by (intro tally_accepts) (simp_all add: total_weight_def granted_weight_def sum_meta_permission_set)
  then show ?thesis by (auto simp: satisfied_at.simps)
qed

text \<open>
  C24. The checker accepts what it should.  If looking up a permission can only fail because it does not exist, then
  checking a valid authority never throws, and it succeeds whenever the provided keys, the provided
  permissions and the delay reach the threshold without recursion.
\<close>

theorem satisfied_authority_accepts:
  assumes "only_missing chk" "weights_ok auth" "validate auth"
  shows "case satisfied_authority chk auth used of
      Inl _ \<Rightarrow> False
    | Inr (r, used') \<Rightarrow> threshold auth \<le> granted_weight chk (directly_provided chk) auth \<longrightarrow> r"
proof -
  have v: "length (factors auth) \<le> 65536" "0 < threshold auth"
    using validate_factors [OF assms(3)] by simp_all
  have k: "cache_keeps chk (snd (used, initialize_permission_cache chk))" by (simp add: cache_keeps_def)
  obtain r used' c where s: "satisfied_at chk auth 0 (used, initialize_permission_cache chk) = Inr (r, used', c)"
    using total(1) [OF assms(1)] by (metis is_ok_iff surj_pair)
  have "r" if "threshold auth \<le> granted_weight chk (directly_provided chk) auth"
    using satisfied_at_accepts [OF assms(1) k total_weight_bound [OF assms(2) v(1)] v(2) that, of 0] s by simp
  with s show ?thesis by (simp add: satisfied_authority_def)
qed

text \<open>A small network of permissions for examples: \<open>pta\<close> looks the authority up in a list.\<close>

definition example_pta :: "(permission_level \<times> authority) list \<Rightarrow> permission_level \<Rightarrow> authority result" where
  "example_pta m p = of_option permission_query_exception (map_of m p)"

definition accounts_auth :: "nat \<Rightarrow> (name \<times> nat) list \<Rightarrow> authority" where
  "accounts_auth thr ws = \<lparr>threshold = thr, auth_keys = [],
     auth_accounts = map (\<lambda>(n, w). \<lparr>plw_permission = Permission_Level n 1, plw_weight = w\<rparr>) ws, auth_waits = []\<rparr>"

lemma only_missing_example: "only_missing (fst (make_auth_checker (example_pta m) limit ks ps delay))"
  by (auto simp: only_missing_def make_auth_checker_def example_pta_def of_option_def split: option.splits)

theorem satisfied_authority_accepts_witness:
  "case satisfied_authority (fst (make_auth_checker (example_pta []) 6 [K1 7] [] 60000000)) (authority_of_key (K1 7) 60) [False] of
      Inl _ \<Rightarrow> False
    | Inr (r, used') \<Rightarrow> r"
proof -
  let ?chk = "fst (make_auth_checker (example_pta []) 6 [K1 7] [] 60000000)" and ?a = "authority_of_key (K1 7) 60"
  have w: "weights_ok ?a" by (simp add: weights_ok_def factors_def authority_of_key_def)
  have v: "validate ?a" by (simp add: validate_def authority_of_key_def u32_def)
  have "threshold ?a \<le> granted_weight ?chk (directly_provided ?chk) ?a"
    by (simp add: granted_weight_def factors_def authority_of_key_def make_auth_checker_def seconds_def i64_def)
  with satisfied_authority_accepts [OF only_missing_example w v, of "[]" 6 "[K1 7]" "[]" 60000000 "[False]"] show ?thesis
    by (auto split: sum.splits)
qed

text \<open>
  The keys that a check uses: checking a permission never takes back a key that an earlier check used, and a check that
  fails uses no key.
\<close>

theorem satisfied_used_keys:
  assumes "satisfied chk p used = Inr (r, used')"
  shows "list_all2 (\<longrightarrow>) used used' \<and> (r \<or> used' = used)"
proof -
  let ?c = "initialize_permission_cache chk" and ?f = "Account_Factor \<lparr>plw_permission = p, plw_weight = 1\<rparr>"
  obtain w c where v: "visit chk 0 ?f 0 (used, ?c) = Inr (w, used', c)" and r: "r \<longleftrightarrow> 0 < w"
    using assms by (auto simp: satisfied_def result_simps simp del: visit.simps)
  have "list_all2 (\<longrightarrow>) used used'"
    using steps(3) v by (metis good_step_def keys_grow_def fst_conv)
  moreover have "used' = used" if "w = 0"
    using v that steps(1)
    by (fastforce simp: result_simps u32_def split: option.splits if_splits sum.splits)
  ultimately show ?thesis using r by blast
qed

lemmas checker_eval = make_auth_checker_def satisfied_def satisfied_at.simps example_pta_def accounts_auth_def
  authority_of_key_def permission_status_in_cache_def initialize_permission_cache_def meta_permission_set_def
  meta_before_def u32_def used_keys_def filter_data_by_marker_def

theorem satisfied_sound_witness:
  "authorized (fst (make_auth_checker (example_pta [(Permission_Level 2 1, accounts_auth 1 [(3, 1)]),
     (Permission_Level 3 1, authority_of_key (K1 7) 0)]) 6 [K1 7] [] 0)) (Permission_Level 2 1)"
  by (rule satisfied_sound [of _ _ "[False]" "[True]"]) (simp add: checker_eval)

theorem satisfied_used_keys_witness:
  "list_all2 (\<longrightarrow>) [True, False] (snd (projr (satisfied (fst (make_auth_checker (example_pta
     [(Permission_Level 3 1, authority_of_key (K1 7) 0)]) 6 [K1 5, K1 7] [] 0)) (Permission_Level 3 1) [True, False])))"
proof -
  have "satisfied (fst (make_auth_checker (example_pta
     [(Permission_Level 3 1, authority_of_key (K1 7) 0)]) 6 [K1 5, K1 7] [] 0)) (Permission_Level 3 1) [True, False]
     = Inr (True, [True, True])" by (simp add: checker_eval)
  with satisfied_used_keys show ?thesis by fastforce
qed

text \<open>
  A key can be needed and yet not be counted as used.  Permission 1 needs permission 2 (weight 2) or 3 (weight 1);
  permission 2 needs both 3 and 4; permission 3 needs the key 7.  With key 7 alone, permission 2 is tried first: 3 is found
  satisfied and stays so in the cache, but as 2 fails the use of the key is reverted; then 3 is taken from the cache.  So
  permission 1 is satisfied with no used key, although without the key it is not satisfied.
\<close>

theorem cached_permission_forgets_keys:
  "let pta = example_pta [(Permission_Level 1 1, accounts_auth 1 [(2, 2), (3, 1)]),
       (Permission_Level 2 1, accounts_auth 2 [(3, 1), (4, 1)]),
       (Permission_Level 3 1, authority_of_key (K1 7) 0), (Permission_Level 4 1, authority_of_key (K1 8) 0)];
     (chk, used) = make_auth_checker pta 6 [K1 7] [] 0;
     (chk', used') = make_auth_checker pta 6 [] [] 0
   in validate (accounts_auth 1 [(2, 2), (3, 1)]) \<and> validate (accounts_auth 2 [(3, 1), (4, 1)])
    \<and> satisfied chk (Permission_Level 1 1) used = Inr (True, [False]) \<and> used_keys chk [False] = []
    \<and> satisfied chk' (Permission_Level 1 1) used' = Inr (False, [])"
  by (simp add: checker_eval validate_def less_eq_permission_level_def)

end
