(* ===== verification/Raw.thy ===== *)
theory Raw
  imports Authority
begin

text \<open>
  The binary format of \<^verbatim>\<open>libraries/fc/include/fc/io/raw.hpp\<close> on the streams of \<^verbatim>\<open>datastream.hpp\<close>: numbers of fixed
  width, variable-length integers, byte vectors, vectors, pairs, reflected structures and static variants.

  \<open>pack\<close> returns the bytes it writes or throws; \<open>unpack\<close> reads a value from the front of a stream and returns it with
  the rest of the stream.  The overloads of the templates are one pair of functions for each type, and the templates for
  pairs, vectors and structures take the functions of their components as arguments.  The contract of a pair of functions is
  the locale \<open>codec\<close>: every valid value can be packed, and unpacking reads back the value and exactly its bytes.
\<close>

type_synonym byte = "8 word"
type_synonym bytes = "byte list"
type_synonym 'a packer = "'a \<Rightarrow> bytes result"
type_synonym 'a unpacker = "bytes \<Rightarrow> ('a \<times> bytes) result"

section \<open>Streams\<close>

definition ds_read :: "nat \<Rightarrow> bytes \<Rightarrow> (bytes \<times> bytes) result" where
  "ds_read n s = (if n \<le> length s then Inr (take n s, drop n s) else Inl out_of_range_exception)"

definition ds_get :: "bytes \<Rightarrow> (byte \<times> bytes) result" where
  "ds_get s = (case s of [] \<Rightarrow> Inl out_of_range_exception | b # s \<Rightarrow> Inr (b, s))"

section \<open>Numbers\<close>

text \<open>The memory of an integer of \<open>n\<close> bytes on a little-endian machine.\<close>

fun le_bytes :: "nat \<Rightarrow> nat \<Rightarrow> bytes" where
  "le_bytes 0 x = []"
| "le_bytes (Suc n) x = of_nat x # le_bytes n (x div 256)"

fun of_le_bytes :: "bytes \<Rightarrow> nat" where
  "of_le_bytes [] = 0"
| "of_le_bytes (b # bs) = unat b + 256 * of_le_bytes bs"

definition pack_uint :: "nat \<Rightarrow> nat packer" where
  "pack_uint n x = Inr (le_bytes n x)"

definition unpack_uint :: "nat \<Rightarrow> nat unpacker" where
  "unpack_uint n s = bindR (ds_read n s) (\<lambda>(d, s). Inr (of_le_bytes d, s))"

text \<open>\<^verbatim>\<open>unsigned_int\<close>: seven bits in each byte, the high bit says that another byte follows.\<close>

function (sequential) varint_bytes :: "nat \<Rightarrow> bytes" where
  "varint_bytes val =
     (let b = val mod 128; val = val div 128
      in if val > 0 then of_nat (b + 128) # varint_bytes val else [of_nat b])"
  by pat_completeness auto
termination by (relation "measure id") auto

definition pack_unsigned_int :: "nat packer" where
  "pack_unsigned_int v = Inr (varint_bytes v)"

fun unpack_varint :: "nat \<Rightarrow> nat \<Rightarrow> nat unpacker" where
  "unpack_varint by v [] = Inl out_of_range_exception"
| "unpack_varint by v (b # s) =
     (let v = v OR u32 (push_bit by (unat (b AND 0x7f))); by = by + 7
      in if b AND 0x80 \<noteq> 0 \<and> by < 32 then unpack_varint by v s else Inr (u32 v, s))"

definition unpack_unsigned_int :: "nat unpacker" where
  "unpack_unsigned_int s = unpack_varint 0 0 s"

text \<open>A 64-bit name, a digest (the memory of four 64-bit numbers) and a Boolean.\<close>

definition pack_name :: "name packer" where
  "pack_name n = pack_uint 8 (unat n)"

definition unpack_name :: "name unpacker" where
  "unpack_name s = bindR (unpack_uint 8 s) (\<lambda>(v, s). Inr (of_nat v, s))"

definition pack_bool :: "bool packer" where
  "pack_bool v = pack_uint 1 (if v then 1 else 0)"

definition unpack_bool :: "bool unpacker" where
  "unpack_bool s = bindR (unpack_uint 1 s) (\<lambda>(b, s). bes_assert (b \<le> 1) assert_exception (Inr (b \<noteq> 0, s)))"

section \<open>Byte vectors, pairs, vectors, structures, variants\<close>

definition MAX_NUM_ARRAY_ELEMENTS :: nat where
  "MAX_NUM_ARRAY_ELEMENTS = 1024 * 1024"

definition MAX_SIZE_OF_BYTE_ARRAYS :: nat where
  "MAX_SIZE_OF_BYTE_ARRAYS = 20 * 1024 * 1024"

definition pack_bytes :: "bytes packer" where
  "pack_bytes v =
     bes_assert (length v \<le> MAX_SIZE_OF_BYTE_ARRAYS) assert_exception
       (bindR (pack_unsigned_int (u32 (length v))) (\<lambda>n. Inr (n @ v)))"

definition unpack_bytes :: "bytes unpacker" where
  "unpack_bytes s =
     bindR (unpack_unsigned_int s) (\<lambda>(size, s).
     bes_assert (size \<le> MAX_SIZE_OF_BYTE_ARRAYS) assert_exception (ds_read size s))"

definition pack_pair :: "'a packer \<Rightarrow> 'b packer \<Rightarrow> ('a \<times> 'b) packer" where
  "pack_pair p q v = bindR (p (fst v)) (\<lambda>x. bindR (q (snd v)) (\<lambda>y. Inr (x @ y)))"

definition unpack_pair :: "'a unpacker \<Rightarrow> 'b unpacker \<Rightarrow> ('a \<times> 'b) unpacker" where
  "unpack_pair p q s = bindR (p s) (\<lambda>(a, s). bindR (q s) (\<lambda>(b, s). Inr ((a, b), s)))"

fun pack_elems :: "'a packer \<Rightarrow> 'a list packer" where
  "pack_elems p [] = Inr []"
| "pack_elems p (x # xs) = bindR (p x) (\<lambda>b. bindR (pack_elems p xs) (\<lambda>bs. Inr (b @ bs)))"

fun unpack_elems :: "'a unpacker \<Rightarrow> nat \<Rightarrow> 'a list unpacker" where
  "unpack_elems u 0 s = Inr ([], s)"
| "unpack_elems u (Suc n) s = bindR (u s) (\<lambda>(x, s). bindR (unpack_elems u n s) (\<lambda>(xs, s). Inr (x # xs, s)))"

definition pack_vector :: "'a packer \<Rightarrow> 'a list packer" where
  "pack_vector p v =
     bes_assert (length v \<le> MAX_NUM_ARRAY_ELEMENTS) assert_exception
       (bindR (pack_unsigned_int (u32 (length v))) (\<lambda>n. bindR (pack_elems p v) (\<lambda>bs. Inr (n @ bs))))"

definition unpack_vector :: "'a unpacker \<Rightarrow> 'a list unpacker" where
  "unpack_vector u s =
     bindR (unpack_unsigned_int s) (\<lambda>(size, s).
     bes_assert (size \<le> MAX_NUM_ARRAY_ELEMENTS) assert_exception (unpack_elems u size s))"

text \<open>
  A reflected structure is packed field by field, in the order of \<^verbatim>\<open>FC_REFLECT\<close>: as the nested pair of its parts.
\<close>

definition pack_struct :: "('a \<Rightarrow> 'b) \<Rightarrow> 'b packer \<Rightarrow> 'a packer" where
  "pack_struct parts p x = p (parts x)"

definition unpack_struct :: "('b \<Rightarrow> 'a) \<Rightarrow> 'b unpacker \<Rightarrow> 'a unpacker" where
  "unpack_struct build u s = bindR (u s) (\<lambda>(y, s). Inr (build y, s))"

text \<open>The static variants of keys and signatures: the number of the variant, then its array of bytes.\<close>

fun pack_public_key :: "public_key_type packer" where
  "pack_public_key (K1 d) = pack_pair pack_unsigned_int (\<lambda>d. Inr (rev (le_bytes 33 (unat d)))) (0, d)"
| "pack_public_key (R1 d) = pack_pair pack_unsigned_int (\<lambda>d. Inr (rev (le_bytes 33 (unat d)))) (1, d)"

definition unpack_public_key :: "public_key_type unpacker" where
  "unpack_public_key s =
     bindR (unpack_unsigned_int s) (\<lambda>(w, s).
     bes_assert (w < 2) assert_exception
       (bindR (ds_read 33 s) (\<lambda>(d, s).
          let d = of_nat (of_le_bytes (rev d)) in Inr (if w = 0 then K1 d else R1 d, s))))"

fun pack_signature :: "signature_type packer" where
  "pack_signature (SIG_K1 d) = pack_pair pack_unsigned_int (\<lambda>d. Inr (rev (le_bytes 65 (unat d)))) (0, d)"
| "pack_signature (SIG_R1 d) = pack_pair pack_unsigned_int (\<lambda>d. Inr (rev (le_bytes 65 (unat d)))) (1, d)"

definition unpack_signature :: "signature_type unpacker" where
  "unpack_signature s =
     bindR (unpack_unsigned_int s) (\<lambda>(w, s).
     bes_assert (w < 2) assert_exception
       (bindR (ds_read 65 s) (\<lambda>(d, s).
          let d = of_nat (of_le_bytes (rev d)) in Inr (if w = 0 then SIG_K1 d else SIG_R1 d, s))))"

text \<open>\<^verbatim>\<open>unpack<T>(vector<char>)\<close> ignores bytes behind the value.\<close>

definition unpack_all :: "'a unpacker \<Rightarrow> bytes \<Rightarrow> 'a result" where
  "unpack_all u s = bindR (u s) (\<lambda>(x, rest). Inr x)"

definition pack_size :: "'a packer \<Rightarrow> 'a \<Rightarrow> nat result" where
  "pack_size p x = bindR (p x) (\<lambda>bs. Inr (length bs))"

section \<open>The contract of a pair of functions\<close>

locale codec =
  fixes pack :: "'a packer" and unpack :: "'a unpacker" and valid :: "'a \<Rightarrow> bool"
  assumes pack_unpack: "valid x \<Longrightarrow> \<exists>bs. pack x = Inr bs \<and> (\<forall>rest. unpack (bs @ rest) = Inr (x, rest))"
begin

lemma unpack_all_pack: "valid x \<Longrightarrow> bindR (pack x) (unpack_all unpack) = Inr x"
proof -
  assume "valid x"
  then obtain bs where "pack x = Inr bs" "\<forall>rest. unpack (bs @ rest) = Inr (x, rest)" using pack_unpack by blast
  from this(1) this(2) [THEN spec, of "[]"] show ?thesis by (simp add: unpack_all_def)
qed

lemma packE:
  assumes "valid x" "pack x = Inr bs"
  shows "unpack (bs @ rest) = Inr (x, rest)"
  using pack_unpack [OF assms(1)] assms(2) by auto

lemma pack_prefix_free:
  assumes "valid x" "valid y" "pack x = Inr bs" "pack y = Inr cs" "bs @ r = cs @ r'"
  shows "x = y \<and> r = r'"
  using packE [OF assms(1,3), of r] packE [OF assms(2,4), of r'] assms(5) by simp

end

lemma codec_pair:
  assumes "codec p u v" "codec q w x"
  shows "codec (pack_pair p q) (unpack_pair u w) (\<lambda>(a, b). v a \<and> x b)"
proof
  fix ab :: "'a \<times> 'b"
  assume "case ab of (a, b) \<Rightarrow> v a \<and> x b"
  then obtain a b bs cs where "ab = (a, b)" "p a = Inr bs" "\<forall>r. u (bs @ r) = Inr (a, r)" "q b = Inr cs"
    "\<forall>r. w (cs @ r) = Inr (b, r)"
    using codec.pack_unpack [OF assms(1)] codec.pack_unpack [OF assms(2)] by (cases ab) fastforce
  then show "\<exists>bs. pack_pair p q ab = Inr bs \<and> (\<forall>rest. unpack_pair u w (bs @ rest) = Inr (ab, rest))"
    by (simp add: pack_pair_def unpack_pair_def)
qed

lemma codec_struct:
  assumes "codec p u v" "\<And>x. build (parts x) = x"
  shows "codec (pack_struct parts p) (unpack_struct build u) (\<lambda>x. v (parts x))"
proof
  fix x
  assume "v (parts x)"
  from codec.pack_unpack [OF assms(1) this] assms(2)
  show "\<exists>bs. pack_struct parts p x = Inr bs \<and> (\<forall>rest. unpack_struct build u (bs @ rest) = Inr (x, rest))"
    by (auto simp: pack_struct_def unpack_struct_def)
qed

section \<open>Numbers read back\<close>

lemma unat_of_nat_byte: "n < 256 \<Longrightarrow> unat (of_nat n :: byte) = n"
  by (simp add: unat_of_nat take_bit_eq_mod)

lemma low_bits: "unat (b AND 0x7f) = unat b mod 128" for b :: byte
proof -
  have "b AND 0x7f = take_bit 7 b" by (simp add: take_bit_eq_mask mask_eq_exp_minus_1)
  then have "unat (b AND 0x7f) = take_bit 7 (unat b)" by (simp only: unsigned_take_bit_eq)
  then show ?thesis by (simp add: take_bit_eq_mod)
qed

lemma high_bit: "b AND 0x80 \<noteq> 0 \<longleftrightarrow> 128 \<le> unat b" for b :: byte
proof -
  have "(0x80 :: byte) = push_bit 7 1" by simp
  then have "b AND 0x80 \<noteq> 0 \<longleftrightarrow> bit b 7" by (auto simp: bit_iff_and_push_bit_not_eq_0)
  also have "\<dots> \<longleftrightarrow> odd (unat b div 128)" by (simp add: bit_iff_odd [of "unat b", symmetric, where n = 7, simplified] bit_unsigned_iff)
  also have "\<dots> \<longleftrightarrow> 128 \<le> unat b"
  proof -
    have "unat b < 256" using unsigned_less [of b] by simp
    then have "unat b div 128 = (if 128 \<le> unat b then 1 else 0)" by auto
    then show ?thesis by simp
  qed
  finally show ?thesis .
qed

lemma or_push_bit: "v < 2 ^ n \<Longrightarrow> v OR push_bit n x = v + push_bit n (x :: nat)"
proof -
  assume v: "v < 2 ^ n"
  have "v AND push_bit n x = 0"
  proof (rule bit_eqI)
    fix m
    have "\<not> bit v m" if "n \<le> m"
    proof -
      have "v < 2 ^ m" using v that by (meson less_le_trans one_le_numeral power_increasing)
      then show ?thesis by (simp add: bit_iff_odd)
    qed
    then show "bit (v AND push_bit n x) m = bit (0::nat) m"
      by (auto simp: bit_simps)
  qed
  then show ?thesis by (metis disjunctive_add_eq_or)
qed

lemma unpack_varint_bytes:
  assumes "v < 2 ^ by" "v + val * 2 ^ by < 2 ^ 32"
  shows "unpack_varint by v (varint_bytes val @ rest) = Inr (v + val * 2 ^ by, rest)"
  using assms
proof (induction val arbitrary: v "by" rule: varint_bytes.induct)
  case (1 val)
  let ?b = "val mod 128" and ?q = "val div 128"
  have split: "?b * 2 ^ by + ?q * 2 ^ (by + 7) = val * 2 ^ by"
  proof -
    have "(128 * ?q + ?b) * 2 ^ by = val * 2 ^ by" by (simp only: mult_div_mod_eq)
    then show ?thesis by (simp only: distrib_right power_add) simp
  qed
  have b: "?b < 128" by simp
  have or: "v OR u32 (push_bit by ?b) = v + ?b * 2 ^ by"
  proof -
    have "?b * 2 ^ by < 2 ^ 32" using split 1(3) by linarith
    then have "u32 (push_bit by ?b) = push_bit by ?b" by (simp add: u32_def push_bit_eq_mult)
    with or_push_bit [OF 1(2), of ?b] show ?thesis by (simp add: push_bit_eq_mult)
  qed
  show ?case
  proof (cases "?q > 0")
    case True
    have u: "unat (of_nat (?b + 128) :: byte) = ?b + 128" using b by (intro unat_of_nat_byte) simp
    have "(2::nat) ^ (by + 7) \<le> ?q * 2 ^ (by + 7)" using True by simp
    also have "\<dots> < 2 ^ 32" using split 1(3) by linarith
    finally have "by + 7 < 32" using power_less_imp_less_exp [of "2::nat" "by + 7" 32] by linarith
    moreover have "v + ?b * 2 ^ by < 2 ^ (by + 7)"
    proof -
      have "?b * 2 ^ by \<le> 127 * 2 ^ by" using b by (intro mult_right_mono) auto
      with 1(2) have "v + ?b * 2 ^ by < 128 * 2 ^ by" by linarith
      then show ?thesis by (simp add: power_add mult.commute)
    qed
    moreover have "v + ?b * 2 ^ by + ?q * 2 ^ (by + 7) < 2 ^ 32" using split 1(3) by linarith
    ultimately have "unpack_varint (by + 7) (v + ?b * 2 ^ by) (varint_bytes ?q @ rest)
        = Inr (v + ?b * 2 ^ by + ?q * 2 ^ (by + 7), rest)"
      using True by (intro 1(1) [OF refl refl]) auto
    then have "unpack_varint (by + 7) (v + ?b * 2 ^ by) (varint_bytes ?q @ rest) = Inr (v + val * 2 ^ by, rest)"
      using split by (simp add: add.assoc)
    moreover have "(?b + 128) mod 128 = ?b" using b by simp
    ultimately show ?thesis
      using True u or \<open>by + 7 < 32\<close>
      by (subst varint_bytes.simps) (simp add: Let_def low_bits high_bit del: varint_bytes.simps)
  next
    case False
    then have "val < 128" by simp
    then have u: "unat (of_nat ?b :: byte) = val" by (simp add: unat_of_nat_byte)
    with False or 1(3) \<open>val < 128\<close> show ?thesis
      by (subst varint_bytes.simps) (simp add: Let_def low_bits high_bit u32_def del: varint_bytes.simps)
  qed
qed

declare varint_bytes.simps [simp del]

interpretation unsigned_int: codec pack_unsigned_int unpack_unsigned_int "\<lambda>v. v < 2 ^ 32"
  by unfold_locales (simp add: pack_unsigned_int_def unpack_unsigned_int_def unpack_varint_bytes)

lemma length_le_bytes [simp]: "length (le_bytes n x) = n"
  by (induction n x rule: le_bytes.induct) simp_all

lemma of_le_bytes_le_bytes: "of_le_bytes (le_bytes n x) = x mod 256 ^ n"
proof (induction n x rule: le_bytes.induct)
  case (2 n x)
  have "x mod 256 ^ Suc n = x mod 256 + 256 * (x div 256 mod 256 ^ n)" by (simp add: mod_mult2_eq)
  with 2 show ?case by (simp add: unat_of_nat take_bit_eq_mod)
qed simp

lemma ds_read_append [simp]: "length d = n \<Longrightarrow> ds_read n (d @ rest) = Inr (d, rest)"
  by (simp add: ds_read_def)

lemma codec_uint: "codec (pack_uint n) (unpack_uint n) (\<lambda>x. x < 256 ^ n)"
  by unfold_locales (simp add: pack_uint_def unpack_uint_def of_le_bytes_le_bytes)

interpretation name_codec: codec pack_name unpack_name "\<lambda>_. True"
proof
  fix n :: name
  have "unat n < 256 ^ 8" using unsigned_less [of n] by simp
  then show "\<exists>bs. pack_name n = Inr bs \<and> (\<forall>rest. unpack_name (bs @ rest) = Inr (n, rest))"
    by (simp add: pack_name_def unpack_name_def pack_uint_def unpack_uint_def of_le_bytes_le_bytes)
qed

interpretation bool_codec: codec pack_bool unpack_bool "\<lambda>_. True"
  by unfold_locales (simp add: pack_bool_def unpack_bool_def pack_uint_def unpack_uint_def ds_read_def)

lemma unpack_unsigned_int_bytes [simp]:
  "v < 2 ^ 32 \<Longrightarrow> unpack_unsigned_int (varint_bytes v @ rest) = Inr (v, rest)"
  using unpack_varint_bytes [of 0 0 v] by (simp add: unpack_unsigned_int_def)

interpretation bytes_codec: codec pack_bytes unpack_bytes "\<lambda>v. length v \<le> MAX_SIZE_OF_BYTE_ARRAYS"
proof
  fix v :: bytes
  assume v: "length v \<le> MAX_SIZE_OF_BYTE_ARRAYS"
  then have "length v < 2 ^ 32" by (simp add: MAX_SIZE_OF_BYTE_ARRAYS_def)
  with v show "\<exists>bs. pack_bytes v = Inr bs \<and> (\<forall>rest. unpack_bytes (bs @ rest) = Inr (v, rest))"
    by (simp add: pack_bytes_def unpack_bytes_def pack_unsigned_int_def u32_def)
qed

lemma elems:
  assumes "codec p u ok" "\<forall>x \<in> set xs. ok x"
  shows "\<exists>bs. pack_elems p xs = Inr bs \<and> (\<forall>rest. unpack_elems u (length xs) (bs @ rest) = Inr (xs, rest))"
  using assms(2)
proof (induction xs)
  case (Cons x xs)
  then obtain b bs where "p x = Inr b" "\<forall>r. u (b @ r) = Inr (x, r)" "pack_elems p xs = Inr bs"
    "\<forall>r. unpack_elems u (length xs) (bs @ r) = Inr (xs, r)"
    using codec.pack_unpack [OF assms(1), of x] by auto
  then show ?case by simp
qed simp

definition valid_vector :: "('a \<Rightarrow> bool) \<Rightarrow> 'a list \<Rightarrow> bool" where
  "valid_vector ok xs \<longleftrightarrow> length xs \<le> MAX_NUM_ARRAY_ELEMENTS \<and> list_all ok xs"

lemma codec_vector:
  assumes "codec p u ok"
  shows "codec (pack_vector p) (unpack_vector u) (valid_vector ok)"
proof
  fix xs
  assume v: "valid_vector ok xs"
  then have l: "length xs < 2 ^ 32" by (simp add: valid_vector_def MAX_NUM_ARRAY_ELEMENTS_def)
  obtain bs where "pack_elems p xs = Inr bs" "\<forall>r. unpack_elems u (length xs) (bs @ r) = Inr (xs, r)"
    using elems [OF assms, of xs] v by (auto simp: valid_vector_def list_all_iff)
  with v l show "\<exists>bs. pack_vector p xs = Inr bs \<and> (\<forall>rest. unpack_vector u (bs @ rest) = Inr (xs, rest))"
    by (simp add: pack_vector_def unpack_vector_def pack_unsigned_int_def u32_def valid_vector_def)
qed

lemma word_of_le_bytes: "(256 :: nat) ^ n = 2 ^ LENGTH('a) \<Longrightarrow> of_nat (of_le_bytes (le_bytes n (unat d))) = d"
  for d :: "'a::len word"
  using unsigned_less [of d] by (simp add: of_le_bytes_le_bytes)

interpretation public_key_codec: codec pack_public_key unpack_public_key "\<lambda>_. True"
proof
  fix k :: public_key_type
  have "of_nat (of_le_bytes (le_bytes 33 (unat d))) = d" for d :: "264 word" by (rule word_of_le_bytes) simp
  then show "\<exists>bs. pack_public_key k = Inr bs \<and> (\<forall>rest. unpack_public_key (bs @ rest) = Inr (k, rest))"
    by (cases k) (simp_all add: pack_pair_def unpack_public_key_def pack_unsigned_int_def)
qed

interpretation signature_codec: codec pack_signature unpack_signature "\<lambda>_. True"
proof
  fix k :: signature_type
  have "of_nat (of_le_bytes (le_bytes 65 (unat d))) = d" for d :: "520 word" by (rule word_of_le_bytes) simp
  then show "\<exists>bs. pack_signature k = Inr bs \<and> (\<forall>rest. unpack_signature (bs @ rest) = Inr (k, rest))"
    by (cases k) (simp_all add: pack_pair_def unpack_signature_def pack_unsigned_int_def)
qed

text \<open>The size that an authority is billed for a key is its packed size.\<close>

lemma key_pack_size_eq: "pack_size pack_public_key k = Inr (key_pack_size k)"
  by (cases k) (simp_all add: pack_size_def pack_pair_def pack_unsigned_int_def key_pack_size_def varint_bytes.simps)

text \<open>
  Variable-length integers are read back: whatever follows it in the stream, the encoding of a 32-bit number is read as
  that number, and exactly the bytes of the encoding are consumed.
\<close>

theorem unsigned_int_roundtrip:
  assumes "v < 2 ^ 32"
  shows "bindR (pack_unsigned_int v) (\<lambda>bs. unpack_unsigned_int (bs @ rest)) = Inr (v, rest)"
  using unsigned_int.pack_unpack [OF assms] by auto

theorem unsigned_int_roundtrip_witness:
  "pack_unsigned_int 300 = Inr [0xac, 2] \<and> unpack_unsigned_int [0xac, 2, 7] = Inr (300, [7])"
proof -
  have p: "pack_unsigned_int 300 = Inr [0xac, 2]" by (simp add: pack_unsigned_int_def varint_bytes.simps)
  with unsigned_int_roundtrip [of 300 "[7]"] show ?thesis by simp
qed

end
