(* ===== verification/Transactions.thy ===== *)
theory Transactions
  imports Raw BlockHeader
begin

text \<open>
  Transactions and packed transactions: \<^verbatim>\<open>libraries/chain/include/besio/chain/action.hpp\<close>, \<^verbatim>\<open>transaction.hpp\<close>
  and \<^verbatim>\<open>libraries/chain/transaction.cpp\<close>, on the binary format of theory \<open>Raw\<close>.

  Parameters, in the record \<open>trx_env\<close>: the hash function of the encoders, the recovery of a key from a signature and a
  digest, and the \<^verbatim>\<open>zlib\<close> filters of boost.  The decompressor is given by the blocks it writes to the next
  filter and by whether it reaches the end of its input without an error.
\<close>

section \<open>Actions and transactions\<close>

record action =
  act_account :: name
  act_name :: name
  act_authorization :: "permission_level list"
  act_data :: bytes

record transaction_header =
  expiration :: nat
  ref_block_num :: nat
  ref_block_prefix :: nat
  max_net_usage_words :: nat
  max_cpu_usage_ms :: nat
  delay_sec :: nat

record transaction = transaction_header +
  context_free_actions :: "action list"
  actions :: "action list"
  transaction_extensions :: "(nat \<times> bytes) list"

record signed_transaction = transaction +
  signatures :: "signature_type list"
  context_free_data :: "bytes list"

text \<open>The binary format: the fields in the order in which they are reflected.\<close>

definition pack_sha256 :: "sha256 packer" where
  "pack_sha256 = pack_struct (\<lambda>h. (hash0 h, hash1 h, hash2 h, hash3 h))
     (pack_pair pack_name (pack_pair pack_name (pack_pair pack_name pack_name)))"

definition pack_permission_level :: "permission_level packer" where
  "pack_permission_level = pack_struct (\<lambda>p. (actor p, permission p)) (pack_pair pack_name pack_name)"

definition unpack_permission_level :: "permission_level unpacker" where
  "unpack_permission_level = unpack_struct (\<lambda>(a, p). Permission_Level a p) (unpack_pair unpack_name unpack_name)"

definition pack_action :: "action packer" where
  "pack_action = pack_struct (\<lambda>a. (act_account a, act_name a, act_authorization a, act_data a))
     (pack_pair pack_name (pack_pair pack_name (pack_pair (pack_vector pack_permission_level) pack_bytes)))"

definition unpack_action :: "action unpacker" where
  "unpack_action = unpack_struct (\<lambda>(a, n, p, d). \<lparr>act_account = a, act_name = n, act_authorization = p, act_data = d\<rparr>)
     (unpack_pair unpack_name (unpack_pair unpack_name (unpack_pair (unpack_vector unpack_permission_level) unpack_bytes)))"

definition pack_transaction :: "transaction packer" where
  "pack_transaction = pack_struct
     (\<lambda>t. (expiration t, ref_block_num t, ref_block_prefix t, max_net_usage_words t, max_cpu_usage_ms t, delay_sec t,
          context_free_actions t, actions t, transaction_extensions t))
     (pack_pair (pack_uint 4) (pack_pair (pack_uint 2) (pack_pair (pack_uint 4)
       (pack_pair pack_unsigned_int (pack_pair (pack_uint 1) (pack_pair pack_unsigned_int
         (pack_pair (pack_vector pack_action) (pack_pair (pack_vector pack_action)
           (pack_vector (pack_pair (pack_uint 2) pack_bytes))))))))))"

definition unpack_transaction :: "transaction unpacker" where
  "unpack_transaction = unpack_struct
     (\<lambda>(e, n, p, w, c, d, cfa, a, x). \<lparr>expiration = e, ref_block_num = n, ref_block_prefix = p,
        max_net_usage_words = w, max_cpu_usage_ms = c, delay_sec = d, context_free_actions = cfa, actions = a,
        transaction_extensions = x\<rparr>)
     (unpack_pair (unpack_uint 4) (unpack_pair (unpack_uint 2) (unpack_pair (unpack_uint 4)
       (unpack_pair unpack_unsigned_int (unpack_pair (unpack_uint 1) (unpack_pair unpack_unsigned_int
         (unpack_pair (unpack_vector unpack_action) (unpack_pair (unpack_vector unpack_action)
           (unpack_vector (unpack_pair (unpack_uint 2) unpack_bytes))))))))))"

section \<open>Headers\<close>

definition get_ref_blocknum :: "nat \<Rightarrow> nat" where
  "get_ref_blocknum head_blocknum = u32 (u32 (head_blocknum div 0xffff * 0xffff) + head_blocknum mod 0xffff)"

definition set_reference_block :: "sha256 \<Rightarrow> 'a transaction_header_scheme \<Rightarrow> 'a transaction_header_scheme" where
  "set_reference_block reference_block t =
     t\<lparr>ref_block_num := u16 (num_from_id reference_block),
       ref_block_prefix := u32 (unat (hash1 reference_block))\<rparr>"

definition verify_reference_block :: "sha256 \<Rightarrow> 'a transaction_header_scheme \<Rightarrow> bool" where
  "verify_reference_block reference_block t \<longleftrightarrow>
     ref_block_num t = u16 (num_from_id reference_block) \<and> ref_block_prefix t = u32 (unat (hash1 reference_block))"

definition validate_header :: "'a transaction_header_scheme \<Rightarrow> unit result" where
  "validate_header t = bes_assert (max_net_usage_words t < (2 ^ 32 - 1) div 8) transaction_exception (Inr ())"

definition total_actions :: "'a transaction_scheme \<Rightarrow> nat" where
  "total_actions t = u32 (length (context_free_actions t) + length (actions t))"

definition first_authorizor :: "'a transaction_scheme \<Rightarrow> name" where
  "first_authorizor t = (case concat (map act_authorization (actions t)) of [] \<Rightarrow> 0 | u # _ \<Rightarrow> actor u)"

section \<open>Identifiers and signatures\<close>

record trx_env =
  hash_bytes :: "bytes \<Rightarrow> sha256"
  recover :: "signature_type \<Rightarrow> sha256 \<Rightarrow> public_key_type result"
  deflate :: "bytes \<Rightarrow> bytes"
  inflate :: "bytes \<Rightarrow> bytes list \<times> bool"

definition trx_id :: "trx_env \<Rightarrow> transaction \<Rightarrow> sha256 result" where
  "trx_id env t = bindR (pack_transaction t) (\<lambda>bs. Inr (hash_bytes env bs))"

definition trx_sig_digest :: "trx_env \<Rightarrow> sha256 \<Rightarrow> bytes list \<Rightarrow> transaction \<Rightarrow> sha256 result" where
  "trx_sig_digest env chain_id cfd t =
     bindR (pack_sha256 chain_id) (\<lambda>c.
     bindR (pack_transaction t) (\<lambda>bs.
     bindR (if cfd \<noteq> [] then bindR (pack_vector pack_bytes cfd) (\<lambda>d. pack_sha256 (hash_bytes env d))
            else pack_sha256 default_digest) (\<lambda>d.
     Inr (hash_bytes env (c @ bs @ d)))))"

record cached_pub_key =
  cached_trx_id :: sha256
  cached_key :: public_key_type
  cached_sig :: signature_type

type_synonym recovery_cache = "cached_pub_key list"

definition recovery_cache_size :: nat where
  "recovery_cache_size = 1000"

text \<open>The list is the sequenced index; the index by signature is unique, so a second entry for a signature is not added.\<close>

definition cache_emplace_back :: "cached_pub_key \<Rightarrow> recovery_cache \<Rightarrow> recovery_cache" where
  "cache_emplace_back c cache = (if cached_sig c \<in> cached_sig ` set cache then cache else cache @ [c])"

definition recover_cached :: "trx_env \<Rightarrow> bool \<Rightarrow> sha256 \<Rightarrow> sha256 \<Rightarrow> signature_type \<Rightarrow> recovery_cache
    \<Rightarrow> public_key_type result \<times> recovery_cache" where
  "recover_cached env use_cache tid digest sig cache =
     (if use_cache then
        (case find (\<lambda>c. cached_sig c = sig) cache of
           Some c \<Rightarrow>
             if cached_trx_id c \<noteq> tid then
               (case recover env sig digest of
                  Inl e \<Rightarrow> (Inl e, cache)
                | Inr k \<Rightarrow> (Inr k, cache_emplace_back \<lparr>cached_trx_id = tid, cached_key = k, cached_sig = sig\<rparr> cache))
             else (Inr (cached_key c), cache)
         | None \<Rightarrow>
             (case recover env sig digest of
                Inl e \<Rightarrow> (Inl e, cache)
              | Inr k \<Rightarrow> (Inr k, cache_emplace_back \<lparr>cached_trx_id = tid, cached_key = k, cached_sig = sig\<rparr> cache)))
      else (recover env sig digest, cache))"

text \<open>
  The loop over the signatures.  The cache is a static variable: what was added to it stays there when an exception
  ends the loop, so the function returns the cache next to its result.
\<close>

fun recover_keys :: "trx_env \<Rightarrow> bool \<Rightarrow> bool \<Rightarrow> sha256 \<Rightarrow> sha256 \<Rightarrow> signature_type list \<Rightarrow> public_key_type list
    \<Rightarrow> recovery_cache \<Rightarrow> public_key_type list result \<times> recovery_cache" where
  "recover_keys env allow_dup use_cache tid digest [] ks cache = (Inr ks, cache)"
| "recover_keys env allow_dup use_cache tid digest (sig # sigs) ks cache =
     (case recover_cached env use_cache tid digest sig cache of
        (Inl e, cache) \<Rightarrow> (Inl e, cache)
      | (Inr k, cache) \<Rightarrow>
          if allow_dup \<or> k \<notin> set ks
          then recover_keys env allow_dup use_cache tid digest sigs (if k \<in> set ks then ks else insort k ks) cache
          else (Inl tx_duplicate_sig, cache))"

definition trim_cache :: "recovery_cache \<Rightarrow> recovery_cache" where
  "trim_cache cache = drop (length cache - recovery_cache_size) cache"

definition get_signature_keys :: "trx_env \<Rightarrow> transaction \<Rightarrow> signature_type list \<Rightarrow> sha256 \<Rightarrow> bytes list \<Rightarrow> bool \<Rightarrow> bool
    \<Rightarrow> recovery_cache \<Rightarrow> public_key_type list result \<times> recovery_cache" where
  "get_signature_keys env t sigs chain_id cfd allow_dup use_cache cache =
     (case bindR (trx_sig_digest env chain_id cfd t) (\<lambda>d. bindR (trx_id env t) (\<lambda>i. Inr (d, i))) of
        Inl e \<Rightarrow> (Inl e, cache)
      | Inr (digest, tid) \<Rightarrow>
          (case recover_keys env allow_dup use_cache tid digest sigs [] cache of
             (Inl e, cache) \<Rightarrow> (Inl e, cache)
           | (Inr ks, cache) \<Rightarrow> (Inr ks, if use_cache then trim_cache cache else cache)))"

section \<open>Packed transactions\<close>

text \<open>The field \<open>compression\<close> is a byte: 0 for \<^verbatim>\<open>none\<close>, 1 for \<^verbatim>\<open>zlib\<close>; any other value is possible on input.\<close>

record packed_transaction =
  pt_signatures :: "signature_type list"
  compression :: nat
  packed_context_free_data :: bytes
  packed_trx :: bytes
  unpacked_trx :: "transaction option"

definition fixed_net_overhead_of_packed_trx :: nat where
  "fixed_net_overhead_of_packed_trx = 16"

definition get_unprunable_size :: "packed_transaction \<Rightarrow> nat result" where
  "get_unprunable_size p =
     (let size = u64 (fixed_net_overhead_of_packed_trx + length (packed_trx p))
      in bes_assert (size \<le> 2 ^ 32 - 1) tx_too_big (Inr (u32 size)))"

definition get_prunable_size :: "packed_transaction \<Rightarrow> nat result" where
  "get_prunable_size p =
     bindR (pack_size (pack_vector pack_signature) (pt_signatures p)) (\<lambda>size.
     let size = u64 (size + length (packed_context_free_data p))
     in bes_assert (size \<le> 2 ^ 32 - 1) tx_too_big (Inr (u32 size)))"

definition packed_digest :: "trx_env \<Rightarrow> packed_transaction \<Rightarrow> sha256 result" where
  "packed_digest env p =
     bindR (pack_vector pack_signature (pt_signatures p)) (\<lambda>s.
     bindR (pack_bytes (packed_context_free_data p)) (\<lambda>d.
     bindR (pack_uint 1 (compression p)) (\<lambda>c.
     bindR (pack_bytes (packed_trx p)) (\<lambda>t.
     bindR (pack_sha256 (hash_bytes env (s @ d))) (\<lambda>r. Inr (hash_bytes env (c @ t @ r)))))))"

definition unpack_context_free_data :: "bytes \<Rightarrow> bytes list result" where
  "unpack_context_free_data d = (if d = [] then Inr [] else unpack_all (unpack_vector unpack_bytes) d)"

text \<open>\<^verbatim>\<open>read_limiter::write\<close>: the accumulator is what was written so far.\<close>

definition read_limit :: nat where
  "read_limit = 1 * 1024 * 1024"

definition read_limiter_write :: "bytes \<Rightarrow> bytes \<Rightarrow> bytes result" where
  "read_limiter_write s out =
     bes_assert (length out + length s \<le> read_limit) tx_decompression_error (Inr (out @ s))"

definition zlib_decompress :: "trx_env \<Rightarrow> bytes \<Rightarrow> bytes result" where
  "zlib_decompress env d =
     (case inflate env d of (blocks, complete) \<Rightarrow>
        bindR (foldR read_limiter_write blocks []) (\<lambda>out.
        if complete then Inr out else Inl unhandled_exception))"

definition zlib_decompress_context_free_data :: "trx_env \<Rightarrow> bytes \<Rightarrow> bytes list result" where
  "zlib_decompress_context_free_data env d =
     (if d = [] then Inr [] else bindR (zlib_decompress env d) unpack_context_free_data)"

definition zlib_decompress_transaction :: "trx_env \<Rightarrow> bytes \<Rightarrow> transaction result" where
  "zlib_decompress_transaction env d = bindR (zlib_decompress env d) (unpack_all unpack_transaction)"

definition pack_context_free_data :: "bytes list \<Rightarrow> bytes result" where
  "pack_context_free_data cfd = (if cfd = [] then Inr [] else pack_vector pack_bytes cfd)"

definition zlib_compress_context_free_data :: "trx_env \<Rightarrow> bytes list \<Rightarrow> bytes result" where
  "zlib_compress_context_free_data env cfd =
     (if cfd = [] then Inr [] else bindR (pack_context_free_data cfd) (\<lambda>b. Inr (deflate env b)))"

definition zlib_compress_transaction :: "trx_env \<Rightarrow> transaction \<Rightarrow> bytes result" where
  "zlib_compress_transaction env t = bindR (pack_transaction t) (\<lambda>b. Inr (deflate env b))"

definition get_raw_transaction :: "trx_env \<Rightarrow> packed_transaction \<Rightarrow> bytes result" where
  "get_raw_transaction env p =
     (if compression p = 0 then Inr (packed_trx p)
      else if compression p = 1 then zlib_decompress env (packed_trx p)
      else Inl unknown_transaction_compression)"

definition get_context_free_data :: "trx_env \<Rightarrow> packed_transaction \<Rightarrow> bytes list result" where
  "get_context_free_data env p =
     (if compression p = 0 then unpack_context_free_data (packed_context_free_data p)
      else if compression p = 1 then zlib_decompress_context_free_data env (packed_context_free_data p)
      else Inl unknown_transaction_compression)"

text \<open>\<open>unpacked_trx\<close> is a mutable buffer: \<open>local_unpack\<close> fills it once.\<close>

definition local_unpack :: "trx_env \<Rightarrow> packed_transaction \<Rightarrow> packed_transaction result" where
  "local_unpack env p =
     (if unpacked_trx p \<noteq> None then Inr p
      else if compression p = 0
        then bindR (unpack_all unpack_transaction (packed_trx p)) (\<lambda>t. Inr (p\<lparr>unpacked_trx := Some t\<rparr>))
      else if compression p = 1
        then bindR (zlib_decompress_transaction env (packed_trx p)) (\<lambda>t. Inr (p\<lparr>unpacked_trx := Some t\<rparr>))
      else Inl unknown_transaction_compression)"

definition get_transaction :: "trx_env \<Rightarrow> packed_transaction \<Rightarrow> (transaction \<times> packed_transaction) result" where
  "get_transaction env p = bindR (local_unpack env p) (\<lambda>p. Inr (the (unpacked_trx p), p))"

definition packed_expiration :: "trx_env \<Rightarrow> packed_transaction \<Rightarrow> (nat \<times> packed_transaction) result" where
  "packed_expiration env p = bindR (local_unpack env p) (\<lambda>p. Inr (expiration (the (unpacked_trx p)), p))"

definition packed_id :: "trx_env \<Rightarrow> packed_transaction \<Rightarrow> (sha256 \<times> packed_transaction) result" where
  "packed_id env p =
     bindR (local_unpack env p) (\<lambda>p. bindR (get_transaction env p) (\<lambda>(t, p).
     bindR (trx_id env t) (\<lambda>i. Inr (i, p))))"

definition get_uncached_id :: "trx_env \<Rightarrow> packed_transaction \<Rightarrow> sha256 result" where
  "get_uncached_id env p =
     bindR (get_raw_transaction env p) (\<lambda>raw. bindR (unpack_all unpack_transaction raw) (trx_id env))"

definition get_signed_transaction :: "trx_env \<Rightarrow> packed_transaction \<Rightarrow> (signed_transaction \<times> packed_transaction) result" where
  "get_signed_transaction env p =
     (if compression p = 0 \<or> compression p = 1 then
        bindR (get_transaction env p) (\<lambda>(t, p').
        bindR (if compression p = 0 then unpack_context_free_data (packed_context_free_data p)
               else zlib_decompress_context_free_data env (packed_context_free_data p)) (\<lambda>cfd.
        Inr (transaction.extend t \<lparr>signatures = pt_signatures p, context_free_data = cfd\<rparr>, p')))
      else Inl unknown_transaction_compression)"

definition set_transaction_only :: "trx_env \<Rightarrow> transaction \<Rightarrow> nat \<Rightarrow> packed_transaction \<Rightarrow> packed_transaction result" where
  "set_transaction_only env t c p =
     bindR (if c = 0 then pack_transaction t
            else if c = 1 then zlib_compress_transaction env t
            else Inl unknown_transaction_compression) (\<lambda>b.
     Inr (p\<lparr>compression := c, packed_context_free_data := [], packed_trx := b\<rparr>))"

definition set_transaction :: "trx_env \<Rightarrow> transaction \<Rightarrow> bytes list \<Rightarrow> nat \<Rightarrow> packed_transaction \<Rightarrow> packed_transaction result" where
  "set_transaction env t cfd c p =
     (if c = 0 then
        bindR (pack_transaction t) (\<lambda>b. bindR (pack_context_free_data cfd) (\<lambda>d.
        Inr (p\<lparr>compression := c, packed_context_free_data := d, packed_trx := b\<rparr>)))
      else if c = 1 then
        bindR (zlib_compress_transaction env t) (\<lambda>b. bindR (zlib_compress_context_free_data env cfd) (\<lambda>d.
        Inr (p\<lparr>compression := c, packed_context_free_data := d, packed_trx := b\<rparr>)))
      else Inl unknown_transaction_compression)"

text \<open>The constructor from a signed transaction.\<close>

definition packed_of_signed :: "trx_env \<Rightarrow> signed_transaction \<Rightarrow> nat \<Rightarrow> packed_transaction result" where
  "packed_of_signed env t c =
     set_transaction env (transaction.truncate t) (context_free_data t) c
       \<lparr>pt_signatures = signatures t, compression = 0, packed_context_free_data = [], packed_trx = [], unpacked_trx = None\<rparr>"

section \<open>Transactions read back\<close>

lemma codec_mono: "codec p u v \<Longrightarrow> (\<And>x. w x \<Longrightarrow> v x) \<Longrightarrow> codec p u w"
  by (simp add: codec_def)

definition valid_action :: "action \<Rightarrow> bool" where
  "valid_action a \<longleftrightarrow> length (act_authorization a) \<le> MAX_NUM_ARRAY_ELEMENTS
     \<and> length (act_data a) \<le> MAX_SIZE_OF_BYTE_ARRAYS"

definition valid_transaction :: "transaction \<Rightarrow> bool" where
  "valid_transaction t \<longleftrightarrow> expiration t < 2 ^ 32 \<and> ref_block_num t < 2 ^ 16 \<and> ref_block_prefix t < 2 ^ 32
     \<and> max_net_usage_words t < 2 ^ 32 \<and> max_cpu_usage_ms t < 2 ^ 8 \<and> delay_sec t < 2 ^ 32
     \<and> valid_vector valid_action (context_free_actions t) \<and> valid_vector valid_action (actions t)
     \<and> valid_vector (\<lambda>(n, d). n < 2 ^ 16 \<and> length d \<le> MAX_SIZE_OF_BYTE_ARRAYS) (transaction_extensions t)"

lemma permission_level_codec: "codec pack_permission_level unpack_permission_level (\<lambda>_. True)"
  unfolding pack_permission_level_def unpack_permission_level_def
  by (rule codec_mono [OF codec_struct [OF codec_pair]]) (rule name_codec.codec_axioms, rule name_codec.codec_axioms, auto)

interpretation action_codec: codec pack_action unpack_action valid_action
  unfolding pack_action_def unpack_action_def
proof (rule codec_mono [OF codec_struct])
  show "codec (pack_pair pack_name (pack_pair pack_name (pack_pair (pack_vector pack_permission_level) pack_bytes)))
      (unpack_pair unpack_name (unpack_pair unpack_name (unpack_pair (unpack_vector unpack_permission_level) unpack_bytes)))
      (\<lambda>(a, b). True \<and> (\<lambda>(a, b). True \<and> (\<lambda>(p, d). valid_vector (\<lambda>_. True) p \<and> length d \<le> MAX_SIZE_OF_BYTE_ARRAYS) b) b)"
    by (intro codec_pair codec_vector permission_level_codec name_codec.codec_axioms bytes_codec.codec_axioms)
qed (auto simp: valid_action_def valid_vector_def list_all_iff)

interpretation transaction_codec: codec pack_transaction unpack_transaction valid_transaction
  unfolding pack_transaction_def unpack_transaction_def
  by (rule codec_mono [OF codec_struct],
      (rule codec_pair codec_vector codec_uint unsigned_int.codec_axioms action_codec.codec_axioms
         bytes_codec.codec_axioms)+, auto simp: valid_transaction_def)

interpretation cfd_codec: codec "pack_vector pack_bytes" "unpack_vector unpack_bytes"
    "valid_vector (\<lambda>d. length d \<le> MAX_SIZE_OF_BYTE_ARRAYS)"
  by (rule codec_vector [OF bytes_codec.codec_axioms])

text \<open>
  The decompressor undoes the compressor, whatever the sizes of the blocks that it writes: what the boost filters promise.
\<close>

definition zlib_ok :: "trx_env \<Rightarrow> bool" where
  "zlib_ok env \<longleftrightarrow> (\<forall>b. snd (inflate env (deflate env b)) \<and> concat (fst (inflate env (deflate env b))) = b
     \<and> deflate env b \<noteq> [])"

lemma read_limiter_blocks:
  "foldR read_limiter_write blocks out =
     (if length out + length (concat blocks) \<le> read_limit \<or> blocks = [] then Inr (out @ concat blocks) else Inl tx_decompression_error)"
proof (induction blocks arbitrary: out)
  case (Cons b bs)
  then show ?case by (cases "length out + length b \<le> read_limit") (auto simp: read_limiter_write_def)
qed simp

lemma zlib_decompress_deflate:
  assumes "zlib_ok env" "length b \<le> read_limit"
  shows "zlib_decompress env (deflate env b) = Inr b"
proof -
  obtain blocks where i: "inflate env (deflate env b) = (blocks, True)" "concat blocks = b"
    using assms(1) by (metis prod.collapse zlib_ok_def)
  with assms(2) show ?thesis by (simp add: zlib_decompress_def read_limiter_blocks)
qed

definition fresh_packed :: "signature_type list \<Rightarrow> packed_transaction" where
  "fresh_packed sigs = \<lparr>pt_signatures = sigs, compression = 0, packed_context_free_data = [], packed_trx = [],
     unpacked_trx = None\<rparr>"

text \<open>
  C26. Packing a signed transaction and unpacking it again gives the transaction, its signatures and its context-free data
  back, without and with compression.  With compression it holds up to the limit of one megabyte of
  decompressed data.
\<close>

theorem packed_transaction_roundtrip:
  assumes "valid_transaction (transaction.truncate t)"
    and "valid_vector (\<lambda>d. length d \<le> MAX_SIZE_OF_BYTE_ARRAYS) (context_free_data t)"
    and "packed_of_signed env t c = Inr p"
    and "c = 1 \<longrightarrow> zlib_ok env
      \<and> (\<forall>b. pack_transaction (transaction.truncate t) = Inr b \<or> pack_vector pack_bytes (context_free_data t) = Inr b
            \<longrightarrow> length b \<le> read_limit)"
  shows "\<exists>p'. get_signed_transaction env p = Inr (t, p')"
proof -
  let ?t = "transaction.truncate t" and ?cfd = "context_free_data t"
  obtain b where b: "pack_transaction ?t = Inr b" "unpack_all unpack_transaction b = Inr ?t"
    using transaction_codec.pack_unpack [OF assms(1)] transaction_codec.unpack_all_pack [OF assms(1)] by auto
  obtain d where d: "pack_vector pack_bytes ?cfd = Inr d" "unpack_all (unpack_vector unpack_bytes) d = Inr ?cfd"
    using cfd_codec.pack_unpack [OF assms(2)] cfd_codec.unpack_all_pack [OF assms(2)] by auto
  have "d \<noteq> []" using d(1) by (auto simp: pack_vector_def pack_unsigned_int_def result_simps varint_bytes.simps [of "u32 _"] Let_def split: if_splits)
  have ext: "transaction.extend ?t \<lparr>signatures = signatures t, context_free_data = ?cfd\<rparr> = t"
    by (simp add: transaction.defs)
  consider "c = 0" | "c = 1" using assms(3) by (auto simp: packed_of_signed_def set_transaction_def split: if_splits)
  then show ?thesis
  proof cases
    case 1
    have "p = \<lparr>pt_signatures = signatures t, compression = 0, packed_context_free_data = (if ?cfd = [] then [] else d),
        packed_trx = b, unpacked_trx = None\<rparr>"
      using assms(3) 1 b(1) d(1)
      by (simp add: packed_of_signed_def set_transaction_def pack_context_free_data_def split: if_splits)
    with b(2) d(2) \<open>d \<noteq> []\<close> ext show ?thesis
      by (cases "?cfd = []") (simp_all add: get_signed_transaction_def get_transaction_def local_unpack_def unpack_context_free_data_def)
  next
    case 2
    have z: "zlib_decompress env (deflate env b) = Inr b" "zlib_decompress env (deflate env d) = Inr d"
      "deflate env d \<noteq> []"
      using assms(4) 2 b(1) d(1) by (auto intro: zlib_decompress_deflate simp: zlib_ok_def)
    have "p = \<lparr>pt_signatures = signatures t, compression = 1,
        packed_context_free_data = (if ?cfd = [] then [] else deflate env d),
        packed_trx = deflate env b, unpacked_trx = None\<rparr>"
      using assms(3) 2 b(1) d(1)
      by (simp add: packed_of_signed_def set_transaction_def pack_context_free_data_def zlib_compress_transaction_def
          zlib_compress_context_free_data_def split: if_splits)
    with z b(2) d(2) \<open>d \<noteq> []\<close> ext show ?thesis
      by (cases "?cfd = []") (simp_all add: get_signed_transaction_def get_transaction_def local_unpack_def unpack_context_free_data_def
          zlib_decompress_transaction_def zlib_decompress_context_free_data_def)
  qed
qed

definition sample_action :: "bytes \<Rightarrow> action" where
  "sample_action d = \<lparr>act_account = 5, act_name = 6, act_authorization = [Permission_Level 7 8], act_data = d\<rparr>"

definition sample_trx :: "bytes \<Rightarrow> transaction" where
  "sample_trx d = \<lparr>expiration = 1000, ref_block_num = 3, ref_block_prefix = 4, max_net_usage_words = 300,
     max_cpu_usage_ms = 0, delay_sec = 0, context_free_actions = [], actions = [sample_action d], transaction_extensions = []\<rparr>"

text \<open>
  An environment for examples: the identity in place of compression, and a digest and a recovery of keys that depend on the
  sum of the bytes, so that different data give different digests and different keys.
\<close>

definition sum_env :: trx_env where
  "sum_env = \<lparr>hash_bytes = (\<lambda>bs. SHA256 (of_nat (sum_list (map unat bs))) 0 0 0),
     recover = (\<lambda>sig d. Inr (K1 (ucast (hash0 d)))), deflate = (\<lambda>b. 0 # b), inflate = (\<lambda>b. ([tl b], True))\<rparr>"

lemma sample_valid: "length d < 100 \<Longrightarrow> valid_transaction (sample_trx d)"
  by (simp add: sample_trx_def sample_action_def valid_transaction_def valid_vector_def valid_action_def
      MAX_NUM_ARRAY_ELEMENTS_def MAX_SIZE_OF_BYTE_ARRAYS_def)

lemma le_bytes_numeral: "le_bytes (numeral k) x = of_nat x # le_bytes (pred_numeral k) (x div 256)"
  by (simp only: numeral_eq_Suc [of k] le_bytes.simps)

lemmas pack_eval = pack_transaction_def pack_action_def pack_struct_def pack_pair_def pack_uint_def pack_unsigned_int_def
  pack_vector_def pack_bytes_def pack_name_def pack_permission_level_def varint_bytes.simps u32_def le_bytes_numeral
  MAX_NUM_ARRAY_ELEMENTS_def MAX_SIZE_OF_BYTE_ARRAYS_def sample_trx_def sample_action_def

lemma pack_sample: "pack_transaction (sample_trx []) = Inr [232, 3, 0, 0, 3, 0, 4, 0, 0, 0, 172, 2, 0, 0, 0,
   1, 5, 0, 0, 0, 0, 0, 0, 0, 6, 0, 0, 0, 0, 0, 0, 0, 1, 7, 0, 0, 0, 0, 0, 0, 0, 8, 0, 0, 0, 0, 0, 0, 0, 0, 0]"
  by (simp add: pack_eval)

definition sample_signed :: signed_transaction where
  "sample_signed = transaction.extend (sample_trx []) \<lparr>signatures = [SIG_K1 9], context_free_data = [[1, 2]]\<rparr>"

lemma sample_truncate: "transaction.truncate sample_signed = sample_trx []" "context_free_data sample_signed = [[1, 2]]"
  by (simp_all add: sample_signed_def sample_trx_def transaction.defs)

theorem packed_transaction_roundtrip_witness:
  "\<exists>p p'. packed_of_signed sum_env sample_signed 1 = Inr p \<and> get_signed_transaction sum_env p = Inr (sample_signed, p')"
proof -
  have v: "valid_transaction (transaction.truncate sample_signed)"
    by (simp add: sample_truncate sample_valid)
  have c: "valid_vector (\<lambda>d. length d \<le> MAX_SIZE_OF_BYTE_ARRAYS) (context_free_data sample_signed)"
    by (simp add: sample_truncate valid_vector_def MAX_NUM_ARRAY_ELEMENTS_def MAX_SIZE_OF_BYTE_ARRAYS_def)
  have d: "pack_vector pack_bytes [[1, 2]] = Inr [1, 2, 1, 2]" by (simp add: pack_eval)
  have "zlib_ok sum_env" by (simp add: zlib_ok_def sum_env_def)
  then have z: "(1::nat) = 1 \<longrightarrow> zlib_ok sum_env
      \<and> (\<forall>b. pack_transaction (transaction.truncate sample_signed) = Inr b
            \<or> pack_vector pack_bytes (context_free_data sample_signed) = Inr b \<longrightarrow> length b \<le> read_limit)"
    by (auto simp: sample_truncate pack_sample d read_limit_def)
  obtain p where "packed_of_signed sum_env sample_signed 1 = Inr p"
    by (simp add: packed_of_signed_def set_transaction_def sample_truncate zlib_compress_transaction_def pack_sample
        zlib_compress_context_free_data_def pack_context_free_data_def d)
  with packed_transaction_roundtrip [OF v c _ z] show ?thesis by blast
qed

section \<open>The recovery cache\<close>

text \<open>The entries of the cache for a transaction hold the keys that the signatures recover from its digest.\<close>

definition cache_consistent :: "trx_env \<Rightarrow> sha256 \<Rightarrow> sha256 \<Rightarrow> recovery_cache \<Rightarrow> bool" where
  "cache_consistent env tid digest cache \<longleftrightarrow>
     (\<forall>c \<in> set cache. cached_trx_id c = tid \<longrightarrow> recover env (cached_sig c) digest = Inr (cached_key c))"

lemma recover_cached_eq:
  assumes "cache_consistent env tid digest cache"
  shows "fst (recover_cached env use_cache tid digest sig cache) = recover env sig digest
    \<and> cache_consistent env tid digest (snd (recover_cached env use_cache tid digest sig cache))"
proof -
  have emplace: "cache_consistent env tid digest (cache_emplace_back \<lparr>cached_trx_id = tid, cached_key = k, cached_sig = sig\<rparr> cache)"
    if "recover env sig digest = Inr k" for k
    using assms that by (auto simp: cache_consistent_def cache_emplace_back_def)
  have "recover env sig digest = Inr (cached_key c)"
    if "find (\<lambda>c. cached_sig c = sig) cache = Some c" "cached_trx_id c = tid" for c
    using assms that by (auto simp: cache_consistent_def find_Some_iff dest!: nth_mem)
  with emplace assms show ?thesis
    by (auto simp: recover_cached_def split: option.splits sum.splits)
qed

lemma recover_keys_eq:
  assumes "cache_consistent env tid digest cache"
  shows "fst (recover_keys env allow_dup use_cache tid digest sigs ks cache)
      = fst (recover_keys env allow_dup False tid digest sigs ks cache')
    \<and> cache_consistent env tid digest (snd (recover_keys env allow_dup use_cache tid digest sigs ks cache))"
  using assms
proof (induction sigs arbitrary: ks cache cache')
  case (Cons sig sigs)
  obtain r cache1 where r: "recover_cached env use_cache tid digest sig cache = (r, cache1)" by fastforce
  with recover_cached_eq [OF Cons.prems, of use_cache sig]
  have "r = recover env sig digest" "cache_consistent env tid digest cache1" by simp_all
  with Cons.IH r show ?case
    by (cases "recover env sig digest") (auto simp: recover_cached_def [of _ False])
qed simp

text \<open>
  C27. The recovery cache does not change the result.  As long as the entries of the cache for a transaction were recovered
  from the digest that it is checked with, \<open>get_signature_keys\<close> with the cache gives the same keys or the same
  exception as without it, the cache stays consistent, and it never holds more than a thousand entries after a success.
\<close>

theorem signature_cache_transparent:
  assumes "trx_sig_digest env chain_id cfd t = Inr digest" "trx_id env t = Inr tid"
    and "cache_consistent env tid digest cache"
  shows "case get_signature_keys env t sigs chain_id cfd allow_dup True cache of (r, cache1) \<Rightarrow>
     r = fst (get_signature_keys env t sigs chain_id cfd allow_dup False []) \<and> cache_consistent env tid digest cache1
   \<and> (is_ok r \<longrightarrow> length cache1 \<le> recovery_cache_size)"
proof -
  have trim: "cache_consistent env tid digest (trim_cache c)" if "cache_consistent env tid digest c" for c
    using that by (auto simp: cache_consistent_def trim_cache_def dest: in_set_dropD)
  have "length (trim_cache c) \<le> recovery_cache_size" for c by (simp add: trim_cache_def)
  with recover_keys_eq [OF assms(3), of allow_dup True sigs "[]" "[]"] trim assms(1,2) show ?thesis
    by (auto simp: get_signature_keys_def split: prod.splits sum.splits)
qed

lemmas digest_eval = trx_sig_digest_def trx_id_def pack_sha256_def pack_sample pack_eval default_digest_def sum_env_def

lemma sample_digests:
  "trx_id sum_env (sample_trx []) = Inr (SHA256 444 0 0 0)"
  "trx_sig_digest sum_env default_digest [] (sample_trx []) = Inr (SHA256 444 0 0 0)"
  "trx_sig_digest sum_env default_digest [[1, 2]] (sample_trx []) = Inr (SHA256 450 0 0 0)"
  by (simp_all add: digest_eval)

lemma sum_recover: "recover sum_env sig (SHA256 a b c d) = Inr (K1 (ucast a))"
  by (simp add: sum_env_def)

theorem signature_cache_transparent_witness:
  "fst (get_signature_keys sum_env (sample_trx []) [SIG_K1 9] default_digest [] False True
      [\<lparr>cached_trx_id = SHA256 444 0 0 0, cached_key = K1 444, cached_sig = SIG_K1 9\<rparr>]) = Inr [K1 444]"
proof -
  have c: "cache_consistent sum_env (SHA256 444 0 0 0) (SHA256 444 0 0 0)
      [\<lparr>cached_trx_id = SHA256 444 0 0 0, cached_key = K1 444, cached_sig = SIG_K1 9\<rparr>]"
    by (simp add: cache_consistent_def sum_env_def)
  have "fst (get_signature_keys sum_env (sample_trx []) [SIG_K1 9] default_digest [] False False []) = Inr [K1 444]"
    by (simp add: get_signature_keys_def sample_digests recover_cached_def sum_recover)
  with signature_cache_transparent [OF sample_digests(2,1) c, of "[SIG_K1 9]" False] show ?thesis
    by (auto split: prod.splits)
qed

text \<open>
  The consistency is needed, and the code does not provide it: the cache is looked up by signature and transaction
  identifier, and the identifier does not cover the context-free data.  After a check of a transaction without
  context-free data, the same transaction and signature with other context-free data are given the key that
  signed the original, although the signature recovers another key from the digest of the changed data.
\<close>

theorem cached_key_ignores_context_free_data:
  "let (r1, cache) = get_signature_keys sum_env (sample_trx []) [SIG_K1 9] default_digest [] False True [];
       (r2, _) = get_signature_keys sum_env (sample_trx []) [SIG_K1 9] default_digest [[1, 2]] False True cache;
       (r3, _) = get_signature_keys sum_env (sample_trx []) [SIG_K1 9] default_digest [[1, 2]] False False cache
   in r1 = Inr [K1 444] \<and> r2 = Inr [K1 444] \<and> r3 = Inr [K1 450]"
  by (simp add: get_signature_keys_def sample_digests recover_cached_def trim_cache_def recovery_cache_size_def
      cache_emplace_back_def sum_recover)

text \<open>
  Setting another transaction does not reset the buffer of the unpacked one: a packed transaction that was read once and
  is then given another transaction goes on returning the old one, while \<open>get_uncached_id\<close> and the packed bytes are
  those of the new one.
\<close>

theorem set_transaction_keeps_stale_buffer:
  "bindR (set_transaction_only sum_env (sample_trx []) 0 (fresh_packed [])) (\<lambda>p.
   bindR (get_transaction sum_env p) (\<lambda>(t1, p).
   bindR (set_transaction_only sum_env (sample_trx [1]) 0 p) (\<lambda>p.
   bindR (get_transaction sum_env p) (\<lambda>(t2, p).
   bindR (get_raw_transaction sum_env p) (\<lambda>raw.
   bindR (unpack_all unpack_transaction raw) (\<lambda>t3. Inr (t1, t2, t3)))))))
   = Inr (sample_trx [], sample_trx [], sample_trx [1])"
proof -
  obtain b1 where b1: "pack_transaction (sample_trx []) = Inr b1" "unpack_all unpack_transaction b1 = Inr (sample_trx [])"
    using transaction_codec.pack_unpack transaction_codec.unpack_all_pack sample_valid [of "[]"] by fastforce
  obtain b2 where b2: "pack_transaction (sample_trx [1]) = Inr b2" "unpack_all unpack_transaction b2 = Inr (sample_trx [1])"
    using transaction_codec.pack_unpack transaction_codec.unpack_all_pack sample_valid [of "[1]"] by fastforce
  from b1 b2 show ?thesis
    by (simp add: set_transaction_only_def get_transaction_def local_unpack_def get_raw_transaction_def fresh_packed_def)
qed

text \<open>
  A transaction refers to a block by the low 16 bits of its number and by 32 bits of its id: after setting a
  reference block, exactly the blocks with the same low bits of number and id are accepted, among them the block itself.
\<close>

theorem reference_block_verified:
  "verify_reference_block b (set_reference_block a t) \<longleftrightarrow>
     num_from_id a mod 2 ^ 16 = num_from_id b mod 2 ^ 16 \<and> take_bit 32 (hash1 a) = take_bit 32 (hash1 b)"
proof -
  have "unat (hash1 a) mod 2 ^ 32 = unat (hash1 b) mod 2 ^ 32 \<longleftrightarrow> take_bit 32 (hash1 a) = take_bit 32 (hash1 b)"
    by (simp only: unsigned_take_bit_eq [symmetric] take_bit_eq_mod [symmetric] word_unat_eq_iff)
  then show ?thesis by (auto simp: verify_reference_block_def set_reference_block_def u16_def u32_def)
qed

lemma get_ref_blocknum_id: "n < 2 ^ 32 \<Longrightarrow> get_ref_blocknum n = n"
proof -
  assume n: "n < 2 ^ 32"
  have "n div 0xffff * 0xffff \<le> n" by simp
  with n have "u32 (n div 0xffff * 0xffff) = n div 0xffff * 0xffff" by (simp add: u32_def)
  with n show ?thesis by (simp only: get_ref_blocknum_def div_mult_mod_eq) (simp add: u32_def)
qed

end
