(* ===== verification/Permissions.thy ===== *)
theory Permissions
  imports Transactions Chainbase
begin

text \<open>
  The authorization manager: \<^verbatim>\<open>libraries/chain/authorization_manager.cpp\<close> with the permission objects and permission links of
  \<^verbatim>\<open>permission_object.hpp\<close> and \<^verbatim>\<open>permission_link_object.hpp\<close> and the native actions of \<^verbatim>\<open>contract_types.hpp\<close> that change
  permissions.

  The three tables are indices of theory \<open>Chainbase\<close>; an object is found by id or by the key of a unique index.  The state
  also has what the manager asks the controller for: the time of the pending block, two configuration values and the
  deferred transactions.  The data of a native action are unpacked by the functions in the record
  \<open>native_codec\<close>, a parameter; the time limit of a check is the parameter \<open>checktime\<close>, the outcome of its n-th call.
\<close>

section \<open>Names of accounts, permissions and native actions\<close>

definition system_account_name :: name where
  "system_account_name = string_to_name ''besio''"

definition active_name :: name where
  "active_name = string_to_name ''active''"

definition owner_name :: name where
  "owner_name = string_to_name ''owner''"

definition besio_any_name :: name where
  "besio_any_name = string_to_name ''besio.any''"

definition besio_code_name :: name where
  "besio_code_name = string_to_name ''besio.code''"

definition updateauth_name :: name where
  "updateauth_name = string_to_name ''updateauth''"

definition deleteauth_name :: name where
  "deleteauth_name = string_to_name ''deleteauth''"

definition linkauth_name :: name where
  "linkauth_name = string_to_name ''linkauth''"

definition unlinkauth_name :: name where
  "unlinkauth_name = string_to_name ''unlinkauth''"

definition canceldelay_name :: name where
  "canceldelay_name = string_to_name ''canceldelay''"

record updateauth =
  ua_account :: name
  ua_permission :: name
  ua_parent :: name
  ua_auth :: authority

record deleteauth =
  da_account :: name
  da_permission :: name

record linkauth =
  la_account :: name
  la_code :: name
  la_type :: name
  la_requirement :: name

record unlinkauth =
  ula_account :: name
  ula_code :: name
  ula_type :: name

record canceldelay =
  canceling_auth :: permission_level
  cd_trx_id :: sha256

record native_codec =
  as_updateauth :: "bytes \<Rightarrow> updateauth result"
  as_deleteauth :: "bytes \<Rightarrow> deleteauth result"
  as_linkauth :: "bytes \<Rightarrow> linkauth result"
  as_unlinkauth :: "bytes \<Rightarrow> unlinkauth result"
  as_canceldelay :: "bytes \<Rightarrow> canceldelay result"

text \<open>\<^verbatim>\<open>action::data_as\<close>: the account and the name of the action have to be those of the structure.\<close>

definition data_as :: "name \<Rightarrow> (bytes \<Rightarrow> 'a result) \<Rightarrow> action \<Rightarrow> 'a result" where
  "data_as struct_name as_struct act =
     bes_assert (act_account act = system_account_name) action_type_exception
       (bes_assert (act_name act = struct_name) action_type_exception (as_struct (act_data act)))"

section \<open>Tables\<close>

record permission_usage_object =
  last_used :: time_point

record permission_object =
  usage_id :: nat
  parent :: nat
  perm_owner :: name
  perm_name :: name
  last_updated :: time_point
  perm_auth :: authority

record permission_link_object =
  link_account :: name
  link_code :: name
  link_type :: name
  required_permission :: name

record generated_transaction_object =
  gto_trx_id :: sha256
  gto_sender :: name
  gto_sender_id :: nat
  gto_payer :: name
  delay_until :: time_point
  gto_expiration :: time_point
  published :: time_point
  gto_packed_trx :: bytes

text \<open>The unique indices that do not contain the id.\<close>

definition permission_clash :: "permission_object \<Rightarrow> permission_object \<Rightarrow> bool" where
  "permission_clash = key_clash [\<lambda>p. (perm_owner p, perm_name p)]"

definition usage_clash :: "permission_usage_object \<Rightarrow> permission_usage_object \<Rightarrow> bool" where
  "usage_clash = key_clash ([] :: (permission_usage_object \<Rightarrow> unit) list)"

definition link_clash :: "permission_link_object \<Rightarrow> permission_link_object \<Rightarrow> bool" where
  "link_clash = key_clash [\<lambda>l. (link_account l, link_code l, link_type l, 0),
     \<lambda>l. (link_account l, required_permission l, link_code l, link_type l)]"

text \<open>The object with a key in a unique index, and its id.\<close>

definition find_by :: "('v \<Rightarrow> 'k) \<Rightarrow> 'k \<Rightarrow> 'v generic_index \<Rightarrow> (nat \<times> 'v) option" where
  "find_by key k idx = find (\<lambda>(i, v). key v = k) (indices idx)"

record authorization_db =
  permissions :: "permission_object generic_index"
  permission_usages :: "permission_usage_object generic_index"
  permission_links :: "permission_link_object generic_index"
  generated_transactions :: "generated_transaction_object list"
  pending_block_time :: time_point
  max_transaction_delay :: nat
  max_authority_depth :: nat

section \<open>Permission hierarchy\<close>

text \<open>
  The loop of \<open>permission_object::satisfies\<close> that walks up the parents.  It visits a different object in every round
  unless the parents form a cycle, in which case it never ends; so it is followed for as many rounds as there are
  objects.  \<open>undefined_behaviour\<close> is a dangling parent or a cycle.
\<close>

fun satisfies_walk :: "(nat \<times> permission_object) list \<Rightarrow> nat \<Rightarrow> nat \<Rightarrow> nat \<Rightarrow> bool result" where
  "satisfies_walk perms i 0 cur = Inl undefined_behaviour"
| "satisfies_walk perms i (Suc n) cur =
     (case map_of perms cur of
        None \<Rightarrow> Inl undefined_behaviour
      | Some q \<Rightarrow>
          if i = parent q then Inr True
          else if parent q = 0 then Inr False
          else satisfies_walk perms i n (parent q))"

definition satisfies :: "nat \<times> permission_object \<Rightarrow> nat \<times> permission_object \<Rightarrow> permission_object generic_index \<Rightarrow> bool result" where
  "satisfies p q idx =
     (case (p, q) of ((i, this), (j, other)) \<Rightarrow>
        if perm_owner this \<noteq> perm_owner other then Inr False
        else if i = j \<or> i = parent other then Inr True
        else satisfies_walk (indices idx) i (length (indices idx)) (parent other))"

section \<open>Changes of permissions\<close>

definition reserved_permission :: permission_object where
  "reserved_permission = \<lparr>usage_id = 0, parent = 0, perm_owner = 0, perm_name = 0, last_updated = 0,
     perm_auth = \<lparr>threshold = 0, auth_keys = [], auth_accounts = [], auth_waits = []\<rparr>\<rparr>"

definition initialize_authorization_database :: "authorization_db \<Rightarrow> authorization_db result" where
  "initialize_authorization_database db =
     bindR (emplace permission_clash reserved_permission (permissions db)) (\<lambda>ps. Inr (db\<lparr>permissions := ps\<rparr>))"

definition create_permission :: "name \<Rightarrow> name \<Rightarrow> nat \<Rightarrow> authority \<Rightarrow> time_point \<Rightarrow> authorization_db
    \<Rightarrow> (nat \<times> authorization_db) result" where
  "create_permission account nm par auth initial_creation_time db =
     (let creation_time = (if initial_creation_time = 0 then pending_block_time db else initial_creation_time) in
      bindR (emplace usage_clash \<lparr>last_used = creation_time\<rparr> (permission_usages db)) (\<lambda>us.
      bindR (emplace permission_clash \<lparr>usage_id = next_id (permission_usages db), parent = par, perm_owner = account,
               perm_name = nm, last_updated = creation_time, perm_auth = auth\<rparr> (permissions db)) (\<lambda>ps.
      Inr (next_id (permissions db), db\<lparr>permissions := ps, permission_usages := us\<rparr>))))"

definition modify_permission :: "nat \<Rightarrow> authority \<Rightarrow> authorization_db \<Rightarrow> authorization_db result" where
  "modify_permission i auth db =
     bindR (modify permission_clash i (\<lambda>p. p\<lparr>last_updated := pending_block_time db, perm_auth := auth\<rparr>) (permissions db)) (\<lambda>ps.
     Inr (db\<lparr>permissions := ps\<rparr>))"

definition remove_permission :: "nat \<times> permission_object \<Rightarrow> authorization_db \<Rightarrow> authorization_db result" where
  "remove_permission p db =
     bes_assert (\<not> list_ex (\<lambda>(j, q). parent q = fst p) (indices (permissions db))) action_validate_exception
       (bindR (remove_object (usage_id (snd p)) (permission_usages db)) (\<lambda>us.
        bindR (remove (fst p) (permissions db)) (\<lambda>ps.
        Inr (db\<lparr>permissions := ps, permission_usages := us\<rparr>))))"

definition update_permission_usage :: "permission_object \<Rightarrow> authorization_db \<Rightarrow> authorization_db result" where
  "update_permission_usage p db =
     bindR (get_object (usage_id p) (permission_usages db)) (\<lambda>_.
     bindR (modify usage_clash (usage_id p) (\<lambda>u. u\<lparr>last_used := pending_block_time db\<rparr>) (permission_usages db)) (\<lambda>us.
     Inr (db\<lparr>permission_usages := us\<rparr>)))"

definition get_permission_last_used :: "permission_object \<Rightarrow> authorization_db \<Rightarrow> time_point result" where
  "get_permission_last_used p db =
     bindR (get_object (usage_id p) (permission_usages db)) (\<lambda>u. Inr (last_used u))"

section \<open>Lookups\<close>

text \<open>
  An exception of the chain library passes the \<^verbatim>\<open>BES_RETHROW_EXCEPTIONS\<close> as it is, a standard exception becomes a
  \<^verbatim>\<open>permission_query_exception\<close>.
\<close>

definition find_permission :: "permission_level \<Rightarrow> authorization_db \<Rightarrow> (nat \<times> permission_object) option result" where
  "find_permission level db =
     bes_assert (actor level \<noteq> 0 \<and> permission level \<noteq> 0) invalid_permission
       (Inr (find_by (\<lambda>p. (perm_owner p, perm_name p)) (actor level, permission level) (permissions db)))"

definition get_permission :: "permission_level \<Rightarrow> authorization_db \<Rightarrow> (nat \<times> permission_object) result" where
  "get_permission level db =
     bes_assert (actor level \<noteq> 0 \<and> permission level \<noteq> 0) invalid_permission
       (of_option permission_query_exception
         (find_by (\<lambda>p. (perm_owner p, perm_name p)) (actor level, permission level) (permissions db)))"

definition find_link :: "name \<Rightarrow> name \<Rightarrow> name \<Rightarrow> authorization_db \<Rightarrow> (nat \<times> permission_link_object) option" where
  "find_link account code typ db =
     find_by (\<lambda>l. (link_account l, link_code l, link_type l)) (account, code, typ) (permission_links db)"

definition lookup_linked_permission :: "name \<Rightarrow> name \<Rightarrow> name \<Rightarrow> authorization_db \<Rightarrow> name option" where
  "lookup_linked_permission authorizer_account scope nm db =
     (let link = (case find_link authorizer_account scope nm db of
                    Some l \<Rightarrow> Some l | None \<Rightarrow> find_link authorizer_account scope 0 db)
      in map_option (\<lambda>(i, l). required_permission l) link)"

definition lookup_minimum_permission :: "name \<Rightarrow> name \<Rightarrow> name \<Rightarrow> authorization_db \<Rightarrow> name option result" where
  "lookup_minimum_permission authorizer_account scope nm db =
     bes_assert (scope = system_account_name \<longrightarrow>
         nm \<noteq> updateauth_name \<and> nm \<noteq> deleteauth_name \<and> nm \<noteq> linkauth_name
       \<and> nm \<noteq> unlinkauth_name \<and> nm \<noteq> canceldelay_name) unlinkable_min_permission_action
       (Inr (case lookup_linked_permission authorizer_account scope nm db of
               None \<Rightarrow> Some active_name
             | Some linked \<Rightarrow> if linked = besio_any_name then None else Some linked))"

section \<open>Authorization of native actions\<close>

definition single_auth :: "permission_level list \<Rightarrow> permission_level result" where
  "single_auth auths = bes_assert (length auths = 1) irrelevant_auth_exception (Inr (hd auths))"

definition require_satisfies :: "permission_level \<Rightarrow> nat \<times> permission_object \<Rightarrow> authorization_db \<Rightarrow> unit result" where
  "require_satisfies auth min_permission db =
     bindR (get_permission auth db) (\<lambda>p.
     bindR (satisfies p min_permission (permissions db)) (\<lambda>s.
     bes_assert s irrelevant_auth_exception (Inr ())))"

definition check_updateauth_authorization :: "updateauth \<Rightarrow> permission_level list \<Rightarrow> authorization_db \<Rightarrow> unit result" where
  "check_updateauth_authorization update auths db =
     bindR (single_auth auths) (\<lambda>auth.
     bes_assert (actor auth = ua_account update) irrelevant_auth_exception
       (bindR (find_permission (Permission_Level (ua_account update) (ua_permission update)) db) (\<lambda>existing.
        bindR (case existing of
                 Some p \<Rightarrow> Inr p
               | None \<Rightarrow> get_permission (Permission_Level (ua_account update) (ua_parent update)) db) (\<lambda>min_permission.
        require_satisfies auth min_permission db))))"

definition check_deleteauth_authorization :: "deleteauth \<Rightarrow> permission_level list \<Rightarrow> authorization_db \<Rightarrow> unit result" where
  "check_deleteauth_authorization del auths db =
     bindR (single_auth auths) (\<lambda>auth.
     bes_assert (actor auth = da_account del) irrelevant_auth_exception
       (bindR (get_permission (Permission_Level (da_account del) (da_permission del)) db) (\<lambda>min_permission.
        require_satisfies auth min_permission db)))"

text \<open>The arguments of \<^verbatim>\<open>get_permission(auth).satisfies( get_permission(..), ..)\<close>: the object is evaluated first.\<close>

definition require_permission :: "permission_level \<Rightarrow> permission_level \<Rightarrow> authorization_db \<Rightarrow> unit result" where
  "require_permission auth min_level db =
     bindR (get_permission auth db) (\<lambda>p.
     bindR (get_permission min_level db) (\<lambda>min_permission.
     bindR (satisfies p min_permission (permissions db)) (\<lambda>s.
     bes_assert s irrelevant_auth_exception (Inr ()))))"

definition check_linkauth_authorization :: "linkauth \<Rightarrow> permission_level list \<Rightarrow> authorization_db \<Rightarrow> unit result" where
  "check_linkauth_authorization link auths db =
     bindR (single_auth auths) (\<lambda>auth.
     bes_assert (actor auth = la_account link) irrelevant_auth_exception
       (bes_assert (la_type link \<noteq> updateauth_name) action_validate_exception
       (bes_assert (la_type link \<noteq> deleteauth_name) action_validate_exception
       (bes_assert (la_type link \<noteq> linkauth_name) action_validate_exception
       (bes_assert (la_type link \<noteq> unlinkauth_name) action_validate_exception
       (bes_assert (la_type link \<noteq> canceldelay_name) action_validate_exception
         (bindR (lookup_minimum_permission (la_account link) (la_code link) (la_type link) db) (\<lambda>linked.
          case linked of
            None \<Rightarrow> Inr ()
          | Some n \<Rightarrow> require_permission auth (Permission_Level (la_account link) n) db))))))))"

definition check_unlinkauth_authorization :: "unlinkauth \<Rightarrow> permission_level list \<Rightarrow> authorization_db \<Rightarrow> unit result" where
  "check_unlinkauth_authorization unlink auths db =
     bindR (single_auth auths) (\<lambda>auth.
     bes_assert (actor auth = ula_account unlink) irrelevant_auth_exception
       (case lookup_linked_permission (ula_account unlink) (ula_code unlink) (ula_type unlink) db of
          None \<Rightarrow> Inl transaction_exception
        | Some n \<Rightarrow>
            if n = besio_any_name then Inr ()
            else require_permission auth (Permission_Level (ula_account unlink) n) db))"

text \<open>
  \<open>generated_transactions\<close> is in ascending order of transaction ids.  \<open>lower_bound\<close> finds the first one whose id is not
  less than the given one; the ids are unique, so the assertion asks for the one with the id.
\<close>

definition find_generated :: "sha256 \<Rightarrow> authorization_db \<Rightarrow> generated_transaction_object option" where
  "find_generated tid db = find (\<lambda>g. gto_trx_id g = tid) (generated_transactions db)"

definition check_canceldelay_authorization :: "canceldelay \<Rightarrow> permission_level list \<Rightarrow> authorization_db \<Rightarrow> int result" where
  "check_canceldelay_authorization cancel auths db =
     bindR (single_auth auths) (\<lambda>auth.
     bindR (require_permission auth (canceling_auth cancel) db) (\<lambda>_.
     case find_generated (cd_trx_id cancel) db of
       None \<Rightarrow> Inl tx_not_found
     | Some g \<Rightarrow>
         bes_assert (gto_sender g = 0) tx_not_found
           (bindR (unpack_all unpack_transaction (gto_packed_trx g)) (\<lambda>trx.
            bes_assert (list_ex (\<lambda>act. list_ex (\<lambda>a. a = canceling_auth cancel) (act_authorization act)) (actions trx))
              action_validate_exception
              (Inr (i64 (delay_until g - published g)))))))"

section \<open>Authorization of transactions\<close>

text \<open>
  The first loop of \<open>check_authorization\<close>: every declared authorization has to be at least the minimum permission of
  its action; it is collected with the smallest delay under which it is declared.  The state is the map of
  collected permissions and the number of calls of \<open>checktime\<close>.
\<close>

definition special_case :: "native_codec \<Rightarrow> authorization_db \<Rightarrow> int \<Rightarrow> action \<Rightarrow> (bool \<times> int) result" where
  "special_case nc db delay act =
     (if act_account act \<noteq> system_account_name then Inr (False, delay)
      else if act_name act = updateauth_name then
        bindR (data_as updateauth_name (as_updateauth nc) act) (\<lambda>d.
        bindR (check_updateauth_authorization d (act_authorization act) db) (\<lambda>_. Inr (True, delay)))
      else if act_name act = deleteauth_name then
        bindR (data_as deleteauth_name (as_deleteauth nc) act) (\<lambda>d.
        bindR (check_deleteauth_authorization d (act_authorization act) db) (\<lambda>_. Inr (True, delay)))
      else if act_name act = linkauth_name then
        bindR (data_as linkauth_name (as_linkauth nc) act) (\<lambda>d.
        bindR (check_linkauth_authorization d (act_authorization act) db) (\<lambda>_. Inr (True, delay)))
      else if act_name act = unlinkauth_name then
        bindR (data_as unlinkauth_name (as_unlinkauth nc) act) (\<lambda>d.
        bindR (check_unlinkauth_authorization d (act_authorization act) db) (\<lambda>_. Inr (True, delay)))
      else if act_name act = canceldelay_name then
        bindR (data_as canceldelay_name (as_canceldelay nc) act) (\<lambda>d.
        bindR (check_canceldelay_authorization d (act_authorization act) db) (\<lambda>c. Inr (True, max delay c)))
      else Inr (False, delay))"

type_synonym collected = "(permission_level \<times> int) list \<times> nat"

definition collect_auth :: "(nat \<Rightarrow> unit result) \<Rightarrow> authorization_db \<Rightarrow> action \<Rightarrow> bool \<Rightarrow> int \<Rightarrow> permission_level
    \<Rightarrow> collected \<Rightarrow> collected result" where
  "collect_auth checktime db act special delay declared_auth st =
     bindR (checktime (snd st)) (\<lambda>_.
     bindR (if special then Inr ()
            else bindR (lookup_minimum_permission (actor declared_auth) (act_account act) (act_name act) db) (\<lambda>m.
              case m of
                None \<Rightarrow> Inr ()
              | Some n \<Rightarrow>
                  bindR (get_permission (Permission_Level (actor declared_auth) n) db) (\<lambda>min_permission.
                  require_satisfies declared_auth min_permission db))) (\<lambda>_.
     let m = map_emplace declared_auth delay (fst st);
         m = (if map_of (fst st) declared_auth \<noteq> None \<and> the (map_of m declared_auth) > delay
              then map_put declared_auth delay m else m)
     in Inr (m, Suc (snd st))))"

definition collect_action :: "native_codec \<Rightarrow> (nat \<Rightarrow> unit result) \<Rightarrow> authorization_db \<Rightarrow> int \<Rightarrow> action
    \<Rightarrow> collected \<Rightarrow> collected result" where
  "collect_action nc checktime db delay act st =
     bindR (special_case nc db delay act) (\<lambda>(special, delay).
     foldR (collect_auth checktime db act special delay) (act_authorization act) st)"

text \<open>The second loop: every collected permission has to be satisfied; the state is the used keys and the calls of \<open>checktime\<close>.\<close>

definition check_collected :: "(nat \<Rightarrow> unit result) \<Rightarrow> authority_checker \<Rightarrow> permission_level \<times> int
    \<Rightarrow> bool list \<times> nat \<Rightarrow> (bool list \<times> nat) result" where
  "check_collected checktime chk p st =
     bindR (checktime (snd st)) (\<lambda>_.
     bindR (satisfied_delay chk (fst p) (snd p) (fst st)) (\<lambda>(r, used).
     bes_assert r unsatisfied_authorization (Inr (used, Suc (snd st)))))"

definition delay_max_limit :: "authorization_db \<Rightarrow> int" where
  "delay_max_limit db = seconds (int (max_transaction_delay db))"

definition effective_delay :: "authorization_db \<Rightarrow> int \<Rightarrow> int" where
  "effective_delay db delay = (if delay \<ge> delay_max_limit db then INT64_MAX else delay)"

definition db_authority :: "authorization_db \<Rightarrow> permission_level \<Rightarrow> authority result" where
  "db_authority db p = bindR (get_permission p db) (\<lambda>(i, q). Inr (perm_auth q))"

definition check_authorization :: "native_codec \<Rightarrow> (nat \<Rightarrow> unit result) \<Rightarrow> action list \<Rightarrow> public_key_type list
    \<Rightarrow> permission_level list \<Rightarrow> int \<Rightarrow> bool \<Rightarrow> authorization_db \<Rightarrow> unit result" where
  "check_authorization nc checktime acts ks ps delay allow_unused_keys db =
     (let effective_provided_delay = effective_delay db delay;
          (chk, used) = make_auth_checker (db_authority db) (max_authority_depth db) ks ps effective_provided_delay in
      bindR (foldR (collect_action nc checktime db effective_provided_delay) acts ([], 0)) (\<lambda>(to_satisfy, n).
      bindR (foldR (check_collected checktime chk) to_satisfy (used, n)) (\<lambda>(used, n).
      if allow_unused_keys then Inr () else bes_assert (all_keys_used used) tx_irrelevant_sig (Inr ()))))"

definition check_account_authorization :: "name \<Rightarrow> name \<Rightarrow> public_key_type list \<Rightarrow> permission_level list \<Rightarrow> int \<Rightarrow> bool
    \<Rightarrow> authorization_db \<Rightarrow> unit result" where
  "check_account_authorization account perm ks ps delay allow_unused_keys db =
     (let (chk, used) = make_auth_checker (db_authority db) (max_authority_depth db) ks ps (effective_delay db delay) in
      bindR (satisfied chk (Permission_Level account perm) used) (\<lambda>(r, used).
      bes_assert r unsatisfied_authorization
        (if allow_unused_keys then Inr () else bes_assert (all_keys_used used) tx_irrelevant_sig (Inr ()))))"

definition require_declared :: "authority_checker \<Rightarrow> permission_level \<Rightarrow> bool list \<Rightarrow> bool list result" where
  "require_declared chk declared_auth used =
     bindR (satisfied chk declared_auth used) (\<lambda>(r, used). bes_assert r unsatisfied_authorization (Inr used))"

definition get_required_keys :: "transaction \<Rightarrow> public_key_type list \<Rightarrow> int \<Rightarrow> authorization_db \<Rightarrow> public_key_type list result" where
  "get_required_keys trx candidate_keys delay db =
     (let (chk, used) = make_auth_checker (db_authority db) (max_authority_depth db) candidate_keys [] delay in
      bindR (foldR (\<lambda>act. foldR (require_declared chk) (act_authorization act)) (actions trx) used) (\<lambda>used.
      Inr (used_keys chk used)))"

section \<open>The hierarchy of permissions\<close>

text \<open>
  The permissions form a forest below the reserved object 0: the parent of every other permission exists, has a smaller id, and
  is object 0 or a permission of the same account.
\<close>

definition tree_ok :: "(nat \<rightharpoonup> permission_object) \<Rightarrow> bool" where
  "tree_ok m \<longleftrightarrow>
     (\<exists>r. m 0 = Some r \<and> parent r = 0 \<and> perm_owner r = 0)
   \<and> (\<forall>j p. m j = Some p \<and> j \<noteq> 0 \<longrightarrow> perm_owner p \<noteq> 0 \<and> parent p < j
        \<and> (\<exists>q. m (parent p) = Some q \<and> (parent p \<noteq> 0 \<longrightarrow> perm_owner q = perm_owner p)))"

inductive above :: "(nat \<rightharpoonup> permission_object) \<Rightarrow> nat \<Rightarrow> nat \<Rightarrow> bool" for m where
  above_refl: "above m i i"
| above_step: "m j = Some p \<Longrightarrow> j \<noteq> 0 \<Longrightarrow> above m i (parent p) \<Longrightarrow> above m i j"

inductive_cases above_cases: "above m i j"

lemma tree_okD:
  assumes "tree_ok m" "m j = Some p" "j \<noteq> 0"
  obtains q where "perm_owner p \<noteq> 0" "parent p < j" "m (parent p) = Some q" "parent p \<noteq> 0 \<Longrightarrow> perm_owner q = perm_owner p"
  using assms unfolding tree_ok_def by metis

lemma above_0: "above m i 0 \<longleftrightarrow> i = 0"
  by (auto elim: above_cases intro: above_refl)

lemma above_parent: "m j = Some p \<Longrightarrow> j \<noteq> 0 \<Longrightarrow> i \<noteq> j \<Longrightarrow> above m i j \<longleftrightarrow> above m i (parent p)"
  by (auto elim: above_cases intro: above_step)

lemma above_owner:
  assumes "tree_ok m" "above m i j" "i \<noteq> 0" "m i = Some p" "m j = Some q"
  shows "perm_owner p = perm_owner q"
  using assms(2,3,4,5)
proof (induction arbitrary: q)
  case (above_step j r i)
  then obtain s where s: "m (parent r) = Some s" "parent r \<noteq> 0 \<Longrightarrow> perm_owner s = perm_owner r"
    using tree_okD [OF assms(1)] by metis
  have "parent r \<noteq> 0" using above_step.hyps(3) above_step.prems(1) above_0 by metis
  with s above_step show ?case by auto
qed simp

lemma walk_above:
  assumes "tree_ok (map_of perms)" "i \<noteq> 0" "i \<noteq> cur" "map_of perms cur \<noteq> None"
    and "card {k \<in> dom (map_of perms). k \<le> cur} \<le> n"
  shows "satisfies_walk perms i n cur = Inr (above (map_of perms) i cur)"
  using assms(3-)
proof (induction n arbitrary: cur)
  case 0
  have "finite {k \<in> dom (map_of perms). k \<le> cur}" by (simp add: finite_dom_map_of)
  with 0 show ?case by auto
next
  case (Suc n)
  let ?m = "map_of perms"
  obtain q where q: "?m cur = Some q" using Suc.prems by blast
  show ?case
  proof (cases "cur = 0")
    case True
    with assms(1) q have "parent q = 0" by (auto simp: tree_ok_def)
    with True q assms(2) show ?thesis by (simp add: above_0)
  next
    case False
    obtain r where r: "parent q < cur" "?m (parent q) = Some r" using tree_okD [OF assms(1) q False] by metis
    have above: "above ?m i cur \<longleftrightarrow> above ?m i (parent q)" using above_parent [of ?m cur q i] q False Suc.prems(1) by simp
    have "card {k \<in> dom ?m. k \<le> parent q} < card {k \<in> dom ?m. k \<le> cur}"
    proof (rule psubset_card_mono)
      show "finite {k \<in> dom ?m. k \<le> cur}" by (simp add: finite_dom_map_of)
      have "cur \<in> {k \<in> dom ?m. k \<le> cur}" "cur \<notin> {k \<in> dom ?m. k \<le> parent q}" using r(1) q by auto
      moreover have "{k \<in> dom ?m. k \<le> parent q} \<subseteq> {k \<in> dom ?m. k \<le> cur}" using r(1) by auto
      ultimately show "{k \<in> dom ?m. k \<le> parent q} \<subset> {k \<in> dom ?m. k \<le> cur}" by blast
    qed
    then have c: "card {k \<in> dom ?m. k \<le> parent q} \<le> n" using Suc.prems(3) by linarith
    show ?thesis
    proof (cases "i = parent q")
      case True
      with q above show ?thesis by (simp add: above_refl)
    next
      case ne: False
      show ?thesis
      proof (cases "parent q = 0")
        case True
        with q ne assms(2) above show ?thesis by (simp add: above_0)
      next
        case False
        with q ne above Suc.IH [of "parent q"] r(2) c show ?thesis by simp
      qed
    qed
  qed
qed

lemma satisfies_above:
  assumes "tree_ok (map_of (indices idx))"
    and "map_of (indices idx) i = Some p" "map_of (indices idx) j = Some q" "i \<noteq> 0" "j \<noteq> 0"
  shows "satisfies (i, p) (j, q) idx = Inr (above (map_of (indices idx)) i j)"
proof -
  let ?m = "map_of (indices idx)"
  obtain r where r: "?m (parent q) = Some r" using tree_okD [OF assms(1,3,5)] by metis
  consider "perm_owner p \<noteq> perm_owner q" | "perm_owner p = perm_owner q" "i = j"
    | "perm_owner p = perm_owner q" "i \<noteq> j" "i = parent q"
    | "perm_owner p = perm_owner q" "i \<noteq> j" "i \<noteq> parent q" by blast
  then show ?thesis
  proof cases
    case 1
    then have "\<not> above ?m i j" using above_owner [OF assms(1) _ assms(4,2,3)] by blast
    with 1 show ?thesis by (simp add: satisfies_def)
  next
    case 2
    then show ?thesis by (simp add: satisfies_def above_refl)
  next
    case 3
    then have "above ?m i j" using above_step [of ?m j q i] assms(3,5) above_refl by simp
    with 3 show ?thesis by (simp add: satisfies_def)
  next
    case 4
    have "card {k \<in> dom ?m. k \<le> parent q} \<le> card (dom ?m)"
      by (rule card_mono) (auto simp: finite_dom_map_of)
    also have "\<dots> \<le> length (indices idx)"
      by (simp add: dom_map_of_conv_image_fst card_image_le card_length le_trans [OF card_image_le])
    finally have "satisfies_walk (indices idx) i (length (indices idx)) (parent q) = Inr (above ?m i (parent q))"
      using walk_above [OF assms(1,4) 4(3)] r by simp
    moreover have "above ?m i j \<longleftrightarrow> above ?m i (parent q)" using above_parent [of ?m j q i] assms(3,5) 4(2) by simp
    ultimately show ?thesis using 4 by (simp add: satisfies_def)
  qed
qed

text \<open>
  C30. \<open>permission_object::satisfies\<close> decides the hierarchy.  In a forest of permissions, the check that one permission
  satisfies another terminates, meets no dangling parent, and answers whether the first is the second or one of
  its ancestors.
\<close>

theorem satisfies_iff_above:
  assumes "tree_ok (map_of (indices idx))"
    and "map_of (indices idx) i = Some p" "map_of (indices idx) j = Some q" "i \<noteq> 0" "j \<noteq> 0"
  shows "satisfies (i, p) (j, q) idx = Inr (above (map_of (indices idx)) i j)"
  using assms by (rule satisfies_above)

definition sample_perm :: "nat \<Rightarrow> name \<Rightarrow> name \<Rightarrow> authority \<Rightarrow> permission_object" where
  "sample_perm par own nm auth = \<lparr>usage_id = 0, parent = par, perm_owner = own, perm_name = nm, last_updated = 0, perm_auth = auth\<rparr>"

definition sample_perms :: "permission_object generic_index" where
  "sample_perms = empty_index\<lparr>next_id := 4, indices := [(0, reserved_permission),
     (1, sample_perm 0 7 1 (authority_of_key (K1 1) 0)), (2, sample_perm 1 7 2 (authority_of_key (K1 2) 0)),
     (3, sample_perm 2 7 3 (authority_of_key (K1 3) 0))]\<rparr>"

theorem satisfies_iff_above_witness:
  "satisfies (1, sample_perm 0 7 1 (authority_of_key (K1 1) 0)) (3, sample_perm 2 7 3 (authority_of_key (K1 3) 0)) sample_perms
     = Inr True \<and> above (map_of (indices sample_perms)) 1 3"
proof -
  have "tree_ok (map_of (indices sample_perms))"
    by (auto simp: tree_ok_def sample_perms_def sample_perm_def reserved_permission_def split: if_splits)
  from satisfies_iff_above [OF this, of 1 "sample_perm 0 7 1 (authority_of_key (K1 1) 0)" 3 "sample_perm 2 7 3 (authority_of_key (K1 3) 0)"]
  show ?thesis by (simp add: sample_perms_def satisfies_def sample_perm_def eval_nat_numeral)
qed

section \<open>What a checked transaction has shown\<close>

lemma granted_mono_delay: "d \<le> provided_delay chk \<Longrightarrow> granted (chk\<lparr>provided_delay := d\<rparr>) Q f \<le> granted chk Q f"
  by (cases f) auto

lemma authorized_mono_delay:
  assumes "authorized (chk\<lparr>provided_delay := d\<rparr>) p" "d \<le> provided_delay chk"
  shows "authorized chk p"
  using assms(1)
proof induction
  case (authorized_provided p)
  then show ?case by (intro authorized.authorized_provided) simp
next
  case (authorized_wildcard p)
  show ?case by (rule authorized.authorized_wildcard) (fact authorized_wildcard.IH)
next
  case (authorized_derived p auth Q)
  have "granted_weight (chk\<lparr>provided_delay := d\<rparr>) Q auth \<le> granted_weight chk Q auth"
    unfolding granted_weight_def by (intro sum_list_mono granted_mono_delay assms(2))
  with authorized_derived show ?case by (intro authorized.authorized_derived [of chk p auth Q]) auto
qed

text \<open>The permission and the delays collected from the declared authorizations.\<close>

lemma collect_auth_result:
  assumes "collect_auth ct db act special delay p st = Inr st'" "sorted_keys (fst st)"
  shows "sorted_keys (fst st')"
    and "map_of (fst st') = (map_of (fst st))(p \<mapsto> (case map_of (fst st) p of None \<Rightarrow> delay | Some d \<Rightarrow> min d delay))"
proof -
  have e: "fst st' = (let m = map_emplace p delay (fst st) in
      if map_of (fst st) p \<noteq> None \<and> the (map_of m p) > delay then map_put p delay m else m)"
    using assms(1) by (auto simp: collect_auth_def result_simps Let_def)
  then show "sorted_keys (fst st')" using assms(2) by (simp add: Let_def)
  show "map_of (fst st') = (map_of (fst st))(p \<mapsto> (case map_of (fst st) p of None \<Rightarrow> delay | Some d \<Rightarrow> min d delay))"
    using assms(2) unfolding e Let_def
    by (cases "map_of (fst st) p") (auto simp: fun_eq_iff map_emplace_def)
qed

text \<open>The declared authorization is at least the minimum permission of its action, if there is one.\<close>

definition meets_minimum :: "authorization_db \<Rightarrow> action \<Rightarrow> permission_level \<Rightarrow> bool" where
  "meets_minimum db act p \<longleftrightarrow>
     (case lookup_minimum_permission (actor p) (act_account act) (act_name act) db of
        Inl _ \<Rightarrow> False
      | Inr None \<Rightarrow> True
      | Inr (Some n) \<Rightarrow> require_permission p (Permission_Level (actor p) n) db = Inr ())"

lemma collect_auth_minimum:
  "collect_auth ct db act False delay p st = Inr st' \<Longrightarrow> meets_minimum db act p"
  by (auto simp: collect_auth_def meets_minimum_def require_satisfies_def require_permission_def result_simps Let_def
      split: option.splits) (rule exI [of _ True], rule TrueI)+

definition has_delay :: "collected \<Rightarrow> permission_level \<Rightarrow> int \<Rightarrow> bool" where
  "has_delay st p d \<longleftrightarrow> (\<exists>d'. map_of (fst st) p = Some d' \<and> d' \<le> d)"

lemma collect_auth_delay:
  assumes "collect_auth ct db act special delay p st = Inr st'" "sorted_keys (fst st)"
  shows "has_delay st' p delay" "has_delay st q d \<Longrightarrow> has_delay st' q d"
  using collect_auth_result(2) [OF assms] by (auto simp: has_delay_def split: option.splits if_splits)

lemma collect_auths:
  assumes "foldR (collect_auth ct db act special delay) auths st = Inr st'" "sorted_keys (fst st)"
  shows "sorted_keys (fst st') \<and> (\<forall>p d. has_delay st p d \<longrightarrow> has_delay st' p d)
    \<and> (\<forall>p \<in> set auths. has_delay st' p delay \<and> (special \<or> meets_minimum db act p))"
  using assms
proof (induction auths arbitrary: st)
  case (Cons q auths)
  obtain st1 where s1: "collect_auth ct db act special delay q st = Inr st1"
    and f: "foldR (collect_auth ct db act special delay) auths st1 = Inr st'"
    using Cons.prems(1) by (auto simp: result_simps)
  note r = collect_auth_result(1) [OF s1 Cons.prems(2)] collect_auth_delay [OF s1 Cons.prems(2)]
  have "special \<or> meets_minimum db act q" using s1 collect_auth_minimum by (cases special) auto
  with Cons.IH [OF f r(1)] r show ?case by auto
qed simp

lemma collect_actions:
  assumes "foldR (collect_action nc ct db delay) acts st = Inr st'" "sorted_keys (fst st)"
  shows "sorted_keys (fst st') \<and> (\<forall>p d. has_delay st p d \<longrightarrow> has_delay st' p d)
    \<and> (\<forall>act \<in> set acts. \<exists>special d. special_case nc db delay act = Inr (special, d)
        \<and> (\<forall>p \<in> set (act_authorization act). has_delay st' p d \<and> (special \<or> meets_minimum db act p)))"
  using assms
proof (induction acts arbitrary: st)
  case (Cons act acts)
  obtain st1 where c: "collect_action nc ct db delay act st = Inr st1"
    and f: "foldR (collect_action nc ct db delay) acts st1 = Inr st'"
    using Cons.prems(1) by (auto simp: result_simps)
  from c obtain special d where s: "special_case nc db delay act = Inr (special, d)"
    and s1: "foldR (collect_auth ct db act special d) (act_authorization act) st = Inr st1"
    by (auto simp: result_simps collect_action_def)
  note r = collect_auths [OF s1 Cons.prems(2)]
  with Cons.IH [OF f] s show ?case by auto
qed simp

lemma check_collected_all:
  assumes "foldR (check_collected ct chk) ps st = Inr st'" "(p, d) \<in> set ps"
  shows "authorized (chk\<lparr>provided_delay := d\<rparr>) p"
  using assms
proof (induction ps arbitrary: st)
  case (Cons x ps)
  obtain st1 where s1: "check_collected ct chk x st = Inr st1" and f: "foldR (check_collected ct chk) ps st1 = Inr st'"
    using Cons.prems(1) by (auto simp: result_simps)
  show ?case
  proof (cases "x = (p, d)")
    case True
    with s1 show ?thesis
      by (auto simp: check_collected_def satisfied_delay_def result_simps intro: satisfied_authorized)
  next
    case False
    with Cons.IH [OF f] Cons.prems(2) show ?thesis by simp
  qed
qed simp

lemma check_authorization_derives:
  assumes "check_authorization nc ct acts ks ps delay allow db = Inr ()" "act \<in> set acts"
  shows "\<exists>special d. special_case nc db (effective_delay db delay) act = Inr (special, d)
    \<and> (\<forall>p \<in> set (act_authorization act). (special \<or> meets_minimum db act p)
        \<and> authorized (fst (make_auth_checker (db_authority db) (max_authority_depth db) ks ps d)) p)"
proof -
  define chk where "chk = fst (make_auth_checker (db_authority db) (max_authority_depth db) ks ps (effective_delay db delay))"
  obtain to_satisfy n st used where c: "foldR (collect_action nc ct db (effective_delay db delay)) acts ([], 0) = Inr (to_satisfy, n)"
    and s: "foldR (check_collected ct chk) to_satisfy (used, n) = Inr st"
    using assms(1) by (auto simp: check_authorization_def make_auth_checker_def chk_def result_simps Let_def)
  note r = collect_actions [OF c]
  then have sorted: "sorted_keys to_satisfy" by simp
  from r obtain special d where sp: "special_case nc db (effective_delay db delay) act = Inr (special, d)"
    and p: "\<forall>p \<in> set (act_authorization act). has_delay (to_satisfy, n) p d \<and> (special \<or> meets_minimum db act p)"
    using assms(2) by (metis sorted_keys_Nil fst_conv)
  have "authorized (fst (make_auth_checker (db_authority db) (max_authority_depth db) ks ps d)) p"
    if mem: "p \<in> set (act_authorization act)" for p
  proof -
    obtain d' where d': "map_of to_satisfy p = Some d'" "d' \<le> d" using bspec [OF p mem] by (auto simp: has_delay_def)
    then have "authorized (chk\<lparr>provided_delay := d'\<rparr>) p" using check_collected_all [OF s] map_of_SomeD by metis
    then have "authorized (chk\<lparr>provided_delay := d, provided_delay := d'\<rparr>) p" by simp
    then have "authorized (chk\<lparr>provided_delay := d\<rparr>) p"
      using authorized_mono_delay [where chk = "chk\<lparr>provided_delay := d\<rparr>" and d = d' and p = p] d'(2) by simp
    then show ?thesis by (simp add: chk_def make_auth_checker_def)
  qed
  with sp p show ?thesis by blast
qed

text \<open>
  C28. What a successful \<open>check_authorization\<close> has shown.  For every action, its declared authorizations are derivable from
  the provided keys and permissions and from the delay (raised to unlimited if it reaches the maximum, and
  for a cancellation to the delay of the canceled transaction); each is at least the minimum permission of the
  action, unless the action is a native one with a rule of its own, which it has passed.
\<close>

theorem check_authorization_sound:
  assumes "check_authorization nc ct acts ks ps delay allow db = Inr ()" "act \<in> set acts"
  shows "\<exists>special d. special_case nc db (effective_delay db delay) act = Inr (special, d)
    \<and> (\<forall>p \<in> set (act_authorization act). (special \<or> meets_minimum db act p)
        \<and> authorized (fst (make_auth_checker (db_authority db) (max_authority_depth db) ks ps d)) p)"
  using assms by (rule check_authorization_derives)

definition sample_auth_db :: authorization_db where
  "sample_auth_db = \<lparr>permissions = empty_index\<lparr>next_id := 3, indices := [(0, reserved_permission),
       (1, sample_perm 0 7 owner_name (authority_of_key (K1 1) 0)),
       (2, sample_perm 1 7 active_name (authority_of_key (K1 2) 0))]\<rparr>,
     permission_usages = empty_index, permission_links = empty_index, generated_transactions = [],
     pending_block_time = 0, max_transaction_delay = 10, max_authority_depth = 6\<rparr>"

definition no_codec :: native_codec where
  "no_codec = \<lparr>as_updateauth = (\<lambda>_. Inl out_of_range_exception), as_deleteauth = (\<lambda>_. Inl out_of_range_exception),
     as_linkauth = (\<lambda>_. Inl out_of_range_exception), as_unlinkauth = (\<lambda>_. Inl out_of_range_exception),
     as_canceldelay = (\<lambda>_. Inl out_of_range_exception)\<rparr>"

lemma name_values:
  "system_account_name = 4229137335821795328" "active_name = 3617214756542218240" "owner_name = 12044502819693133824"
  "besio_any_name = 4229137339377516544" "besio_code_name = 4229137340457189376"
  "updateauth_name = 15371467950649982976" "deleteauth_name = 5378050746259030016" "linkauth_name = 10063015651234021376"
  "unlinkauth_name = 15340080295291076608" "canceldelay_name = 4730614990712192000"
  by (simp_all add: system_account_name_def active_name_def owner_name_def besio_any_name_def besio_code_name_def
      updateauth_name_def deleteauth_name_def linkauth_name_def unlinkauth_name_def canceldelay_name_def
      string_to_name_def string_to_name_loop.simps char_at_def char_to_symbol_def)

lemmas authorization_eval = check_authorization_def collect_action_def collect_auth_def special_case_def
  check_collected_def satisfied_delay_def effective_delay_def delay_max_limit_def db_authority_def get_permission_def find_by_def
  lookup_minimum_permission_def lookup_linked_permission_def find_link_def require_satisfies_def satisfies_def
  single_auth_def require_permission_def find_permission_def all_keys_used_def seconds_def i64_def map_emplace_def Let_def
  checker_eval name_values

theorem check_authorization_sound_witness:
  "authorized (fst (make_auth_checker (db_authority sample_auth_db) 6 [K1 2] [] 0)) (Permission_Level 7 active_name)"
proof -
  let ?act = "\<lparr>act_account = 9, act_name = 8, act_authorization = [Permission_Level 7 active_name], act_data = []\<rparr>"
  have c: "check_authorization no_codec (\<lambda>_. Inr ()) [?act] [K1 2] [] 0 False sample_auth_db = Inr ()"
    by (simp add: authorization_eval sample_auth_db_def sample_perm_def empty_index_def reserved_permission_def)
  from check_authorization_sound [OF c, of ?act] show ?thesis
    by (auto simp: special_case_def name_values effective_delay_def delay_max_limit_def sample_auth_db_def seconds_def i64_def)
qed

end
