(* ===== verification/BesioContract.thy ===== *)
theory BesioContract
  imports Permissions ResourceLimits
begin

text \<open>
  The native actions of the system account: \<^verbatim>\<open>libraries/chain/besio_contract.cpp\<close>, with the account objects of
  \<^verbatim>\<open>account_object.hpp\<close> and the parts of \<^verbatim>\<open>apply_context.cpp\<close> and \<^verbatim>\<open>transaction_context.cpp\<close> that the handlers call.

  The state of a handler is the database (accounts, permissions, links, resource accounting) and what the contexts keep: which
  authorizations of the action were used and which accounts will have their memory usage verified.  Parameters, in the
  record \<open>contract_env\<close>: the functions that unpack the data of actions, the hash of a contract's code, the validation of
  WebAssembly, and the node's configuration (whether it is producing the block, and its key blacklist).
\<close>

section \<open>State\<close>

record newaccount =
  na_creator :: name
  na_name :: name
  na_owner :: authority
  na_active :: authority

record setcode =
  sc_account :: name
  sc_vmtype :: nat
  sc_vmversion :: nat
  sc_code :: bytes

record setabi =
  sa_account :: name
  sa_abi :: bytes

definition newaccount_name :: name where
  "newaccount_name = string_to_name ''newaccount''"

definition setcode_name :: name where
  "setcode_name = string_to_name ''setcode''"

definition setabi_name :: name where
  "setabi_name = string_to_name ''setabi''"

record contract_codec = native_codec +
  as_newaccount :: "bytes \<Rightarrow> newaccount result"
  as_setcode :: "bytes \<Rightarrow> setcode result"
  as_setabi :: "bytes \<Rightarrow> setabi result"

record contract_env =
  ce_codec :: contract_codec
  code_hash :: "bytes \<Rightarrow> sha256"
  wasm_validate :: "bytes \<Rightarrow> unit result"
  is_producing_block :: bool
  key_blacklist :: "public_key_type list"

record account_object =
  acct_name :: name
  vm_type :: nat
  vm_version :: nat
  privileged :: bool
  last_code_update :: time_point
  code_version :: sha256
  creation_date :: block_timestamp_type
  acct_code :: bytes
  acct_abi :: bytes

record account_sequence_object =
  seq_name :: name
  recv_sequence :: nat
  auth_sequence :: nat
  code_sequence :: nat
  abi_sequence :: nat

definition account_clash :: "account_object \<Rightarrow> account_object \<Rightarrow> bool" where
  "account_clash = key_clash [acct_name]"

definition sequence_clash :: "account_sequence_object \<Rightarrow> account_sequence_object \<Rightarrow> bool" where
  "sequence_clash = key_clash [seq_name]"

record contract_db =
  auth_db :: authorization_db
  accounts :: "account_object generic_index"
  account_sequences :: "account_sequence_object generic_index"
  resources :: resource_db
  used_authorizations :: "bool list"
  validate_ram_usage :: "name list"

section \<open>Services of the contexts\<close>

text \<open>A standard exception leaves \<^verbatim>\<open>FC_CAPTURE_AND_RETHROW\<close> as an \<^verbatim>\<open>fc::exception\<close>.\<close>

definition capture_and_rethrow :: "'a result \<Rightarrow> 'a result" where
  "capture_and_rethrow r =
     (case r of Inl e \<Rightarrow> Inl (if e = out_of_range \<or> e = logic_error then std_exception else e) | Inr x \<Rightarrow> Inr x)"

definition require_authorization :: "action \<Rightarrow> name \<Rightarrow> contract_db \<Rightarrow> contract_db result" where
  "require_authorization act account db =
     (case find_index account (map actor (act_authorization act)) of
        None \<Rightarrow> Inl missing_auth_exception
      | Some i \<Rightarrow> Inr (db\<lparr>used_authorizations := (used_authorizations db)[i := True]\<rparr>))"

definition add_ram_usage :: "name \<Rightarrow> int \<Rightarrow> contract_db \<Rightarrow> contract_db result" where
  "add_ram_usage account ram_delta db =
     bindR (add_pending_ram_usage account ram_delta (resources db)) (\<lambda>r.
     Inr (db\<lparr>resources := r,
             validate_ram_usage := (if ram_delta > 0 \<and> account \<notin> set (validate_ram_usage db)
                                    then insort account (validate_ram_usage db) else validate_ram_usage db)\<rparr>))"

definition find_account :: "name \<Rightarrow> contract_db \<Rightarrow> (nat \<times> account_object) option" where
  "find_account n db = find_by acct_name n (accounts db)"

definition get_account :: "name \<Rightarrow> contract_db \<Rightarrow> (nat \<times> account_object) result" where
  "get_account n db = of_option out_of_range (find_account n db)"

definition get_account_sequence :: "name \<Rightarrow> contract_db \<Rightarrow> (nat \<times> account_sequence_object) result" where
  "get_account_sequence n db = of_option out_of_range (find_by seq_name n (account_sequences db))"

definition check_key_list :: "contract_env \<Rightarrow> public_key_type \<Rightarrow> unit result" where
  "check_key_list env k =
     (if key_blacklist env \<noteq> [] then bes_assert (k \<notin> set (key_blacklist env)) key_blacklist_exception (Inr ()) else Inr ())"

definition transaction_id_to_sender_id :: "sha256 \<Rightarrow> nat" where
  "transaction_id_to_sender_id tid = unat (hash3 tid) * 2 ^ 64 + unat (hash2 tid)"

text \<open>The sizes that rows are billed for.\<close>

definition overhead_per_row_per_index_ram_bytes :: nat where
  "overhead_per_row_per_index_ram_bytes = 32"

definition overhead_per_account_ram_bytes :: nat where
  "overhead_per_account_ram_bytes = 2 * 1024"

definition setcode_ram_bytes_multiplier :: nat where
  "setcode_ram_bytes_multiplier = 10"

definition shared_authority_size :: nat where
  "shared_authority_size = billable_size_v (3 * 16 + 4)"

definition permission_object_size :: nat where
  "permission_object_size = billable_size_v ((shared_authority_size + 64) + 5 * overhead_per_row_per_index_ram_bytes)"

definition permission_link_object_size :: nat where
  "permission_link_object_size = billable_size_v (40 + overhead_per_row_per_index_ram_bytes * 3)"

definition generated_transaction_object_size :: nat where
  "generated_transaction_object_size = billable_size_v (96 + 4 + overhead_per_row_per_index_ram_bytes * 5)"

section \<open>The handlers\<close>

definition validate_account_permission :: "contract_db \<Rightarrow> permission_level_weight \<Rightarrow> unit \<Rightarrow> unit result" where
  "validate_account_permission db a u =
     (let p = plw_permission a in
      bes_assert (find_account (actor p) db \<noteq> None) action_validate_exception
        (if permission p = owner_name \<or> permission p = active_name then Inr ()
         else if permission p = besio_code_name then Inr ()
         else (case get_permission p (auth_db db) of
                 Inl e \<Rightarrow> Inl (if e = permission_query_exception then action_validate_exception else e)
               | Inr _ \<Rightarrow> Inr ())))"

definition validate_authority_precondition :: "contract_env \<Rightarrow> authority \<Rightarrow> contract_db \<Rightarrow> unit result" where
  "validate_authority_precondition env auth db =
     bindR (foldR (validate_account_permission db) (auth_accounts auth) ()) (\<lambda>_.
     if is_producing_block env then foldR (\<lambda>k _. check_key_list env (kw_key k)) (auth_keys auth) () else Inr ())"

definition apply_newaccount :: "contract_env \<Rightarrow> action \<Rightarrow> contract_db \<Rightarrow> contract_db result" where
  "apply_newaccount env act db =
     bindR (data_as newaccount_name (as_newaccount (ce_codec env)) act) (\<lambda>create.
     capture_and_rethrow (
     bindR (require_authorization act (na_creator create) db) (\<lambda>db.
     bes_assert (validate (na_owner create)) action_validate_exception (
     bes_assert (validate (na_active create)) action_validate_exception (
     let name_str = name_to_string (na_name create) in
     bes_assert (\<not> name_empty (na_name create)) action_validate_exception (
     bes_assert (length name_str \<le> 12) action_validate_exception (
     bindR (get_account (na_creator create) db) (\<lambda>(_, creator).
     bes_assert (privileged creator \<or> take 6 name_str \<noteq> ''besio.'') action_validate_exception (
     bes_assert (find_account (na_name create) db = None) account_name_exists_exception (
     bindR (emplace account_clash \<lparr>acct_name = na_name create, vm_type = 0, vm_version = 0, privileged = False,
              last_code_update = 0, code_version = default_digest,
              creation_date = set_time_point (pending_block_time (auth_db db)), acct_code = [], acct_abi = []\<rparr> (accounts db)) (\<lambda>accs.
     bindR (emplace sequence_clash \<lparr>seq_name = na_name create, recv_sequence = 0, auth_sequence = 0, code_sequence = 0,
              abi_sequence = 0\<rparr> (account_sequences db)) (\<lambda>seqs.
     let db = db\<lparr>accounts := accs, account_sequences := seqs\<rparr> in
     bindR (validate_authority_precondition env (na_owner create) db) (\<lambda>_.
     bindR (validate_authority_precondition env (na_active create) db) (\<lambda>_.
     bindR (create_permission (na_name create) owner_name 0 (na_owner create) 0 (auth_db db)) (\<lambda>(owner_id, adb).
     bindR (create_permission (na_name create) active_name owner_id (na_active create) 0 adb) (\<lambda>(active_id, adb).
     bindR (initialize_account (na_name create) (resources db)) (\<lambda>res.
     add_ram_usage (na_name create)
       (i64 (int (overhead_per_account_ram_bytes + 2 * permission_object_size
          + get_billable_size (na_owner create) + get_billable_size (na_active create))))
       (db\<lparr>auth_db := adb, resources := res\<rparr>))))))))))))))))))"

definition apply_setcode :: "contract_env \<Rightarrow> action \<Rightarrow> contract_db \<Rightarrow> contract_db result" where
  "apply_setcode env act db =
     bindR (data_as setcode_name (as_setcode (ce_codec env)) act) (\<lambda>sc.
     bindR (require_authorization act (sc_account sc) db) (\<lambda>db.
     bes_assert (sc_vmtype sc = 0) invalid_contract_vm_type (
     bes_assert (sc_vmversion sc = 0) invalid_contract_vm_version (
     bindR (if length (sc_code sc) > 0 then wasm_validate env (sc_code sc) else Inr ()) (\<lambda>_.
     let code_id = (if length (sc_code sc) > 0 then code_hash env (sc_code sc) else default_digest) in
     bindR (get_account (sc_account sc) db) (\<lambda>(i, account).
     let old_size = i64 (int (length (acct_code account)) * int setcode_ram_bytes_multiplier);
         new_size = i64 (int (length (sc_code sc)) * int setcode_ram_bytes_multiplier) in
     bes_assert (code_version account \<noteq> code_id) set_exact_code (
     bindR (modify account_clash i (\<lambda>a. a\<lparr>last_code_update := pending_block_time (auth_db db), code_version := code_id,
              acct_code := sc_code sc\<rparr>) (accounts db)) (\<lambda>accs.
     bindR (get_account_sequence (sc_account sc) db) (\<lambda>(j, _).
     bindR (modify sequence_clash j (\<lambda>s. s\<lparr>code_sequence := u64 (code_sequence s + 1)\<rparr>) (account_sequences db)) (\<lambda>seqs.
     let db = db\<lparr>accounts := accs, account_sequences := seqs\<rparr> in
     if new_size \<noteq> old_size then add_ram_usage (sc_account sc) (i64 (new_size - old_size)) db else Inr db))))))))))"

definition apply_setabi :: "contract_env \<Rightarrow> action \<Rightarrow> contract_db \<Rightarrow> contract_db result" where
  "apply_setabi env act db =
     bindR (data_as setabi_name (as_setabi (ce_codec env)) act) (\<lambda>sa.
     bindR (require_authorization act (sa_account sa) db) (\<lambda>db.
     bindR (get_account (sa_account sa) db) (\<lambda>(i, account).
     let old_size = int (length (acct_abi account)); new_size = int (length (sa_abi sa)) in
     bindR (modify account_clash i (\<lambda>a. a\<lparr>acct_abi := sa_abi sa\<rparr>) (accounts db)) (\<lambda>accs.
     bindR (get_account_sequence (sa_account sa) db) (\<lambda>(j, _).
     bindR (modify sequence_clash j (\<lambda>s. s\<lparr>abi_sequence := u64 (abi_sequence s + 1)\<rparr>) (account_sequences db)) (\<lambda>seqs.
     let db = db\<lparr>accounts := accs, account_sequences := seqs\<rparr> in
     if new_size \<noteq> old_size then add_ram_usage (sa_account sa) (i64 (new_size - old_size)) db else Inr db))))))"

definition apply_updateauth :: "contract_env \<Rightarrow> action \<Rightarrow> contract_db \<Rightarrow> contract_db result" where
  "apply_updateauth env act db =
     bindR (data_as updateauth_name (as_updateauth (ce_codec env)) act) (\<lambda>update.
     bindR (require_authorization act (ua_account update) db) (\<lambda>db.
     bes_assert (\<not> name_empty (ua_permission update)) action_validate_exception (
     bes_assert (take 6 (name_to_string (ua_permission update)) \<noteq> ''besio.'') action_validate_exception (
     bes_assert (ua_permission update \<noteq> ua_parent update) action_validate_exception (
     bindR (get_account (ua_account update) db) (\<lambda>_.
     bes_assert (validate (ua_auth update)) action_validate_exception (
     bes_assert (ua_permission update = active_name \<longrightarrow> ua_parent update = owner_name) action_validate_exception (
     bes_assert (if ua_permission update = owner_name then name_empty (ua_parent update)
                 else \<not> name_empty (ua_parent update)) action_validate_exception (
     bes_assert (auth_waits (ua_auth update) \<noteq> [] \<longrightarrow>
         wait_sec (last (auth_waits (ua_auth update))) \<le> max_transaction_delay (auth_db db)) action_validate_exception (
     bindR (validate_authority_precondition env (ua_auth update) db) (\<lambda>_.
     bindR (find_permission (Permission_Level (ua_account update) (ua_permission update)) (auth_db db)) (\<lambda>perm.
     bindR (if ua_permission update \<noteq> owner_name
            then bindR (get_permission (Permission_Level (ua_account update) (ua_parent update)) (auth_db db)) (\<lambda>(pid, _). Inr pid)
            else Inr 0) (\<lambda>parent_id.
     case perm of
       Some (i, p) \<Rightarrow>
         bes_assert (parent_id = parent p) action_validate_exception (
         bindR (modify_permission i (ua_auth update) (auth_db db)) (\<lambda>adb.
         let old_size = i64 (int (permission_object_size + get_billable_size (perm_auth p)));
             new_size = i64 (int (permission_object_size + get_billable_size (ua_auth update))) in
         add_ram_usage (perm_owner p) (i64 (new_size - old_size)) (db\<lparr>auth_db := adb\<rparr>)))
     | None \<Rightarrow>
         bindR (create_permission (ua_account update) (ua_permission update) parent_id (ua_auth update) 0 (auth_db db)) (\<lambda>(i, adb).
         let new_size = i64 (int (permission_object_size + get_billable_size (ua_auth update))) in
         add_ram_usage (ua_account update) new_size (db\<lparr>auth_db := adb\<rparr>)))))))))))))))"

definition apply_deleteauth :: "contract_env \<Rightarrow> action \<Rightarrow> contract_db \<Rightarrow> contract_db result" where
  "apply_deleteauth env act db =
     bindR (data_as deleteauth_name (as_deleteauth (ce_codec env)) act) (\<lambda>rem.
     bindR (require_authorization act (da_account rem) db) (\<lambda>db.
     bes_assert (da_permission rem \<noteq> active_name) action_validate_exception (
     bes_assert (da_permission rem \<noteq> owner_name) action_validate_exception (
     bes_assert (\<not> list_ex (\<lambda>(i, l). link_account l = da_account rem \<and> required_permission l = da_permission rem)
         (indices (permission_links (auth_db db)))) action_validate_exception (
     bindR (get_permission (Permission_Level (da_account rem) (da_permission rem)) (auth_db db)) (\<lambda>p.
     let old_size = i64 (int (permission_object_size + get_billable_size (perm_auth (snd p)))) in
     bindR (remove_permission p (auth_db db)) (\<lambda>adb.
     add_ram_usage (da_account rem) (i64 (- old_size)) (db\<lparr>auth_db := adb\<rparr>))))))))"

definition apply_linkauth :: "contract_env \<Rightarrow> action \<Rightarrow> contract_db \<Rightarrow> contract_db result" where
  "apply_linkauth env act db =
     bindR (data_as linkauth_name (as_linkauth (ce_codec env)) act) (\<lambda>req.
     capture_and_rethrow (
     bes_assert (\<not> name_empty (la_requirement req)) action_validate_exception (
     bindR (require_authorization act (la_account req) db) (\<lambda>db.
     bes_assert (find_account (la_account req) db \<noteq> None) account_query_exception (
     bes_assert (find_account (la_code req) db \<noteq> None) account_query_exception (
     bes_assert (la_requirement req \<noteq> besio_any_name \<longrightarrow>
         find_by perm_name (la_requirement req) (permissions (auth_db db)) \<noteq> None) permission_query_exception (
     case find_link (la_account req) (la_code req) (la_type req) (auth_db db) of
       Some (i, l) \<Rightarrow>
         bes_assert (required_permission l \<noteq> la_requirement req) action_validate_exception (
         bindR (modify link_clash i (\<lambda>l. l\<lparr>required_permission := la_requirement req\<rparr>) (permission_links (auth_db db))) (\<lambda>ls.
         Inr (db\<lparr>auth_db := (auth_db db)\<lparr>permission_links := ls\<rparr>\<rparr>)))
     | None \<Rightarrow>
         bindR (emplace link_clash \<lparr>link_account = la_account req, link_code = la_code req, link_type = la_type req,
                  required_permission = la_requirement req\<rparr> (permission_links (auth_db db))) (\<lambda>ls.
         add_ram_usage (la_account req) (int permission_link_object_size)
           (db\<lparr>auth_db := (auth_db db)\<lparr>permission_links := ls\<rparr>\<rparr>)))))))))"

definition apply_unlinkauth :: "contract_env \<Rightarrow> action \<Rightarrow> contract_db \<Rightarrow> contract_db result" where
  "apply_unlinkauth env act db =
     bindR (data_as unlinkauth_name (as_unlinkauth (ce_codec env)) act) (\<lambda>ul.
     bindR (require_authorization act (ula_account ul) db) (\<lambda>db.
     case find_link (ula_account ul) (ula_code ul) (ula_type ul) (auth_db db) of
       None \<Rightarrow> Inl action_validate_exception
     | Some (i, l) \<Rightarrow>
         bindR (add_ram_usage (link_account l) (- int permission_link_object_size) db) (\<lambda>db.
         bindR (remove i (permission_links (auth_db db))) (\<lambda>ls.
         Inr (db\<lparr>auth_db := (auth_db db)\<lparr>permission_links := ls\<rparr>\<rparr>)))))"

definition cancel_deferred_transaction :: "nat \<Rightarrow> name \<Rightarrow> contract_db \<Rightarrow> contract_db result" where
  "cancel_deferred_transaction sender_id sender db =
     (case find (\<lambda>g. gto_sender g = sender \<and> gto_sender_id g = sender_id) (generated_transactions (auth_db db)) of
        None \<Rightarrow> Inr db
      | Some g \<Rightarrow>
          bindR (add_ram_usage (gto_payer g)
                   (i64 (- int (generated_transaction_object_size + length (gto_packed_trx g)))) db) (\<lambda>db.
          Inr (db\<lparr>auth_db := (auth_db db)\<lparr>generated_transactions := remove1 g (generated_transactions (auth_db db))\<rparr>\<rparr>)))"

definition apply_canceldelay :: "contract_env \<Rightarrow> action \<Rightarrow> contract_db \<Rightarrow> contract_db result" where
  "apply_canceldelay env act db =
     bindR (data_as canceldelay_name (as_canceldelay (ce_codec env)) act) (\<lambda>cancel.
     bindR (require_authorization act (actor (canceling_auth cancel)) db) (\<lambda>db.
     cancel_deferred_transaction (transaction_id_to_sender_id (cd_trx_id cancel)) 0 db))"

text \<open>The handlers as the controller registers them for the system account.\<close>

definition apply_native :: "contract_env \<Rightarrow> contract_db \<Rightarrow> action \<Rightarrow> contract_db result" where
  "apply_native env db act =
     (let db = db\<lparr>used_authorizations := replicate (length (act_authorization act)) False\<rparr> in
      if act_name act = newaccount_name then apply_newaccount env act db
      else if act_name act = setcode_name then apply_setcode env act db
      else if act_name act = setabi_name then apply_setabi env act db
      else if act_name act = updateauth_name then apply_updateauth env act db
      else if act_name act = deleteauth_name then apply_deleteauth env act db
      else if act_name act = linkauth_name then apply_linkauth env act db
      else if act_name act = unlinkauth_name then apply_unlinkauth env act db
      else if act_name act = canceldelay_name then apply_canceldelay env act db
      else Inr db)"

section \<open>The invariant of accounts and permissions\<close>

lemma emplace_indices:
  assumes "emplace clash v idx = Inr idx'"
  shows "indices idx' = map_put (next_id idx) v (indices idx)" "next_id idx' = Suc (next_id idx)"
  using assms by (auto simp: emplace_def on_create_eq Let_def split: if_splits)

lemma modify_indices:
  assumes "modify clash i f idx = Inr idx'"
  obtains v where "map_of (indices idx) i = Some v" "indices idx' = map_put i (f v) (indices idx)" "next_id idx' = next_id idx"
  using assms by (auto simp: modify_def on_modify_eq Let_def split: if_splits option.splits)

lemma remove_indices:
  assumes "remove i idx = Inr idx'"
  shows "indices idx' = map_del i (indices idx)" "next_id idx' = next_id idx"
  using assms by (auto simp: remove_def on_remove_eq Let_def split: option.splits)

definition index_base :: "'v generic_index \<Rightarrow> bool" where
  "index_base idx \<longleftrightarrow> sorted_keys (indices idx) \<and> (\<forall>i. map_of (indices idx) i \<noteq> None \<longrightarrow> i < next_id idx)"

lemma index_base_emplace:
  assumes "emplace clash v idx = Inr idx'" "index_base idx"
  shows "index_base idx'" "map_of (indices idx') = (map_of (indices idx))(next_id idx \<mapsto> v)"
    "map_of (indices idx) (next_id idx) = None"
proof -
  show "map_of (indices idx) (next_id idx) = None" using assms(2) by (metis index_base_def less_irrefl)
  show "map_of (indices idx') = (map_of (indices idx))(next_id idx \<mapsto> v)"
    using assms(2) by (simp add: emplace_indices [OF assms(1)] index_base_def)
  then show "index_base idx'"
    using assms(2) by (auto simp: index_base_def emplace_indices [OF assms(1)] less_SucI simp del: map_of_map_put)
qed

lemma index_base_modify:
  assumes "modify clash i f idx = Inr idx'" "index_base idx"
  obtains v where "index_base idx'" "map_of (indices idx) i = Some v" "map_of (indices idx') = (map_of (indices idx))(i \<mapsto> f v)"
proof -
  obtain v where v: "map_of (indices idx) i = Some v" "indices idx' = map_put i (f v) (indices idx)" "next_id idx' = next_id idx"
    using modify_indices [OF assms(1)] by metis
  then have "index_base idx'" "map_of (indices idx') = (map_of (indices idx))(i \<mapsto> f v)"
    using assms(2) by (auto simp: index_base_def)
  with v(1) that show ?thesis by blast
qed

lemma index_base_remove:
  assumes "remove i idx = Inr idx'" "index_base idx"
  shows "index_base idx'" "map_of (indices idx') = (map_of (indices idx))(i := None)"
  using assms(2) by (auto simp: index_base_def remove_indices [OF assms(1)])

lemma find_by_Some:
  assumes "find_by key k idx = Some (i, v)" "index_base idx"
  shows "map_of (indices idx) i = Some v" "key v = k"
proof -
  from assms(1) have "(i, v) \<in> set (indices idx)" "key v = k"
    by (auto simp: find_by_def find_Some_iff dest!: nth_mem)
  then show "map_of (indices idx) i = Some v" "key v = k"
    using assms(2) by (simp_all add: index_base_def sorted_keys_distinct map_of_eq_Some_iff)
qed

definition node_ok :: "(nat \<rightharpoonup> permission_object) \<Rightarrow> nat \<Rightarrow> permission_object \<Rightarrow> bool" where
  "node_ok m j p \<longleftrightarrow> perm_owner p \<noteq> 0 \<and> parent p < j
     \<and> (\<exists>q. m (parent p) = Some q \<and> (parent p \<noteq> 0 \<longrightarrow> perm_owner q = perm_owner p))"

lemma tree_ok_nodes:
  "tree_ok m \<longleftrightarrow> (\<exists>r. m 0 = Some r \<and> parent r = 0 \<and> perm_owner r = 0) \<and> (\<forall>j p. m j = Some p \<longrightarrow> j \<noteq> 0 \<longrightarrow> node_ok m j p)"
  unfolding tree_ok_def node_ok_def by (simp only: imp_conjL)

lemma tree_ok_insert:
  assumes "tree_ok m" "\<And>k. m k \<noteq> None \<Longrightarrow> k < i" "perm_owner p \<noteq> 0"
    and "parent p = 0 \<or> (\<exists>q. m (parent p) = Some q \<and> perm_owner q = perm_owner p)"
  shows "tree_ok (m(i \<mapsto> p))" "i \<noteq> 0" "m i = None"
proof -
  obtain r where r: "m 0 = Some r" "parent r = 0" "perm_owner r = 0" using assms(1) by (auto simp: tree_ok_def)
  then show i0: "i \<noteq> 0" using assms(2) [of 0] by auto
  show i: "m i = None" using assms(2) [of i] by (cases "m i") auto
  obtain q where q: "m (parent p) = Some q" "parent p \<noteq> 0 \<longrightarrow> perm_owner q = perm_owner p" using r assms(4) by auto
  have "parent p < i" using assms(2) [of "parent p"] q(1) by simp
  with q assms(3) have new: "node_ok (m(i \<mapsto> p)) i p" by (simp add: node_ok_def)
  have "node_ok (m(i \<mapsto> p)) j s" if "m j = Some s" "j \<noteq> 0" for j s
  proof -
    have n: "node_ok m j s" using assms(1) that by (simp add: tree_ok_nodes)
    then have "parent s \<noteq> i" using i by (auto simp: node_ok_def)
    with n show ?thesis by (simp add: node_ok_def)
  qed
  with new r i0 i show "tree_ok (m(i \<mapsto> p))" by (simp add: tree_ok_nodes)
qed

lemma tree_ok_update:
  assumes "tree_ok m" "m i = Some p" "parent p' = parent p" "perm_owner p' = perm_owner p"
  shows "tree_ok (m(i \<mapsto> p'))"
proof -
  have "node_ok (m(i \<mapsto> p')) j s'" if "m j = Some s" "j \<noteq> 0" "parent s' = parent s" "perm_owner s' = perm_owner s" for j s s'
  proof -
    have "node_ok m j s" using assms(1) that by (simp add: tree_ok_nodes)
    with assms(2,4) that(3,4) show ?thesis by (cases "parent s = i") (auto simp: node_ok_def)
  qed
  with assms show ?thesis by (auto simp: tree_ok_nodes)
qed

lemma tree_ok_delete:
  assumes "tree_ok m" "\<forall>j q. m j = Some q \<longrightarrow> parent q \<noteq> i"
  shows "tree_ok (m(i := None))"
proof -
  obtain r where r: "m 0 = Some r" "parent r = 0" "perm_owner r = 0" using assms(1) by (auto simp: tree_ok_def)
  then have "i \<noteq> 0" using assms(2) by metis
  have "node_ok (m(i := None)) j s" if "m j = Some s" "j \<noteq> 0" for j s
  proof -
    have "node_ok m j s" using assms(1) that by (simp add: tree_ok_nodes)
    moreover have "parent s \<noteq> i" using assms(2) that(1) by blast
    ultimately show ?thesis by (simp add: node_ok_def)
  qed
  with r \<open>i \<noteq> 0\<close> show ?thesis by (simp add: tree_ok_nodes)
qed

text \<open>
  The permissions are a forest with ascending ids, every account has a name and its permissions \<open>owner\<close> and, directly below
  it, \<open>active\<close>.
\<close>

abbreviation perms :: "authorization_db \<Rightarrow> nat \<rightharpoonup> permission_object" where
  "perms adb \<equiv> map_of (indices (permissions adb))"

definition perms_ok :: "authorization_db \<Rightarrow> bool" where
  "perms_ok adb \<longleftrightarrow> index_base (permissions adb) \<and> tree_ok (perms adb)"

definition has_owner_active :: "(nat \<rightharpoonup> permission_object) \<Rightarrow> name \<Rightarrow> bool" where
  "has_owner_active m n \<longleftrightarrow> (\<exists>i p j q. m i = Some p \<and> perm_owner p = n \<and> perm_name p = owner_name \<and> parent p = 0
     \<and> m j = Some q \<and> perm_owner q = n \<and> perm_name q = active_name \<and> parent q = i)"

definition contract_ok :: "contract_db \<Rightarrow> bool" where
  "contract_ok db \<longleftrightarrow> perms_ok (auth_db db) \<and> index_base (accounts db)
     \<and> (\<forall>i a. map_of (indices (accounts db)) i = Some a \<longrightarrow> acct_name a \<noteq> 0 \<and> has_owner_active (perms (auth_db db)) (acct_name a))"

text \<open>Changes that keep the names, owners and parents of permissions keep the permissions of accounts.\<close>

lemma has_owner_active_insert: "has_owner_active m n \<Longrightarrow> m i = None \<Longrightarrow> has_owner_active (m(i \<mapsto> p)) n"
  unfolding has_owner_active_def by (metis fun_upd_other option.distinct(1))

lemma has_owner_active_update:
  assumes "has_owner_active m n" "m i = Some p" "parent p' = parent p" "perm_owner p' = perm_owner p" "perm_name p' = perm_name p"
  shows "has_owner_active (m(i \<mapsto> p')) n"
proof -
  have *: "\<exists>s'. (m(i \<mapsto> p')) j = Some s' \<and> parent s' = parent s \<and> perm_owner s' = perm_owner s \<and> perm_name s' = perm_name s"
    if "m j = Some s" for j s
    using that assms(2-) by (cases "j = i") auto
  from assms(1) show ?thesis unfolding has_owner_active_def using * by metis
qed

lemma has_owner_active_delete:
  assumes "has_owner_active m n" "m i = Some p" "perm_name p \<noteq> owner_name" "perm_name p \<noteq> active_name"
  shows "has_owner_active (m(i := None)) n"
proof -
  have "(m(i := None)) j = m j" if "m j = Some s" "perm_name s = owner_name \<or> perm_name s = active_name" for j s
    using that assms(2-) by auto
  with assms(1) show ?thesis unfolding has_owner_active_def by metis
qed

lemma create_permission_ok:
  assumes "create_permission a n par auth t adb = Inr (i, adb')" "perms_ok adb" "a \<noteq> 0"
    and "par = 0 \<or> (\<exists>q. perms adb par = Some q \<and> perm_owner q = a)"
  obtains p where "perms_ok adb'" "perms adb' = (perms adb)(i \<mapsto> p)" "perms adb i = None" "i \<noteq> 0"
    "perm_owner p = a" "perm_name p = n" "parent p = par" "perm_auth p = auth"
proof -
  obtain us ps p where e: "emplace permission_clash p (permissions adb) = Inr ps" "i = next_id (permissions adb)"
    "adb' = adb\<lparr>permissions := ps, permission_usages := us\<rparr>"
    and p: "perm_owner p = a" "perm_name p = n" "parent p = par" "perm_auth p = auth"
    using assms(1) by (auto simp: create_permission_def result_simps Let_def)
  have b: "index_base (permissions adb)" "tree_ok (perms adb)" using assms(2) by (simp_all add: perms_ok_def)
  note ib = index_base_emplace [OF e(1) b(1)]
  have bound: "k < i" if "perms adb k \<noteq> None" for k using b(1) that e(2) by (simp add: index_base_def)
  have q: "perm_owner p \<noteq> 0" "parent p = 0 \<or> (\<exists>q. perms adb (parent p) = Some q \<and> perm_owner q = perm_owner p)"
    using p assms(3,4) by simp_all
  note t = tree_ok_insert [OF b(2) bound q]
  show ?thesis
  proof (rule that)
    show "perms adb' = (perms adb)(i \<mapsto> p)" using ib(2) e(2,3) by simp
    with ib(1) t(1) e(3) show "perms_ok adb'" by (simp add: perms_ok_def)
  qed (use t p in auto)
qed

lemma modify_permission_ok:
  assumes "modify_permission i auth adb = Inr adb'" "perms_ok adb"
  obtains p p' where "perms_ok adb'" "perms adb i = Some p" "perms adb' = (perms adb)(i \<mapsto> p')"
    "perm_owner p' = perm_owner p" "perm_name p' = perm_name p" "parent p' = parent p" "perm_auth p' = auth"
proof -
  obtain ps where e: "modify permission_clash i (\<lambda>p. p\<lparr>last_updated := pending_block_time adb, perm_auth := auth\<rparr>)
      (permissions adb) = Inr ps" "adb' = adb\<lparr>permissions := ps\<rparr>"
    using assms(1) by (auto simp: modify_permission_def result_simps)
  have b: "index_base (permissions adb)" "tree_ok (perms adb)" using assms(2) by (simp_all add: perms_ok_def)
  obtain p where p: "index_base ps" "perms adb i = Some p"
    "map_of (indices ps) = (perms adb)(i \<mapsto> p\<lparr>last_updated := pending_block_time adb, perm_auth := auth\<rparr>)"
    using index_base_modify [OF e(1) b(1)] by metis
  show ?thesis
    by (rule that [of p "p\<lparr>last_updated := pending_block_time adb, perm_auth := auth\<rparr>"])
      (use p e(2) tree_ok_update [OF b(2) p(2)] in \<open>simp_all add: perms_ok_def\<close>)
qed

lemma remove_permission_ok:
  assumes "remove_permission (i, p) adb = Inr adb'" "perms_ok adb"
  shows "perms_ok adb'" "perms adb' = (perms adb)(i := None)"
proof -
  obtain us ps where e: "remove i (permissions adb) = Inr ps" "adb' = adb\<lparr>permissions := ps, permission_usages := us\<rparr>"
    and c: "\<not> list_ex (\<lambda>(j, q). parent q = i) (indices (permissions adb))"
    using assms(1) by (auto simp: remove_permission_def result_simps)
  have b: "index_base (permissions adb)" "tree_ok (perms adb)" using assms(2) by (simp_all add: perms_ok_def)
  note r = index_base_remove [OF e(1) b(1)]
  have "\<forall>j q. perms adb j = Some q \<longrightarrow> parent q \<noteq> i" using c by (auto simp: list_ex_iff dest!: map_of_SomeD)
  then have "tree_ok ((perms adb)(i := None))" by (rule tree_ok_delete [OF b(2)])
  with r e(2) show "perms_ok adb'" "perms adb' = (perms adb)(i := None)" by (simp_all add: perms_ok_def)
qed

lemma capture_eq_Inr [simp]: "capture_and_rethrow r = Inr x \<longleftrightarrow> r = Inr x"
  by (cases r) (simp_all add: capture_and_rethrow_def)

lemma add_ram_usage_frame:
  assumes "add_ram_usage a d db = Inr db'"
  shows "auth_db db' = auth_db db" "accounts db' = accounts db" "account_sequences db' = account_sequences db"
  using assms by (auto simp: add_ram_usage_def result_simps)

lemma require_authorization_frame:
  assumes "require_authorization act a db = Inr db'"
  shows "auth_db db' = auth_db db" "accounts db' = accounts db" "account_sequences db' = account_sequences db"
    "resources db' = resources db" "validate_ram_usage db' = validate_ram_usage db"
  using assms by (auto simp: require_authorization_def split: option.splits)

lemma contract_ok_cong:
  "contract_ok db \<Longrightarrow> permissions (auth_db db') = permissions (auth_db db) \<Longrightarrow> accounts db' = accounts db \<Longrightarrow> contract_ok db'"
  by (simp add: contract_ok_def perms_ok_def)

lemma contract_ok_accounts:
  assumes "contract_ok db" "modify account_clash i f (accounts db) = Inr accs" "\<And>a. acct_name (f a) = acct_name a"
    and "auth_db db' = auth_db db" "accounts db' = accs"
  shows "contract_ok db'"
proof -
  obtain v where "index_base accs" "map_of (indices (accounts db)) i = Some v"
    "map_of (indices accs) = (map_of (indices (accounts db)))(i \<mapsto> f v)"
    using index_base_modify [OF assms(2)] assms(1) by (auto simp: contract_ok_def)
  with assms(1,3-) show ?thesis by (auto simp: contract_ok_def)
qed

lemma get_permission_Some:
  assumes "get_permission level adb = Inr (i, p)" "perms_ok adb"
  shows "perms adb i = Some p" "perm_owner p = actor level" "perm_name p = permission level"
  using assms find_by_Some [of "\<lambda>p. (perm_owner p, perm_name p)" "(actor level, permission level)" "permissions adb" i p]
  by (auto simp: get_permission_def perms_ok_def result_simps)

lemma get_account_name:
  assumes "get_account n db = Inr (i, a)" "contract_ok db"
  shows "n \<noteq> 0" "map_of (indices (accounts db)) i = Some a" "acct_name a = n"
  using assms find_by_Some [of acct_name n "accounts db" i a]
  by (auto simp: get_account_def find_account_def contract_ok_def result_simps)

lemma ensures_capture [ensures_intros]: "ensures P m \<Longrightarrow> ensures P (capture_and_rethrow m)"
  by (simp add: ensures_def)

lemma contract_ok_authorized:
  "require_authorization act a db = Inr db' \<Longrightarrow> contract_ok db \<Longrightarrow> contract_ok db'"
  by (rule contract_ok_cong) (simp_all add: require_authorization_frame)

lemma ensures_ram: "contract_ok db \<Longrightarrow> ensures contract_ok (add_ram_usage a d db)"
  unfolding ensures_def by (metis contract_ok_cong add_ram_usage_frame(1,2))

lemma setcode_ok:
  assumes "contract_ok db"
  shows "ensures contract_ok (apply_setcode env act db)"
  unfolding apply_setcode_def
  by (intro ensures_intros ensures_ram;
      rule contract_ok_accounts [OF contract_ok_authorized [OF _ assms]], assumption, assumption, simp_all)

lemma setabi_ok:
  assumes "contract_ok db"
  shows "ensures contract_ok (apply_setabi env act db)"
  unfolding apply_setabi_def
  by (intro ensures_intros ensures_ram;
      rule contract_ok_accounts [OF contract_ok_authorized [OF _ assms]], assumption, assumption, simp_all)

lemma linkauth_ok:
  assumes "contract_ok db"
  shows "ensures contract_ok (apply_linkauth env act db)"
  unfolding apply_linkauth_def
  by (intro ensures_intros ensures_ram; rule contract_ok_cong [OF contract_ok_authorized [OF _ assms]], assumption, simp_all)

lemma unlinkauth_ok:
  assumes "contract_ok db"
  shows "ensures contract_ok (apply_unlinkauth env act db)"
  unfolding apply_unlinkauth_def
  by (intro ensures_intros; rule contract_ok_cong [OF ensuresD [OF ensures_ram [OF contract_ok_authorized [OF _ assms]]]],
      assumption, assumption, simp_all)

lemma canceldelay_ok:
  assumes "contract_ok db"
  shows "ensures contract_ok (apply_canceldelay env act db)"
  unfolding apply_canceldelay_def cancel_deferred_transaction_def
  by (intro ensures_intros; ((rule contract_ok_authorized [OF _ assms], assumption)
      | (rule contract_ok_cong [OF ensuresD [OF ensures_ram [OF contract_ok_authorized [OF _ assms]]]],
      assumption, assumption, simp_all)))

lemma contract_ok_perms:
  assumes "contract_ok db" "perms_ok adb"
    and "\<And>n. has_owner_active (perms (auth_db db)) n \<Longrightarrow> has_owner_active (perms adb) n"
  shows "contract_ok (db\<lparr>auth_db := adb\<rparr>)"
  using assms by (auto simp: contract_ok_def)

lemma deleteauth_step:
  assumes "contract_ok db" "get_permission (Permission_Level a n) (auth_db db) = Inr p"
    and "n \<noteq> owner_name" "n \<noteq> active_name" "remove_permission p (auth_db db) = Inr adb"
  shows "contract_ok (db\<lparr>auth_db := adb\<rparr>)"
proof -
  obtain i q where p: "p = (i, q)" by fastforce
  have ok: "perms_ok (auth_db db)" using assms(1) by (simp add: contract_ok_def)
  note g = get_permission_Some [OF assms(2) [unfolded p] ok]
  note r = remove_permission_ok [OF assms(5) [unfolded p] ok]
  show ?thesis
    using contract_ok_perms [OF assms(1) r(1)] has_owner_active_delete [where m = "perms (auth_db db)" and i = i and p = q]
      g assms(3,4) r(2) by simp
qed

lemma deleteauth_ok:
  assumes "contract_ok db"
  shows "ensures contract_ok (apply_deleteauth env act db)"
  unfolding apply_deleteauth_def
  by (intro ensures_intros ensures_ram; rule deleteauth_step [OF contract_ok_authorized [OF _ assms]], assumption, assumption, simp_all)

lemma update_step:
  assumes "contract_ok db" "modify_permission i auth (auth_db db) = Inr adb"
  shows "contract_ok (db\<lparr>auth_db := adb\<rparr>)"
proof -
  have ok: "perms_ok (auth_db db)" using assms(1) by (simp add: contract_ok_def)
  obtain p p' where m: "perms_ok adb" "perms (auth_db db) i = Some p" "perms adb = (perms (auth_db db))(i \<mapsto> p')"
    "perm_owner p' = perm_owner p" "perm_name p' = perm_name p" "parent p' = parent p"
    using modify_permission_ok [OF assms(2) ok] by metis
  show ?thesis
    using contract_ok_perms [OF assms(1) m(1)] has_owner_active_update [where m = "perms (auth_db db)" and i = i] m(2-) by simp
qed

lemma create_step:
  assumes "contract_ok db" "create_permission a n par auth t (auth_db db) = Inr x" "x = (i, adb)" "a \<noteq> 0"
    and "par = 0 \<or> (\<exists>q. perms (auth_db db) par = Some q \<and> perm_owner q = a)"
  shows "contract_ok (db\<lparr>auth_db := adb\<rparr>)"
proof -
  have ok: "perms_ok (auth_db db)" using assms(1) by (simp add: contract_ok_def)
  obtain p where m: "perms_ok adb" "perms adb = (perms (auth_db db))(i \<mapsto> p)" "perms (auth_db db) i = None"
    using create_permission_ok [OF assms(2) [unfolded assms(3)] ok assms(4,5)] by metis
  show ?thesis
    using contract_ok_perms [OF assms(1) m(1)] has_owner_active_insert [where m = "perms (auth_db db)" and i = i] m(2,3) by simp
qed

lemma parent_step:
  assumes "contract_ok db"
    and "(if b then bindR (get_permission (Permission_Level a par) (auth_db db)) (\<lambda>(pid, _). Inr pid) else Inr 0) = Inr k"
  shows "k = 0 \<or> (\<exists>q. perms (auth_db db) k = Some q \<and> perm_owner q = a)"
proof (cases b)
  case True
  then obtain q where "get_permission (Permission_Level a par) (auth_db db) = Inr (k, q)"
    using assms(2) by (auto simp: result_simps)
  moreover have "perms_ok (auth_db db)" using assms(1) by (simp add: contract_ok_def)
  ultimately show ?thesis using get_permission_Some [of "Permission_Level a par" "auth_db db" k q] by auto
qed (use assms(2) in simp)

lemma account_step: "contract_ok db \<Longrightarrow> get_account n db = Inr x \<Longrightarrow> n \<noteq> 0"
  using get_account_name(1) by (cases x) auto

lemma updateauth_ok:
  assumes "contract_ok db"
  shows "ensures contract_ok (apply_updateauth env act db)"
  unfolding apply_updateauth_def
  by (intro ensures_intros ensures_ram;
      ((rule update_step [OF contract_ok_authorized [OF _ assms]], assumption, assumption)
      | (rule create_step [OF contract_ok_authorized [OF _ assms]], assumption, assumption, assumption,
         rule account_step [OF contract_ok_authorized [OF _ assms]], assumption, assumption,
         rule parent_step [OF contract_ok_authorized [OF _ assms]], assumption, assumption)))

lemma newaccount_step:
  assumes ok: "contract_ok db" and n: "\<not> name_empty n" and e: "emplace account_clash a (accounts db) = Inr accs" "acct_name a = n"
    and c1: "create_permission n owner_name 0 ow 0 (auth_db db1) = Inr x" "x = (i, adb1)" "auth_db db1 = auth_db db"
    and c2: "create_permission n active_name i ac 0 adb1 = Inr y" "y = (j, adb2)"
    and d: "auth_db db' = adb2" "accounts db' = accs"
  shows "contract_ok db'"
proof -
  have p: "perms_ok (auth_db db)" "index_base (accounts db)" using ok by (simp_all add: contract_ok_def)
  have n0: "n \<noteq> 0" using n by (simp add: name_empty_def)
  obtain po where o: "perms_ok adb1" "perms adb1 = (perms (auth_db db))(i \<mapsto> po)" "perms (auth_db db) i = None"
    "perm_owner po = n" "perm_name po = owner_name" "parent po = 0"
    using create_permission_ok [OF c1(1) [unfolded c1(2,3)] p(1) n0] by metis
  then have "perms adb1 i = Some po" by simp
  then obtain pa where a: "perms_ok adb2" "perms adb2 = (perms adb1)(j \<mapsto> pa)" "perms adb1 j = None"
    "perm_owner pa = n" "perm_name pa = active_name" "parent pa = i"
    using create_permission_ok [OF c2(1) [unfolded c2(2)] o(1) n0] o(4) by metis
  have ij: "perms adb2 i = Some po" "perms adb2 j = Some pa" using a(2,3) o(2) by auto
  have new: "has_owner_active (perms adb2) n"
    unfolding has_owner_active_def using ij o(4-6) a(4-6) by blast
  have old: "has_owner_active (perms adb2) k" if "has_owner_active (perms (auth_db db)) k" for k
    using has_owner_active_insert [OF has_owner_active_insert [where p = po, OF that o(3)], of j pa] o(2) a(2,3) by simp
  note ib = index_base_emplace [OF e(1) p(2)]
  show ?thesis
    using ok a(1) ib(1,2) new old n0 e(2) d unfolding contract_ok_def by (auto split: if_splits)
qed

lemma newaccount_ok:
  assumes "contract_ok db"
  shows "ensures contract_ok (apply_newaccount env act db)"
  unfolding apply_newaccount_def
  by (intro ensures_intros ensures_ram;
      rule newaccount_step [OF contract_ok_authorized [OF _ assms]], assumption, assumption, assumption, simp, assumption,
      assumption, simp, assumption, assumption, simp_all)

interpretation native: guarded_machine "apply_native env" "\<lambda>_. True" contract_ok for env
proof
  fix s x t
  assume ok: "contract_ok s" and s: "apply_native env s x = Inr t"
  have "contract_ok (s\<lparr>used_authorizations := u\<rparr>)" for u using ok by (rule contract_ok_cong) simp_all
  then have "ensures contract_ok (apply_native env s x)"
    unfolding apply_native_def Let_def
    by (intro ensures_if newaccount_ok setcode_ok setabi_ok updateauth_ok deleteauth_ok linkauth_ok unlinkauth_ok canceldelay_ok
        ensures_Inr)
  with s show "contract_ok t" by (blast dest: ensuresD)
qed

text \<open>
  The native actions keep accounts and permissions consistent.  Whatever actions are applied, in any order, where an action
  that throws changes nothing: the permissions form a forest of single-account trees, and every account has its
  permission \<open>owner\<close> at a root and its permission \<open>active\<close> directly below it; so comparing two
  permissions of an account always terminates with an answer.
\<close>

theorem native_actions_keep_permissions:
  assumes "contract_ok db" "run_ops (apply_native env) db acts = db'"
  shows "tree_ok (perms (auth_db db'))
    \<and> (\<forall>i a. map_of (indices (accounts db')) i = Some a \<longrightarrow> has_owner_active (perms (auth_db db')) (acct_name a))
    \<and> (\<forall>i p j q. perms (auth_db db') i = Some p \<and> perms (auth_db db') j = Some q \<and> i \<noteq> 0 \<and> j \<noteq> 0
         \<longrightarrow> satisfies (i, p) (j, q) (permissions (auth_db db')) = Inr (above (perms (auth_db db')) i j))"
proof -
  have "contract_ok db'" using native.run_inv [OF assms(1), of acts env] assms(2) by (simp add: list_all_iff)
  then show ?thesis by (auto simp: contract_ok_def perms_ok_def intro: satisfies_above)
qed

section \<open>New accounts\<close>

lemma find_map_put_new: "find P m = None \<Longrightarrow> P (k, v) \<Longrightarrow> find P (map_put k v m) = Some (k, v)"
  by (induction k v m rule: map_put.induct) (auto split: if_splits)

lemma find_map_put_same:
  "sorted_keys m \<Longrightarrow> find P m = Some (k, w) \<Longrightarrow> P (k, v) \<Longrightarrow> find P (map_put k v m) = Some (k, v)"
proof (induction k v m rule: map_put.induct)
  case (2 k v k' v' m)
  then have s: "sorted_keys m" "\<forall>x \<in> set m. k' < fst x" by (auto simp: sorted_keys_def)
  show ?case
  proof (cases "P (k', v')")
    case False
    then have f: "find P m = Some (k, w)" using 2(3) by simp
    then have "(k, w) \<in> set m" by (auto simp: find_Some_iff dest!: nth_mem)
    with s(2) have "k' < k" by auto
    with 2(1) [OF _ _ s(1) f 2(4)] False show ?thesis by auto
  qed (use 2 in auto)
qed simp

lemma find_by_emplace:
  assumes "emplace clash v idx = Inr idx'" "find_by key (key v) idx = None"
  shows "find_by key (key v) idx' = Some (next_id idx, v)"
  using assms by (simp add: find_by_def emplace_indices [OF assms(1)] find_map_put_new)

lemma find_by_modify:
  assumes "modify clash i f idx = Inr idx'" "find_by key k idx = Some (i, v)" "key (f v) = k" "index_base idx"
  shows "find_by key k idx' = Some (i, f v)"
proof -
  obtain w where w: "map_of (indices idx) i = Some w" "indices idx' = map_put i (f w) (indices idx)"
    using modify_indices [OF assms(1)] by metis
  moreover have "map_of (indices idx) i = Some v" using find_by_Some [OF assms(2,4)] by simp
  ultimately show ?thesis
    using assms find_map_put_same [of "indices idx" "\<lambda>(i, v). key v = k" i v "f v"] by (simp add: find_by_def index_base_def)
qed

section \<open>Links\<close>

lemma linkauth_link:
  assumes "as_linkauth (ce_codec env) (act_data act) = Inr req" "index_base (permission_links (auth_db db))"
  shows "ensures (\<lambda>db'. permissions (auth_db db') = permissions (auth_db db)
      \<and> (\<exists>i l. find_link (la_account req) (la_code req) (la_type req) (auth_db db') = Some (i, l)
           \<and> required_permission l = la_requirement req)) (apply_linkauth env act db)"
  unfolding apply_linkauth_def data_as_def assms(1) bindR_bes_assert bindR_Inr
proof (intro ensures_intros)
  fix db1 x i l ls
  assume r: "require_authorization act (la_account req) db = Inr db1"
    and f: "find_link (la_account req) (la_code req) (la_type req) (auth_db db1) = Some x" "x = (i, l)"
    and m: "modify link_clash i (\<lambda>l. l\<lparr>required_permission := la_requirement req\<rparr>) (permission_links (auth_db db1)) = Inr ls"
  show "permissions (auth_db (db1\<lparr>auth_db := (auth_db db1)\<lparr>permission_links := ls\<rparr>\<rparr>)) = permissions (auth_db db)
    \<and> (\<exists>i l. find_link (la_account req) (la_code req) (la_type req) (auth_db (db1\<lparr>auth_db := (auth_db db1)\<lparr>permission_links := ls\<rparr>\<rparr>))
         = Some (i, l) \<and> required_permission l = la_requirement req)"
    using find_by_modify [OF m f(1) [unfolded f(2) find_link_def]] find_by_Some [OF f(1) [unfolded f(2) find_link_def]]
      require_authorization_frame [OF r] assms(2) by (simp add: find_link_def)
next
  fix db1 ls
  assume r: "require_authorization act (la_account req) db = Inr db1"
    and f: "find_link (la_account req) (la_code req) (la_type req) (auth_db db1) = None"
    and m: "emplace link_clash \<lparr>link_account = la_account req, link_code = la_code req, link_type = la_type req,
                  required_permission = la_requirement req\<rparr> (permission_links (auth_db db1)) = Inr ls"
  show "ensures (\<lambda>db'. permissions (auth_db db') = permissions (auth_db db)
    \<and> (\<exists>i l. find_link (la_account req) (la_code req) (la_type req) (auth_db db') = Some (i, l)
         \<and> required_permission l = la_requirement req))
      (add_ram_usage (la_account req) (int permission_link_object_size) (db1\<lparr>auth_db := (auth_db db1)\<lparr>permission_links := ls\<rparr>\<rparr>))"
    unfolding ensures_def using find_by_emplace [OF m, of "\<lambda>l. (link_account l, link_code l, link_type l)"] f
      require_authorization_frame [OF r] by (auto simp: find_link_def add_ram_usage_frame)
qed

text \<open>
  A link to another account's permission cannot be undone.  \<open>linkauth\<close> looks the required permission up by its
  name alone, among the permissions of all accounts; so it accepts a link to a permission that the account does not have.
  After that no authorization is enough to unlink the action or to link it to another permission.
\<close>

theorem linkauth_to_missing_permission_is_stuck:
  assumes "as_linkauth (ce_codec env) (act_data act) = Inr req" "apply_linkauth env act db = Inr db'"
    and "index_base (permission_links (auth_db db))" "la_requirement req \<noteq> besio_any_name"
    and "find_by (\<lambda>p. (perm_owner p, perm_name p)) (la_account req, la_requirement req) (permissions (auth_db db)) = None"
  shows "\<not> is_ok (check_unlinkauth_authorization
           \<lparr>ula_account = la_account req, ula_code = la_code req, ula_type = la_type req\<rparr> auths (auth_db db'))
    \<and> \<not> is_ok (check_linkauth_authorization
           \<lparr>la_account = la_account req, la_code = la_code req, la_type = la_type req, la_requirement = n\<rparr> auths (auth_db db'))"
proof -
  obtain i l where l: "permissions (auth_db db') = permissions (auth_db db)"
    "find_link (la_account req) (la_code req) (la_type req) (auth_db db') = Some (i, l)"
    "required_permission l = la_requirement req"
    using ensuresD [OF linkauth_link [OF assms(1,3)] assms(2)] by blast
  then have linked: "lookup_linked_permission (la_account req) (la_code req) (la_type req) (auth_db db') = Some (la_requirement req)"
    by (simp add: lookup_linked_permission_def)
  have "\<not> is_ok (require_permission auth (Permission_Level (la_account req) (la_requirement req)) (auth_db db'))" for auth
    using assms(5) l(1) by (auto simp: is_ok_iff require_permission_def get_permission_def result_simps)
  with linked assms(4) show ?thesis
    by (auto simp: is_ok_iff check_unlinkauth_authorization_def check_linkauth_authorization_def lookup_minimum_permission_def
        result_simps)
qed

definition new_account_ram :: "newaccount \<Rightarrow> nat" where
  "new_account_ram create = overhead_per_account_ram_bytes + 2 * permission_object_size
     + get_billable_size (na_owner create) + get_billable_size (na_active create)"

text \<open>What a new account is: its rows, its two permissions, and its memory usage, with everything else as it was.\<close>

definition account_created :: "newaccount \<Rightarrow> contract_db \<Rightarrow> contract_db \<Rightarrow> bool" where
  "account_created create db db' \<longleftrightarrow>
     (\<exists>k a i p j q.
        map_of (indices (accounts db)) k = None \<and> map_of (indices (accounts db')) = (map_of (indices (accounts db)))(k \<mapsto> a)
      \<and> acct_name a = na_name create \<and> \<not> privileged a \<and> acct_code a = [] \<and> acct_abi a = []
      \<and> perms (auth_db db) i = None \<and> perms (auth_db db) j = None
      \<and> perms (auth_db db') = (perms (auth_db db))(i \<mapsto> p, j \<mapsto> q)
      \<and> perm_owner p = na_name create \<and> perm_name p = owner_name \<and> parent p = 0 \<and> perm_auth p = na_owner create
      \<and> perm_owner q = na_name create \<and> perm_name q = active_name \<and> parent q = i \<and> perm_auth q = na_active create)
   \<and> map_of (usages (resources db)) (na_name create) = None
   \<and> map_of (usages (resources db'))
       = (map_of (usages (resources db)))(na_name create \<mapsto> no_usage\<lparr>ram_usage := new_account_ram create\<rparr>)
   \<and> na_name create \<in> set (validate_ram_usage db')"

lemma new_account_permissions:
  assumes ok: "perms_ok adb" and n0: "n \<noteq> 0"
    and c1: "create_permission n owner_name 0 ow 0 adb = Inr (i, adb1)"
    and c2: "create_permission n active_name i ac 0 adb1 = Inr (j, adb2)"
  shows "\<exists>i p j q. perms adb i = None \<and> perms adb j = None \<and> perms adb2 = (perms adb)(i \<mapsto> p, j \<mapsto> q)
    \<and> perm_owner p = n \<and> perm_name p = owner_name \<and> parent p = 0 \<and> perm_auth p = ow
    \<and> perm_owner q = n \<and> perm_name q = active_name \<and> parent q = i \<and> perm_auth q = ac"
proof -
  obtain p where p: "perms_ok adb1" "perms adb1 = (perms adb)(i \<mapsto> p)" "perms adb i = None"
    "perm_owner p = n" "perm_name p = owner_name" "parent p = 0" "perm_auth p = ow"
    using create_permission_ok [OF c1 ok n0] by metis
  then have "perms adb1 i = Some p" by simp
  then obtain q where q: "perms adb2 = (perms adb1)(j \<mapsto> q)" "perms adb1 j = None"
    "perm_owner q = n" "perm_name q = active_name" "parent q = i" "perm_auth q = ac"
    using create_permission_ok [OF c2 p(1) n0] p(4) by metis
  have "perms adb j = None" using q(2) p(2) by (auto split: if_splits)
  with p q show ?thesis by metis
qed

lemma new_account_usage:
  assumes "initialize_account n r = Inr r1" "add_ram_usage n (i64 (int s)) db = Inr db'" "resources db = r1"
    and "sorted_keys (usages r)" "0 < s" "s < 2 ^ 63"
  shows "map_of (usages r) n = None" "map_of (usages (resources db')) = (map_of (usages r))(n \<mapsto> no_usage\<lparr>ram_usage := s\<rparr>)"
    "n \<in> set (validate_ram_usage db')"
proof -
  have r1: "map_of (usages r) n = None" "r1 = r\<lparr>limits := map_put n unlimited (limits r), usages := map_put n no_usage (usages r)\<rparr>"
    using assms(1) by (auto simp: initialize_account_def result_simps)
  have s: "i64 (int s) = int s" "to_u64 (int s) = s" "u64 s = s" using assms(6) by (simp_all add: i64_id is_i64_def to_u64_nonneg u64_id)
  show "map_of (usages r) n = None" by (fact r1(1))
  show "map_of (usages (resources db')) = (map_of (usages r))(n \<mapsto> no_usage\<lparr>ram_usage := s\<rparr>)"
    using assms(2-5) r1 unfolding s
    by (auto simp: add_ram_usage_def add_pending_ram_usage_def get_usage_def result_simps s no_usage_def)
  show "n \<in> set (validate_ram_usage db')"
    using assms(2,5) unfolding s by (auto simp: add_ram_usage_def result_simps set_insort_key)
qed

lemma newaccount_created:
  assumes ok: "contract_ok db" and "sorted_keys (usages (resources db))" "new_account_ram create < 2 ^ 63"
    and "as_newaccount (ce_codec env) (act_data act) = Inr create"
  shows "ensures (account_created create db) (apply_newaccount env act db)"
  unfolding apply_newaccount_def data_as_def assms(4) bindR_bes_assert bindR_Inr new_account_ram_def [symmetric]
proof (intro ensures_intros)
  fix db1 accs seqs db2 x i adb1 y j adb2 r1
  assume r: "require_authorization act (na_creator create) db = Inr db1" and n: "\<not> name_empty (na_name create)"
    and e: "emplace account_clash \<lparr>acct_name = na_name create, vm_type = 0, vm_version = 0, privileged = False,
              last_code_update = 0, code_version = default_digest,
              creation_date = set_time_point (pending_block_time (auth_db db1)), acct_code = [], acct_abi = []\<rparr> (accounts db1) = Inr accs"
    and d2: "db2 = db1\<lparr>accounts := accs, account_sequences := seqs\<rparr>"
    and c1: "create_permission (na_name create) owner_name 0 (na_owner create) 0 (auth_db db2) = Inr x" "x = (i, adb1)"
    and c2: "create_permission (na_name create) active_name i (na_active create) 0 adb1 = Inr y" "y = (j, adb2)"
    and i: "initialize_account (na_name create) (resources db2) = Inr r1"
  note f = require_authorization_frame [OF r]
  have p: "perms_ok (auth_db db)" "index_base (accounts db)" "na_name create \<noteq> 0"
    using ok n by (simp_all add: contract_ok_def name_empty_def)
  note acc = index_base_emplace [OF e [unfolded f] p(2)]
  note per = new_account_permissions [OF p(1,3) c1(1) [unfolded c1(2) d2, simplified, unfolded f] c2(1) [unfolded c2(2)]]
  have s: "0 < new_account_ram create" by (simp add: new_account_ram_def overhead_per_account_ram_bytes_def)
  let ?db3 = "db2\<lparr>auth_db := adb2, resources := r1\<rparr>"
  show "ensures (account_created create db) (add_ram_usage (na_name create) (i64 (int (new_account_ram create))) ?db3)"
    unfolding ensures_def
  proof (intro allI impI)
    fix db'
    assume a: "add_ram_usage (na_name create) (i64 (int (new_account_ram create))) ?db3 = Inr db'"
    have i': "initialize_account (na_name create) (resources db) = Inr r1" using i f(4) d2 by simp
    note u = new_account_usage [OF i' a _ assms(2) s assms(3)]
    have fr: "auth_db db' = adb2" "accounts db' = accs" using add_ram_usage_frame [OF a] d2 by simp_all
    show "account_created create db db'"
      unfolding account_created_def fr using acc(2,3) per u by (intro conjI) (auto 0 3)
  qed
qed

text \<open>
  C29. What \<open>newaccount\<close> does when it does not throw: it adds one account, without code and without privileges, with the name
  asked for, and its two permissions \<open>owner\<close> and, below it, \<open>active\<close> with the authorities asked for; the
  account is billed for exactly these rows and its memory will be verified; everything else is as it was.
\<close>

theorem newaccount_effect:
  assumes "contract_ok db" "sorted_keys (usages (resources db))" "new_account_ram create < 2 ^ 63"
    and "as_newaccount (ce_codec env) (act_data act) = Inr create" "apply_newaccount env act db = Inr db'"
  shows "account_created create db db'"
  using ensuresD [OF newaccount_created [OF assms(1-4)] assms(5)] .

section \<open>A small chain\<close>

definition bob :: name where
  "bob = string_to_name ''bob''"

definition sample_newaccount :: newaccount where
  "sample_newaccount = \<lparr>na_creator = 7, na_name = bob, na_owner = authority_of_key (K1 5) 0, na_active = authority_of_key (K1 6) 0\<rparr>"

definition sample_linkauth :: linkauth where
  "sample_linkauth = \<lparr>la_account = 7, la_code = 7, la_type = 12, la_requirement = 21\<rparr>"

definition sample_env :: contract_env where
  "sample_env = \<lparr>ce_codec = \<lparr>as_updateauth = (\<lambda>_. Inl out_of_range_exception), as_deleteauth = (\<lambda>_. Inl out_of_range_exception),
       as_linkauth = (\<lambda>_. Inr sample_linkauth), as_unlinkauth = (\<lambda>_. Inl out_of_range_exception),
       as_canceldelay = (\<lambda>_. Inl out_of_range_exception), as_newaccount = (\<lambda>_. Inr sample_newaccount),
       as_setcode = (\<lambda>_. Inl out_of_range_exception), as_setabi = (\<lambda>_. Inl out_of_range_exception)\<rparr>,
     code_hash = (\<lambda>_. default_digest), wasm_validate = (\<lambda>_. Inr ()), is_producing_block = False, key_blacklist = []\<rparr>"

definition sample_account :: "name \<Rightarrow> account_object" where
  "sample_account n = \<lparr>acct_name = n, vm_type = 0, vm_version = 0, privileged = False, last_code_update = 0,
     code_version = default_digest, creation_date = 0, acct_code = [], acct_abi = []\<rparr>"

text \<open>Two accounts 7 and 8; account 8 has a third permission, with the name 21.\<close>

definition sample_contract_db :: contract_db where
  "sample_contract_db = \<lparr>auth_db = sample_auth_db\<lparr>permissions := empty_index\<lparr>next_id := 6, indices := [(0, reserved_permission),
       (1, sample_perm 0 7 owner_name (authority_of_key (K1 1) 0)), (2, sample_perm 1 7 active_name (authority_of_key (K1 2) 0)),
       (3, sample_perm 0 8 owner_name (authority_of_key (K1 3) 0)), (4, sample_perm 3 8 active_name (authority_of_key (K1 4) 0)),
       (5, sample_perm 4 8 21 (authority_of_key (K1 4) 0))]\<rparr>\<rparr>,
     accounts = empty_index\<lparr>next_id := 2, indices := [(0, sample_account 7), (1, sample_account 8)]\<rparr>,
     account_sequences = empty_index, resources = initialize_database\<lparr>usages := [(7, no_usage), (8, no_usage)]\<rparr>,
     used_authorizations = [], validate_ram_usage = []\<rparr>"

definition native_action :: "name \<Rightarrow> action" where
  "native_action n = \<lparr>act_account = system_account_name, act_name = n, act_authorization = [Permission_Level 7 active_name], act_data = []\<rparr>"

lemma contract_name_values:
  "newaccount_name = 11148770977341390848" "setcode_name = 14029427681804681216" "setabi_name = 14029385431137648640"
  "bob = 4399453885987553280"
  by (simp_all add: newaccount_name_def setcode_name_def setabi_name_def bob_def
      string_to_name_def string_to_name_loop.simps char_at_def char_to_symbol_def)

lemma bob_string: "name_to_string bob = ''bob''"
  unfolding bob_def by (rule name_to_string_string_to_name) (simp add: normalized_def name_char_def sym_at_def char_to_symbol_def name_charmap_def)

lemmas contract_eval = data_as_def require_authorization_def find_account_def get_account_def find_by_def add_ram_usage_def
  add_pending_ram_usage_def get_usage_def emplace_def on_create_def enabled_def clashes_def key_clash_def empty_index_def
  sample_env_def sample_account_def sample_contract_db_def native_action_def sample_auth_db_def sample_perm_def reserved_permission_def
  name_values Let_def

lemma contract_ok_sample: "contract_ok sample_contract_db"
proof -
  let ?m = "perms (auth_db sample_contract_db)"
  have "has_owner_active ?m 7" unfolding has_owner_active_def
    by (intro exI [of _ 1] exI [of _ "the (?m 1)"] exI [of _ 2] exI [of _ "the (?m 2)"]) (simp add: sample_contract_db_def sample_perm_def)
  moreover have "has_owner_active ?m 8" unfolding has_owner_active_def
    by (intro exI [of _ 3] exI [of _ "the (?m 3)"] exI [of _ 4] exI [of _ "the (?m 4)"]) (simp add: sample_contract_db_def sample_perm_def)
  moreover have "tree_ok ?m"
    by (auto simp: tree_ok_def sample_contract_db_def sample_perm_def reserved_permission_def split: if_splits)
  moreover have "index_base (permissions (auth_db sample_contract_db))" "index_base (accounts sample_contract_db)"
    by (auto simp: index_base_def sorted_keys_def sample_contract_db_def empty_index_def split: if_splits)
  ultimately show ?thesis
    by (auto simp: contract_ok_def perms_ok_def sample_contract_db_def sample_account_def split: if_splits)
qed

lemma bob_validates: "validate (authority_of_key (K1 n) 0)" "auth_accounts (authority_of_key (K1 n) 0) = []"
  by (simp_all add: validate_def authority_of_key_def u32_def)

lemma bob_ram: "get_billable_size (authority_of_key (K1 n) 0) = 50"
  by (simp add: get_billable_size_def authority_of_key_def billable_size_v_def billable_alignment_def key_pack_size_def u64_def)

lemma row_sizes: "overhead_per_account_ram_bytes = 2048" "permission_object_size = 288" "permission_link_object_size = 144"
  by (simp_all add: overhead_per_account_ram_bytes_def permission_object_size_def permission_link_object_size_def shared_authority_size_def
      overhead_per_row_per_index_ram_bytes_def billable_size_v_def billable_alignment_def)

lemma bob_neq: "bob \<noteq> 0" "7 \<noteq> bob" "bob \<noteq> 7" "8 \<noteq> bob" "bob \<noteq> 8" "\<not> bob < 7" "\<not> bob < 8"
  by (simp_all add: contract_name_values)

lemmas newaccount_eval = contract_eval apply_newaccount_def account_clash_def sequence_clash_def permission_clash_def usage_clash_def
  create_permission_def validate_authority_precondition_def initialize_account_def initialize_database_def name_empty_def
  bob_string bob_neq bob_validates sample_newaccount_def bob_ram row_sizes i64_def to_u64_def u64_sub_def u64_def UINT64_MAX_def no_usage_def

lemma bob_created:
  obtains db' a where "apply_newaccount sample_env (native_action newaccount_name) sample_contract_db = Inr db'"
    "map_of (indices (accounts db')) 2 = Some a" "acct_name a = bob"
proof -
  have "\<exists>db'. apply_newaccount sample_env (native_action newaccount_name) sample_contract_db = Inr db'
      \<and> (\<exists>a. map_of (indices (accounts db')) 2 = Some a \<and> acct_name a = bob)"
    by (simp add: newaccount_eval)
  with that show ?thesis by blast
qed

theorem native_actions_keep_permissions_witness:
  "has_owner_active (perms (auth_db (run_ops (apply_native sample_env) sample_contract_db [native_action newaccount_name]))) bob"
proof -
  let ?db' = "run_ops (apply_native sample_env) sample_contract_db [native_action newaccount_name]"
  have "apply_native sample_env sample_contract_db (native_action newaccount_name)
      = apply_newaccount sample_env (native_action newaccount_name) (sample_contract_db\<lparr>used_authorizations := [False]\<rparr>)"
    by (simp add: apply_native_def native_action_def)
  also have "\<exists>a. map_of (indices (accounts (apply_op (\<lambda>_ _. \<dots>) sample_contract_db ()))) 2 = Some a \<and> acct_name a = bob"
    by (simp add: newaccount_eval apply_op_def capture_and_rethrow_def)
  finally obtain a where a: "map_of (indices (accounts ?db')) 2 = Some a" "acct_name a = bob"
    by (auto simp: apply_op_def)
  from native_actions_keep_permissions [OF contract_ok_sample refl, of sample_env "[native_action newaccount_name]"]
  have "has_owner_active (perms (auth_db ?db')) (acct_name a)" using a(1) by presburger
  with a(2) show ?thesis by simp
qed

theorem newaccount_effect_witness:
  "\<exists>db'. apply_newaccount sample_env (native_action newaccount_name) sample_contract_db = Inr db'
     \<and> account_created sample_newaccount sample_contract_db db'"
proof -
  obtain db' where a: "apply_newaccount sample_env (native_action newaccount_name) sample_contract_db = Inr db'"
    by (rule bob_created)
  have "sorted_keys (usages (resources sample_contract_db))" by (simp add: sample_contract_db_def sorted_keys_def)
  moreover have "new_account_ram sample_newaccount < 2 ^ 63" by (simp add: new_account_ram_def sample_newaccount_def row_sizes bob_ram)
  moreover have "as_newaccount (ce_codec sample_env) (act_data (native_action newaccount_name)) = Inr sample_newaccount"
    by (simp add: sample_env_def)
  ultimately show ?thesis using newaccount_effect [OF contract_ok_sample _ _ _ a] a by blast
qed

theorem linkauth_to_missing_permission_is_stuck_witness:
  "\<exists>db'. apply_linkauth sample_env (native_action linkauth_name) sample_contract_db = Inr db'
     \<and> (\<forall>auths. \<not> is_ok (check_unlinkauth_authorization \<lparr>ula_account = 7, ula_code = 7, ula_type = 12\<rparr> auths (auth_db db')))"
proof -
  have "\<exists>db'. apply_linkauth sample_env (native_action linkauth_name) sample_contract_db = Inr db'"
    by (simp add: apply_linkauth_def sample_linkauth_def newaccount_eval find_link_def link_clash_def)
  then obtain db' where a: "apply_linkauth sample_env (native_action linkauth_name) sample_contract_db = Inr db'" by blast
  have "index_base (permission_links (auth_db sample_contract_db))"
    by (simp add: index_base_def sample_contract_db_def sample_auth_db_def empty_index_def sorted_keys_def)
  moreover have "find_by (\<lambda>p. (perm_owner p, perm_name p)) (7, 21) (permissions (auth_db sample_contract_db)) = None"
    by (simp add: contract_eval)
  moreover have "as_linkauth (ce_codec sample_env) (act_data (native_action linkauth_name)) = Inr sample_linkauth"
    by (simp add: sample_env_def)
  ultimately show ?thesis
    using linkauth_to_missing_permission_is_stuck [OF _ a, of sample_linkauth] a by (simp add: sample_linkauth_def name_values)
qed

end
