(* ===== verification/ForkDatabase.thy ===== *)
theory ForkDatabase
  imports Transactions
begin

text \<open>
  The fork database: \<^verbatim>\<open>libraries/chain/fork_database.cpp\<close> with the block states of \<^verbatim>\<open>block_state.hpp\<close> and the blocks of
  \<^verbatim>\<open>block.hpp\<close>.

  A \<^verbatim>\<open>block_state_ptr\<close> is the id of the block state that it points to; \<open>objects\<close> has the block states.  The container has four indices.  The
  ids in the order in which they were inserted stand for the hashed index and for the index by previous block, which keeps blocks
  with the same previous block in that order.  The two indices whose keys change are lists of their own, in which an element
  moves as it does in the container.  \<open>signalled\<close> is the sequence of blocks for which the signal \<open>irreversible\<close>
  was emitted.
\<close>

section \<open>Blocks\<close>

datatype status_enum = executed | soft_fail | hard_fail | delayed | expired

record transaction_receipt_header =
  status :: status_enum
  cpu_usage_us :: nat
  net_usage_words :: nat

record transaction_receipt = transaction_receipt_header +
  receipt_trx :: "sha256 + packed_transaction"

fun status_code :: "status_enum \<Rightarrow> nat" where
  "status_code executed = 0"
| "status_code soft_fail = 1"
| "status_code hard_fail = 2"
| "status_code delayed = 3"
| "status_code expired = 4"

definition receipt_digest :: "trx_env \<Rightarrow> transaction_receipt \<Rightarrow> sha256 result" where
  "receipt_digest env r =
     bindR (pack_uint 1 (status_code (status r))) (\<lambda>s.
     bindR (pack_uint 4 (cpu_usage_us r)) (\<lambda>c.
     bindR (pack_unsigned_int (net_usage_words r)) (\<lambda>n.
     bindR (case receipt_trx r of Inl tid \<Rightarrow> pack_sha256 tid | Inr p \<Rightarrow> bindR (packed_digest env p) pack_sha256) (\<lambda>t.
     Inr (hash_bytes env (s @ c @ n @ t))))))"

record signed_block = signed_block_header +
  transactions :: "transaction_receipt list"
  block_extensions :: "(nat \<times> bytes) list"

definition block_of_header :: "signed_block_header \<Rightarrow> signed_block" where
  "block_of_header h = signed_block_header.extend h \<lparr>transactions = [], block_extensions = []\<rparr>"

record block_state =
  bhs :: block_header_state
  bs_block :: "signed_block option"
  validated :: bool
  in_current_chain :: bool

text \<open>The constructors: from a header state, for the genesis block, for a block under production, and for a received block.\<close>

definition block_state_of :: "block_header_state \<Rightarrow> block_state" where
  "block_state_of cur = \<lparr>bhs = cur, bs_block = None, validated = False, in_current_chain = False\<rparr>"

definition genesis_block :: "block_header_state \<Rightarrow> block_state" where
  "genesis_block g = (block_state_of g)\<lparr>bs_block := Some (block_of_header (header g))\<rparr>"

definition new_block_state :: "chain_crypto \<Rightarrow> block_header_state \<Rightarrow> block_timestamp_type \<Rightarrow> block_state result" where
  "new_block_state cr prev when =
     bindR (generate_next cr prev when) (\<lambda>s.
     Inr \<lparr>bhs = s, bs_block = Some (block_of_header (header s)), validated = False, in_current_chain = False\<rparr>)"

definition next_block_state :: "chain_crypto \<Rightarrow> block_header_state \<Rightarrow> signed_block \<Rightarrow> bool \<Rightarrow> block_state result" where
  "next_block_state cr prev b trust =
     bindR (next_state cr prev (signed_block_header.truncate b) trust) (\<lambda>s.
     Inr \<lparr>bhs = s, bs_block = Some b, validated = False, in_current_chain = False\<rparr>)"

abbreviation "bs_id s \<equiv> block_id (bhs s)"
abbreviation "bs_num s \<equiv> block_num (bhs s)"
abbreviation "bs_prev s \<equiv> previous (header (bhs s))"
abbreviation "bs_bft s \<equiv> bft_irreversible_blocknum (bhs s)"
abbreviation "bs_lib s \<equiv> dpos_irreversible_blocknum (bhs s)"

section \<open>The container\<close>

text \<open>The orders of the two indices.\<close>

definition num_less :: "block_state \<Rightarrow> block_state \<Rightarrow> bool" where
  "num_less a b \<longleftrightarrow> bs_num a < bs_num b \<or> bs_num a = bs_num b \<and> in_current_chain a \<and> \<not> in_current_chain b"

definition lib_less :: "block_state \<Rightarrow> block_state \<Rightarrow> bool" where
  "lib_less a b \<longleftrightarrow> bs_lib a > bs_lib b
     \<or> bs_lib a = bs_lib b \<and> (bs_bft a > bs_bft b \<or> bs_bft a = bs_bft b \<and> bs_num a > bs_num b)"

record fork_database =
  objects :: "sha256 \<Rightarrow> block_state"
  by_block_id :: "sha256 list"
  by_block_num :: "sha256 list"
  by_lib_block_num :: "sha256 list"
  fork_head :: "sha256 option"
  signalled :: "sha256 list"

text \<open>A new element of an ordered index goes behind the elements that are not greater.\<close>

fun ordered_insert :: "('a \<Rightarrow> 'a \<Rightarrow> bool) \<Rightarrow> 'a \<Rightarrow> 'a list \<Rightarrow> 'a list" where
  "ordered_insert lt x [] = [x]"
| "ordered_insert lt x (y # ys) = (if lt x y then x # y # ys else y # ordered_insert lt x ys)"

text \<open>After a change of its key an element stays where it is if it is in order with its neighbours.\<close>

fun in_place :: "('a \<Rightarrow> 'a \<Rightarrow> bool) \<Rightarrow> 'a \<Rightarrow> 'a list \<Rightarrow> bool" where
  "in_place lt x (y # z # ys) =
     (if x = y then \<not> lt z y else if x = z then \<not> lt z y \<and> in_place lt x (z # ys) else in_place lt x (z # ys))"
| "in_place lt x ys = True"

definition ordered_modify :: "('a \<Rightarrow> 'a \<Rightarrow> bool) \<Rightarrow> 'a \<Rightarrow> 'a list \<Rightarrow> 'a list" where
  "ordered_modify lt x xs = (if in_place lt x xs then xs else ordered_insert lt x (remove1 x xs))"

definition on_objects :: "(block_state \<Rightarrow> block_state \<Rightarrow> bool) \<Rightarrow> (sha256 \<Rightarrow> block_state) \<Rightarrow> sha256 \<Rightarrow> sha256 \<Rightarrow> bool" where
  "on_objects lt objs i j = lt (objs i) (objs j)"

definition index_insert :: "block_state \<Rightarrow> fork_database \<Rightarrow> bool \<times> fork_database" where
  "index_insert s db =
     (let i = bs_id s in
      if i \<in> set (by_block_id db) then (False, db)
      else let objs = (objects db)(i := s) in
        (True, db\<lparr>objects := objs, by_block_id := by_block_id db @ [i],
                  by_block_num := ordered_insert (on_objects num_less objs) i (by_block_num db),
                  by_lib_block_num := ordered_insert (on_objects lib_less objs) i (by_lib_block_num db)\<rparr>))"

definition index_modify :: "sha256 \<Rightarrow> (block_state \<Rightarrow> block_state) \<Rightarrow> fork_database \<Rightarrow> fork_database" where
  "index_modify i f db =
     (let objs = (objects db)(i := f (objects db i)) in
      db\<lparr>objects := objs,
         by_block_num := ordered_modify (on_objects num_less objs) i (by_block_num db),
         by_lib_block_num := ordered_modify (on_objects lib_less objs) i (by_lib_block_num db)\<rparr>)"

definition index_erase :: "sha256 \<Rightarrow> fork_database \<Rightarrow> fork_database" where
  "index_erase i db = db\<lparr>by_block_id := remove1 i (by_block_id db), by_block_num := remove1 i (by_block_num db),
     by_lib_block_num := remove1 i (by_lib_block_num db)\<rparr>"

text \<open>The blocks whose previous block is the given one, in the index by previous block.\<close>

definition children :: "fork_database \<Rightarrow> sha256 \<Rightarrow> sha256 list" where
  "children db i = filter (\<lambda>j. bs_prev (objects db j) = i) (by_block_id db)"


definition get_block :: "sha256 \<Rightarrow> fork_database \<Rightarrow> block_state option" where
  "get_block i db = (if i \<in> set (by_block_id db) then Some (objects db i) else None)"

text \<open>\<^verbatim>\<open>*index.begin()\<close>, which has no meaning for an empty index.\<close>

definition first_of :: "sha256 list \<Rightarrow> sha256 result" where
  "first_of idx = (case idx of [] \<Rightarrow> Inl undefined_behaviour | i # _ \<Rightarrow> Inr i)"

section \<open>Removal\<close>

lemma length_erase: "i \<in> set (by_block_id db) \<Longrightarrow> length (by_block_id (index_erase i db)) < length (by_block_id db)"
  using length_pos_if_in_set [of i "by_block_id db"] by (simp add: index_erase_def length_remove1)

text \<open>
  The loop over \<open>remove_queue\<close>: the list is the part of the queue that is still to be visited.  Every block is pushed when it is in the
  index, and is no longer there when it has been visited.
\<close>

function remove_loop :: "sha256 list \<Rightarrow> fork_database \<Rightarrow> fork_database" where
  "remove_loop [] db = db"
| "remove_loop (i # queue) db =
     (let db = (if i \<in> set (by_block_id db) then index_erase i db else db)
      in remove_loop (queue @ children db i) db)"
  by pat_completeness auto

termination
  by (relation "measures [\<lambda>(q, db). length (by_block_id db), \<lambda>(q, db). length (filter (\<lambda>i. i \<notin> set (by_block_id db)) q)]")
    (auto simp: length_erase children_def filter_empty_conv)

definition fork_remove :: "sha256 \<Rightarrow> fork_database \<Rightarrow> fork_database result" where
  "fork_remove i db =
     (let db = remove_loop [i] db in
      bindR (first_of (by_lib_block_num db)) (\<lambda>h. Inr (db\<lparr>fork_head := Some h\<rparr>)))"

definition set_validity :: "block_state \<Rightarrow> bool \<Rightarrow> fork_database \<Rightarrow> fork_database result" where
  "set_validity h valid db =
     (if \<not> valid then fork_remove (bs_id h) db
      else Inr (db\<lparr>objects := (objects db)(bs_id h := (objects db (bs_id h))\<lparr>validated := True\<rparr>)\<rparr>))"

definition mark_in_current_chain :: "block_state \<Rightarrow> bool \<Rightarrow> fork_database \<Rightarrow> fork_database result" where
  "mark_in_current_chain h in_chain db =
     (if in_current_chain h = in_chain then Inr db
      else bes_assert (bs_id h \<in> set (by_block_id db)) fork_db_block_not_found
        (Inr (index_modify (bs_id h) (\<lambda>b. b\<lparr>in_current_chain := in_chain\<rparr>) db)))"

text \<open>
  \<open>prune\<close>, second part: the block itself becomes irreversible, and every other block with its number is removed with all blocks
  built on it.  The list is what the iterator still has before it in the index by number.  The iterator is advanced before a
  block is removed; if the block that it then points to is removed too, it is read after it was freed.
\<close>

function remove_siblings :: "nat \<Rightarrow> sha256 list \<Rightarrow> fork_database \<Rightarrow> fork_database result" where
  "remove_siblings num [] db = Inr db"
| "remove_siblings num (i # rest) db =
     (if bs_num (objects db i) = num then
        bindR (fork_remove i db) (\<lambda>db.
        if rest \<noteq> [] \<and> hd rest \<notin> set (by_block_id db) then Inl undefined_behaviour
        else remove_siblings num (filter (\<lambda>j. j \<in> set (by_block_id db)) rest) db)
      else Inr db)"
  by pat_completeness auto

termination
  by (relation "measure (\<lambda>(num, rest, db). length rest)") (auto simp: le_imp_less_Suc)

definition prune_level :: "sha256 \<Rightarrow> nat \<Rightarrow> fork_database \<Rightarrow> fork_database result" where
  "prune_level i num db =
     (let db = (if i \<in> set (by_block_id db) then index_erase i (db\<lparr>signalled := signalled db @ [i]\<rparr>) else db)
      in remove_siblings num (dropWhile (\<lambda>j. bs_num (objects db j) < num) (by_block_num db)) db)"

text \<open>
  First part: as long as the first block of the index by number is older, it is pruned.  The recursive call is for the first
  block of the index, so its own loop ends at once.  A round removes a block from the index; the number of
  rounds is limited by its size.
\<close>

fun prune_older :: "nat \<Rightarrow> nat \<Rightarrow> fork_database \<Rightarrow> fork_database result" where
  "prune_older fuel num db =
     (case by_block_num db of
        [] \<Rightarrow> Inr db
      | i # _ \<Rightarrow>
          if bs_num (objects db i) < num then
            (case fuel of
               0 \<Rightarrow> Inl undefined_behaviour
             | Suc n \<Rightarrow> bindR (prune_level i (bs_num (objects db i)) db) (prune_older n num))
          else Inr db)"

definition prune :: "block_state \<Rightarrow> fork_database \<Rightarrow> fork_database result" where
  "prune h db =
     bindR (prune_older (length (by_block_num db)) (bs_num h) db) (prune_level (bs_id h) (bs_num h))"

section \<open>Additions\<close>

text \<open>An exception of \<open>set\<close> for a wrong id leaves the block in the index, so the new state is returned with the result.\<close>

definition fork_set :: "chain_crypto \<Rightarrow> block_state \<Rightarrow> fork_database \<Rightarrow> unit result \<times> fork_database" where
  "fork_set cr s db =
     (let (inserted, db) = index_insert s db in
      if bs_id s \<noteq> header_id cr (header (bhs s)) then (Inl fork_database_exception, db)
      else if \<not> inserted then (Inl fork_database_exception, db)
      else (Inr (), case fork_head db of
              None \<Rightarrow> db\<lparr>fork_head := Some (bs_id s)\<rparr>
            | Some h \<Rightarrow> if bs_num (objects db h) < bs_num s then db\<lparr>fork_head := Some (bs_id s)\<rparr> else db))"

definition fork_add_state :: "block_state \<Rightarrow> fork_database \<Rightarrow> fork_database result" where
  "fork_add_state n db =
     (let (inserted, db) = index_insert n db in
      bes_assert inserted fork_database_exception (
      bindR (first_of (by_lib_block_num db)) (\<lambda>h.
      let db = db\<lparr>fork_head := Some h\<rparr>; lib = bs_lib (objects db h) in
      bindR (first_of (by_block_num db)) (\<lambda>oldest.
      if bs_num (objects db oldest) < lib then prune (objects db oldest) db else Inr db))))"

definition fork_add :: "chain_crypto \<Rightarrow> signed_block \<Rightarrow> bool \<Rightarrow> fork_database \<Rightarrow> (block_state \<times> fork_database) result" where
  "fork_add cr b trust db =
     bes_assert (fork_head db \<noteq> None) fork_db_block_not_found (
     bes_assert (get_block (header_id cr b) db = None) fork_database_exception (
     case get_block (previous b) db of
       None \<Rightarrow> Inl unlinkable_block_exception
     | Some prior \<Rightarrow>
         bindR (next_block_state cr (bhs prior) b trust) (\<lambda>n.
         bindR (fork_add_state n db) (\<lambda>db. Inr (n, db)))))"

section \<open>Confirmations\<close>

text \<open>One layer of the breadth-first traversal in \<open>set_bft_irreversible\<close>; the ids that were updated are the next layer.\<close>

definition raise_bft :: "nat \<Rightarrow> sha256 \<Rightarrow> fork_database \<times> sha256 list \<Rightarrow> fork_database \<times> sha256 list" where
  "raise_bft num j st =
     (case st of (db, updated) \<Rightarrow>
        (index_modify j (\<lambda>b. if bs_bft b < num then b\<lparr>bhs := (bhs b)\<lparr>bft_irreversible_blocknum := num\<rparr>\<rparr> else b) db,
         if bs_bft (objects db j) < num then updated @ [j] else updated))"

definition update_layer :: "nat \<Rightarrow> sha256 list \<Rightarrow> fork_database \<Rightarrow> fork_database \<times> sha256 list" where
  "update_layer num layer db = fold (\<lambda>i st. fold (raise_bft num) (children (fst st) i) st) layer (db, [])"

text \<open>Every round of the loop raises the number of a block that was below, so there are at most as many rounds as blocks.\<close>

fun bft_loop :: "nat \<Rightarrow> nat \<Rightarrow> sha256 list \<Rightarrow> fork_database \<Rightarrow> fork_database result" where
  "bft_loop fuel num queue db =
     (if queue = [] then Inr db
      else case fuel of
        0 \<Rightarrow> Inl undefined_behaviour
      | Suc n \<Rightarrow> (case update_layer num queue db of (db, queue) \<Rightarrow> bft_loop n num queue db))"

definition set_bft_irreversible :: "sha256 \<Rightarrow> fork_database \<Rightarrow> fork_database result" where
  "set_bft_irreversible i db =
     (let num = bs_num (objects db i);
          db = index_modify i (\<lambda>b. b\<lparr>bhs := (bhs b)\<lparr>bft_irreversible_blocknum := bs_num b\<rparr>\<rparr>) db
      in bft_loop (Suc (length (by_block_id db))) num [i] db)"

definition fork_confirm :: "chain_crypto \<Rightarrow> header_confirmation \<Rightarrow> fork_database \<Rightarrow> fork_database result" where
  "fork_confirm cr c db =
     (case get_block (conf_block_id c) db of
        None \<Rightarrow> Inl fork_db_block_not_found
      | Some b \<Rightarrow>
          bindR (add_confirmation cr c (bhs b)) (\<lambda>s.
          let db = db\<lparr>objects := (objects db)(conf_block_id c := b\<lparr>bhs := s\<rparr>)\<rparr> in
          if bft_irreversible_blocknum s < block_num s
             \<and> length (confirmations s) \<ge> length (producers (active_schedule s)) * 2 div 3 + 1
          then set_bft_irreversible (conf_block_id c) db else Inr db))"

section \<open>Branches\<close>

text \<open>
  \<open>fetch_branch_from\<close>: two loops that go back on the longer branch, one that goes back on both.  The message of the assertion on the
  previous block reads the header of the block that was not found, and so does the condition of the loops when one of
  the two given blocks is not in the index.  The numbers of blocks decrease, which is what the fuel counts.
\<close>

fun walk_back :: "nat \<Rightarrow> nat \<Rightarrow> block_state \<Rightarrow> block_state list \<Rightarrow> fork_database \<Rightarrow> (block_state \<times> block_state list) result" where
  "walk_back fuel num b branch db =
     (if bs_num b > num then
        (case fuel of
           0 \<Rightarrow> Inl undefined_behaviour
         | Suc n \<Rightarrow>
             (case get_block (bs_prev b) db of
                None \<Rightarrow> Inl undefined_behaviour
              | Some p \<Rightarrow> walk_back n num p (branch @ [b]) db))
      else Inr (b, branch))"

fun walk_both :: "nat \<Rightarrow> block_state \<Rightarrow> block_state \<Rightarrow> block_state list \<Rightarrow> block_state list \<Rightarrow> fork_database
    \<Rightarrow> (block_state list \<times> block_state list) result" where
  "walk_both fuel a b as bs db =
     (if bs_prev a \<noteq> bs_prev b then
        (case fuel of
           0 \<Rightarrow> Inl undefined_behaviour
         | Suc n \<Rightarrow>
             (case (get_block (bs_prev a) db, get_block (bs_prev b) db) of
                (Some p, Some q) \<Rightarrow> walk_both n p q (as @ [a]) (bs @ [b]) db
              | _ \<Rightarrow> Inl undefined_behaviour))
      else Inr (as @ [a], bs @ [b]))"

definition fetch_branch_from :: "sha256 \<Rightarrow> sha256 \<Rightarrow> fork_database \<Rightarrow> (block_state list \<times> block_state list) result" where
  "fetch_branch_from i j db =
     (case (get_block i db, get_block j db) of
        (Some a, Some b) \<Rightarrow>
          bindR (walk_back (bs_num a) (bs_num b) a [] db) (\<lambda>(a, as).
          bindR (walk_back (bs_num b) (bs_num a) b [] db) (\<lambda>(b, bs).
          walk_both (bs_num a) a b as bs db))
      | _ \<Rightarrow> Inl undefined_behaviour)"

definition get_block_in_current_chain_by_num :: "nat \<Rightarrow> fork_database \<Rightarrow> block_state option" where
  "get_block_in_current_chain_by_num n db =
     (case dropWhile (\<lambda>i. bs_num (objects db i) < n) (by_block_num db) of
        [] \<Rightarrow> None
      | i # _ \<Rightarrow> if bs_num (objects db i) \<noteq> n \<or> \<not> in_current_chain (objects db i) then None else Some (objects db i))"

section \<open>Start and end\<close>

text \<open>
  The file of the fork database has its block states and the id of the head.  The block states are written in the order in which the
  hashed index is iterated, the parameter \<open>hash_order\<close>.
\<close>

definition empty_fork_database :: fork_database where
  "empty_fork_database = \<lparr>objects = (\<lambda>_. block_state_of default_header_state), by_block_id = [], by_block_num = [], by_lib_block_num = [],
     fork_head = None, signalled = []\<rparr>"

definition fork_load :: "chain_crypto \<Rightarrow> block_state \<Rightarrow> fork_database \<Rightarrow> fork_database result" where
  "fork_load cr s db = (case fork_set cr s db of (Inl e, _) \<Rightarrow> Inl e | (Inr _, db) \<Rightarrow> Inr db)"

definition fork_open :: "chain_crypto \<Rightarrow> (block_state list \<times> sha256) option \<Rightarrow> fork_database result" where
  "fork_open cr file =
     (case file of
        None \<Rightarrow> Inr empty_fork_database
      | Some (states, head_id) \<Rightarrow>
          bindR (foldR (fork_load cr) states empty_fork_database) (\<lambda>db.
          Inr (db\<lparr>fork_head := (if head_id \<in> set (by_block_id db) then Some head_id else None)\<rparr>)))"

definition fork_close :: "(sha256 list \<Rightarrow> sha256 list) \<Rightarrow> fork_database
    \<Rightarrow> ((block_state list \<times> sha256) option \<times> fork_database) result" where
  "fork_close hash_order db =
     (if by_block_id db = [] then Inr (None, db)
      else
        let file = (map (objects db) (hash_order (by_block_id db)), case fork_head db of None \<Rightarrow> default_digest | Some h \<Rightarrow> h) in
        case fork_head db of
          None \<Rightarrow> Inl undefined_behaviour
        | Some h \<Rightarrow>
            bindR (first_of (by_block_num db)) (\<lambda>oldest.
            bindR (if bs_num (objects db oldest) \<le> bs_lib (objects db h) then prune (objects db oldest) db else Inr db) (\<lambda>db.
            Inr (Some file, db\<lparr>by_block_id := [], by_block_num := [], by_lib_block_num := []\<rparr>))))"

declare prune_older.simps [simp del] bft_loop.simps [simp del] walk_back.simps [simp del] walk_both.simps [simp del]

section \<open>Ordered indices\<close>

text \<open>
  What the container requires of the comparison of an ordered index, a strict weak order, and what it then keeps: an index stays
  sorted when an element is inserted, or moved after a change of its key.
\<close>

definition in_order :: "('a \<Rightarrow> 'a \<Rightarrow> bool) \<Rightarrow> 'a list \<Rightarrow> bool" where
  "in_order lt = sorted_wrt (\<lambda>x y. \<not> lt y x)"

lemma in_order_filter: "in_order lt xs \<Longrightarrow> in_order lt (filter P xs)"
  by (simp add: in_order_def sorted_wrt_filter)

lemma in_order_remove1: "in_order lt xs \<Longrightarrow> distinct xs \<Longrightarrow> in_order lt (remove1 x xs)"
  by (simp add: distinct_remove1_removeAll removeAll_filter_not_eq in_order_filter)

lemma in_order_hd: "in_order lt (x # xs) \<Longrightarrow> y \<in> set xs \<Longrightarrow> \<not> lt y x"
  by (simp add: in_order_def)

lemma in_order_cong: "(\<And>x y. x \<in> set xs \<Longrightarrow> y \<in> set xs \<Longrightarrow> lt x y = lt' x y) \<Longrightarrow> in_order lt xs = in_order lt' xs"
  by (induction xs) (auto simp: in_order_def)

locale compare =
  fixes lt :: "'a \<Rightarrow> 'a \<Rightarrow> bool"
  assumes lt_asym: "lt x y \<Longrightarrow> \<not> lt y x"
    and not_lt_trans: "\<not> lt y x \<Longrightarrow> \<not> lt z y \<Longrightarrow> \<not> lt z x"
begin

lemma in_order_successively: "in_order lt xs \<longleftrightarrow> successively (\<lambda>x y. \<not> lt y x) xs"
  unfolding in_order_def by (rule successively_conv_sorted_wrt [symmetric]) (auto simp: transp_def dest: not_lt_trans)

lemma ordered_insert_order: "in_order lt xs \<Longrightarrow> in_order lt (ordered_insert lt x xs)"
proof (induction xs)
  case (Cons y ys)
  have set: "set (ordered_insert lt x zs) = insert x (set zs)" for zs by (induction zs) auto
  show ?case
  proof (cases "lt x y")
    case True
    have "\<not> lt z x" if "z \<in> set ys" for z
      using Cons.prems that True lt_asym [OF True] not_lt_trans [of y x z] by (auto simp: in_order_def)
    with Cons.prems True lt_asym [OF True] show ?thesis by (auto simp: in_order_def)
  next
    case False
    with Cons show ?thesis by (auto simp: in_order_def set)
  qed
qed (simp add: in_order_def)

lemma in_place_split:
  "x \<notin> set ys \<Longrightarrow> x \<notin> set zs \<Longrightarrow> in_place lt x (ys @ x # zs)
     \<longleftrightarrow> (ys \<noteq> [] \<longrightarrow> \<not> lt x (last ys)) \<and> (zs \<noteq> [] \<longrightarrow> \<not> lt (hd zs) x)"
proof (induction ys)
  case Nil
  then show ?case by (cases zs) auto
next
  case (Cons y ys)
  then show ?case by (cases ys; cases zs) auto
qed

lemma ordered_modify_order:
  assumes "in_order lt (remove1 x xs)" "x \<in> set xs" "distinct xs"
  shows "in_order lt (ordered_modify lt x xs)"
proof (cases "in_place lt x xs")
  case True
  obtain ys zs where xs: "xs = ys @ x # zs" "x \<notin> set ys" "x \<notin> set zs"
    using split_list [OF assms(2)] assms(3) by auto
  have r: "in_order lt (ys @ zs)" using assms(1) xs by (simp add: remove1_append)
  have "in_place lt x (ys @ x # zs)" using True xs(1) by simp
  then have "ys \<noteq> [] \<longrightarrow> \<not> lt x (last ys)" "zs \<noteq> [] \<longrightarrow> \<not> lt (hd zs) x" using in_place_split [OF xs(2,3)] by simp_all
  then have "in_order lt (ys @ x # zs)"
    using r unfolding in_order_successively by (auto simp: successively_append_iff successively_Cons)
  with True xs(1) show ?thesis by (simp add: ordered_modify_def)
qed (simp add: ordered_modify_def ordered_insert_order assms(1))

end

lemma set_ordered_insert [simp]: "set (ordered_insert lt x xs) = insert x (set xs)"
  by (induction xs) auto

lemma distinct_ordered_insert: "distinct (ordered_insert lt x xs) \<longleftrightarrow> x \<notin> set xs \<and> distinct xs"
  by (induction xs) auto

lemma ordered_modify_elems:
  assumes "distinct xs" "x \<in> set xs"
  shows "set (ordered_modify lt x xs) = set xs" "distinct (ordered_modify lt x xs)"
  using assms by (auto simp: ordered_modify_def distinct_ordered_insert)

interpretation num_order: compare "on_objects num_less objs" for objs
  by unfold_locales (auto simp: num_less_def on_objects_def)

interpretation lib_order: compare "on_objects lib_less objs" for objs
  by unfold_locales (auto simp: lib_less_def on_objects_def)

text \<open>The indices have the same blocks, each is in its order, and an object is stored under its id.\<close>

definition index_wf :: "fork_database \<Rightarrow> bool" where
  "index_wf db \<longleftrightarrow> distinct (by_block_id db) \<and> distinct (by_block_num db) \<and> distinct (by_lib_block_num db)
     \<and> set (by_block_num db) = set (by_block_id db) \<and> set (by_lib_block_num db) = set (by_block_id db)
     \<and> in_order (on_objects num_less (objects db)) (by_block_num db)
     \<and> in_order (on_objects lib_less (objects db)) (by_lib_block_num db)
     \<and> (\<forall>i \<in> set (by_block_id db). bs_id (objects db i) = i)"

lemma in_order_update:
  assumes "in_order (on_objects lt o') xs" "i \<notin> set xs"
  shows "in_order (on_objects lt (o'(i := s))) xs"
proof -
  have "in_order (on_objects lt (o'(i := s))) xs = in_order (on_objects lt o') xs"
    using assms(2) by (intro in_order_cong) (auto simp: on_objects_def)
  with assms(1) show ?thesis by simp
qed

lemma index_wf_insert:
  assumes "index_wf db" "bs_id s \<notin> set (by_block_id db)"
  shows "index_wf (snd (index_insert s db))"
  using assms unfolding index_wf_def index_insert_def Let_def
  by (auto simp: distinct_ordered_insert intro!: num_order.ordered_insert_order lib_order.ordered_insert_order in_order_update)

lemma index_wf_modify:
  assumes "index_wf db" "i \<in> set (by_block_id db)" "bs_id (f (objects db i)) = i"
  shows "index_wf (index_modify i f db)"
proof -
  let ?o = "(objects db)(i := f (objects db i))"
  have d: "distinct (by_block_num db)" "i \<in> set (by_block_num db)" "distinct (by_lib_block_num db)" "i \<in> set (by_lib_block_num db)"
    using assms(1,2) by (auto simp: index_wf_def)
  have "in_order (on_objects num_less ?o) (remove1 i (by_block_num db))" "in_order (on_objects lib_less ?o) (remove1 i (by_lib_block_num db))"
    using assms(1) d by (simp_all add: index_wf_def in_order_update [OF in_order_remove1])
  then have "in_order (on_objects num_less ?o) (ordered_modify (on_objects num_less ?o) i (by_block_num db))"
    "in_order (on_objects lib_less ?o) (ordered_modify (on_objects lib_less ?o) i (by_lib_block_num db))"
    using d num_order.ordered_modify_order lib_order.ordered_modify_order by blast+
  with assms d show ?thesis by (simp add: index_wf_def index_modify_def Let_def ordered_modify_elems)
qed

lemma index_wf_filter:
  assumes "index_wf db" "by_block_id db' = filter P (by_block_id db)" "by_block_num db' = filter P (by_block_num db)"
    "by_lib_block_num db' = filter P (by_lib_block_num db)" "objects db' = objects db"
  shows "index_wf db'"
  using assms by (auto simp: index_wf_def in_order_filter)

lemma erase_filter:
  assumes "index_wf db"
  shows "by_block_id (index_erase i db) = filter (\<lambda>j. j \<noteq> i) (by_block_id db)"
    "by_block_num (index_erase i db) = filter (\<lambda>j. j \<noteq> i) (by_block_num db)"
    "by_lib_block_num (index_erase i db) = filter (\<lambda>j. j \<noteq> i) (by_lib_block_num db)"
    "objects (index_erase i db) = objects db" "fork_head (index_erase i db) = fork_head db" "signalled (index_erase i db) = signalled db"
  using assms by (auto simp: index_wf_def index_erase_def distinct_remove1_removeAll removeAll_filter_not_eq eq_commute)

lemma index_wf_erase: "index_wf db \<Longrightarrow> index_wf (index_erase i db)"
  by (rule index_wf_filter [of db _ "\<lambda>j. j \<noteq> i"]) (simp_all add: erase_filter)

lemma index_insert_simps:
  assumes "bs_id s \<notin> set (by_block_id db)"
  shows "fst (index_insert s db)" "by_block_id (snd (index_insert s db)) = by_block_id db @ [bs_id s]"
    "objects (snd (index_insert s db)) = (objects db)(bs_id s := s)"
    "fork_head (snd (index_insert s db)) = fork_head db" "signalled (snd (index_insert s db)) = signalled db"
  using assms by (simp_all add: index_insert_def Let_def)

lemma index_modify_simps [simp]:
  "by_block_id (index_modify i f db) = by_block_id db" "objects (index_modify i f db) = (objects db)(i := f (objects db i))"
  "fork_head (index_modify i f db) = fork_head db" "signalled (index_modify i f db) = signalled db"
  by (simp_all add: index_modify_def Let_def)

text \<open>The first blocks of the two indices: no block is older, and no block is better.\<close>

lemma first_of_Inr [result_simps]: "first_of xs = Inr i \<longleftrightarrow> (\<exists>ys. xs = i # ys)"
  by (auto simp: first_of_def split: list.splits)

lemma first_by_num:
  assumes "index_wf db" "by_block_num db = i # rest" "j \<in> set (by_block_id db)"
  shows "i \<in> set (by_block_id db)" "bs_num (objects db i) \<le> bs_num (objects db j)"
proof -
  have "j = i \<or> j \<in> set rest" using assms by (metis index_wf_def set_ConsD)
  then show "bs_num (objects db i) \<le> bs_num (objects db j)"
    using assms(1) in_order_hd [of "on_objects num_less (objects db)" i rest j]
    by (auto simp: index_wf_def assms(2) on_objects_def num_less_def)
  show "i \<in> set (by_block_id db)" using assms(1,2) by (metis index_wf_def list.set_intros(1))
qed

lemma first_by_lib:
  assumes "index_wf db" "by_lib_block_num db = i # rest" "j \<in> set (by_block_id db)"
  shows "i \<in> set (by_block_id db)" "\<not> lib_less (objects db j) (objects db i)"
proof -
  have "j = i \<or> j \<in> set rest" using assms by (metis index_wf_def set_ConsD)
  then show "\<not> lib_less (objects db j) (objects db i)"
    using assms(1) in_order_hd [of "on_objects lib_less (objects db)" i rest j]
    by (auto simp: index_wf_def assms(2) on_objects_def lib_less_def)
  show "i \<in> set (by_block_id db)" using assms(1,2) by (metis index_wf_def list.set_intros(1))
qed

section \<open>Removal removes what is built on a block\<close>

inductive built_on :: "fork_database \<Rightarrow> sha256 \<Rightarrow> sha256 \<Rightarrow> bool" for db i where
  built_on_refl: "built_on db i i"
| built_on_step: "built_on db i j \<Longrightarrow> k \<in> set (by_block_id db) \<Longrightarrow> bs_prev (objects db k) = j \<Longrightarrow> built_on db i k"

lemma built_on_mono:
  assumes "built_on db i j" "set (by_block_id db) \<subseteq> set (by_block_id db')"
    "\<And>k. k \<in> set (by_block_id db) \<Longrightarrow> bs_prev (objects db' k) = bs_prev (objects db k)"
  shows "built_on db' i j"
  using assms(1) by induction (use assms(2,3) in \<open>auto intro: built_on.intros\<close>)

lemma built_on_trans: "built_on db i j \<Longrightarrow> built_on db j k \<Longrightarrow> built_on db i k"
  by (rotate_tac, induction rule: built_on.induct) (auto intro: built_on_step)

text \<open>What is built on \<open>i\<close> is \<open>i\<close> itself or built, without \<open>i\<close>, on a child of it.\<close>

lemma built_on_split:
  assumes "built_on db a j" "a = i \<or> a \<in> A"
    and "set (by_block_id db') = set (by_block_id db) - {i}" "objects db' = objects db"
  shows "j = i \<or> (\<exists>b \<in> A \<union> set (children db' i). built_on db' b j)"
  using assms(1)
proof induction
  case built_on_refl
  then show ?case using assms(2) built_on.built_on_refl by blast
next
  case (built_on_step j k)
  show ?case
  proof (cases "k = i")
    case False
    then have k: "k \<in> set (by_block_id db')" using built_on_step assms(3) by simp
    from built_on_step.IH show ?thesis
    proof
      assume "j = i"
      then have "k \<in> set (children db' i)" using k built_on_step(3) assms(4) by (simp add: children_def)
      then show ?thesis using built_on.built_on_refl by blast
    next
      assume "\<exists>b \<in> A \<union> set (children db' i). built_on db' b j"
      then show ?thesis using k built_on_step(3) assms(4) built_on.built_on_step [of db' _ j k] by auto
    qed
  qed simp
qed

text \<open>A database with only those blocks that have a property.\<close>

definition restricted :: "(sha256 \<Rightarrow> bool) \<Rightarrow> fork_database \<Rightarrow> fork_database \<Rightarrow> bool" where
  "restricted keep db db' \<longleftrightarrow> by_block_id db' = filter keep (by_block_id db) \<and> by_block_num db' = filter keep (by_block_num db)
     \<and> by_lib_block_num db' = filter keep (by_lib_block_num db) \<and> objects db' = objects db"

lemma remove_loop_filter:
  assumes "index_wf db"
  shows "restricted (\<lambda>j. \<not> (\<exists>i \<in> set q. built_on db i j)) db (remove_loop q db)
    \<and> fork_head (remove_loop q db) = fork_head db \<and> signalled (remove_loop q db) = signalled db"
  using assms
proof (induction q db rule: remove_loop.induct)
  case (2 i q db)
  define db1 where "db1 = (if i \<in> set (by_block_id db) then index_erase i db else db)"
  have wf: "index_wf db1" using 2(2) by (simp add: db1_def index_wf_erase)
  have f: "by_block_id db1 = filter (\<lambda>j. j \<noteq> i) (by_block_id db)" "by_block_num db1 = filter (\<lambda>j. j \<noteq> i) (by_block_num db)"
    "by_lib_block_num db1 = filter (\<lambda>j. j \<noteq> i) (by_lib_block_num db)" "objects db1 = objects db" "fork_head db1 = fork_head db"
    "signalled db1 = signalled db"
    using 2(2) erase_filter [OF 2(2), of i]
    by (auto simp: db1_def index_wf_def intro!: filter_True [symmetric])
  have id: "set (by_block_id db1) = set (by_block_id db) - {i}" using f(1) by auto
  have up: "built_on db b j" if "built_on db1 b j" for b j using that by (rule built_on_mono) (simp_all add: id f(4))
  have child: "built_on db i b" if "b \<in> set (children db1 i)" for b
    using that id f(4) by (auto simp: children_def intro: built_on.intros)
  have key: "(\<exists>a \<in> set (i # q). built_on db a j) \<longleftrightarrow> j = i \<or> (\<exists>b \<in> set (q @ children db1 i). built_on db1 b j)" for j
  proof
    assume "\<exists>a \<in> set (i # q). built_on db a j"
    then obtain a where a: "built_on db a j" "a = i \<or> a \<in> set q" by auto
    from built_on_split [OF a id f(4)] show "j = i \<or> (\<exists>b \<in> set (q @ children db1 i). built_on db1 b j)" by auto
  next
    assume "j = i \<or> (\<exists>b \<in> set (q @ children db1 i). built_on db1 b j)"
    then consider "j = i" | b where "b \<in> set q" "built_on db1 b j" | b where "b \<in> set (children db1 i)" "built_on db1 b j" by auto
    then show "\<exists>a \<in> set (i # q). built_on db a j"
    proof cases
      case 1
      then show ?thesis using built_on_refl by (intro bexI [of _ i]) simp_all
    next
      case (2 b)
      then show ?thesis using up by (intro bexI [of _ b]) simp_all
    next
      case (3 b)
      then have "built_on db i j" using up child built_on_trans by blast
      then show ?thesis by (intro bexI [of _ i]) simp_all
    qed
  qed
  have "remove_loop (i # q) db = remove_loop (q @ children db1 i) db1" by (simp add: db1_def Let_def)
  moreover note 2(1) [OF db1_def wf]
  ultimately show ?case
    using f unfolding restricted_def key by (simp add: conj_commute)
qed (simp add: restricted_def)

section \<open>The invariant\<close>

text \<open>
  The blocks form a tree: every block is one above its previous block, which is in the index or is the block below all others,
  whose id and number are \<open>r\<close> and \<open>rn\<close>; that is the block that became irreversible last.
\<close>

definition attached :: "sha256 \<Rightarrow> nat \<Rightarrow> fork_database \<Rightarrow> sha256 \<Rightarrow> bool" where
  "attached r rn db j \<longleftrightarrow> bs_prev (objects db j) = r \<and> bs_num (objects db j) = Suc rn
     \<or> bs_prev (objects db j) \<in> set (by_block_id db) \<and> bs_num (objects db j) = Suc (bs_num (objects db (bs_prev (objects db j))))"

definition fork_tree :: "sha256 \<Rightarrow> nat \<Rightarrow> fork_database \<Rightarrow> bool" where
  "fork_tree r rn db \<longleftrightarrow> (\<forall>j \<in> set (by_block_id db). header_state_ok (bhs (objects db j)) \<and> attached r rn db j)"

definition bft_monotone :: "fork_database \<Rightarrow> bool" where
  "bft_monotone db \<longleftrightarrow> (\<forall>j \<in> set (by_block_id db). bs_prev (objects db j) \<in> set (by_block_id db)
     \<longrightarrow> bs_bft (objects db (bs_prev (objects db j))) \<le> bs_bft (objects db j))"

text \<open>The blocks that became irreversible are a chain.\<close>

definition follows :: "(sha256 \<Rightarrow> block_state) \<Rightarrow> sha256 \<Rightarrow> sha256 \<Rightarrow> bool" where
  "follows objs i j \<longleftrightarrow> bs_prev (objs j) = i \<and> bs_num (objs j) = Suc (bs_num (objs i))"

definition signals_ok :: "sha256 \<Rightarrow> nat \<Rightarrow> fork_database \<Rightarrow> bool" where
  "signals_ok r rn db \<longleftrightarrow> successively (follows (objects db)) (signalled db)
     \<and> (\<forall>i \<in> set (signalled db). num_from_id i = bs_num (objects db i) \<and> bs_num (objects db i) \<le> rn)
     \<and> num_from_id r = rn \<and> (signalled db \<noteq> [] \<longrightarrow> r = last (signalled db))"

lemma signals_ok_cong:
  assumes "signals_ok r rn db" "signalled db' = signalled db"
    and same: "\<And>i. i \<in> set (signalled db) \<Longrightarrow> bs_prev (objects db' i) = bs_prev (objects db i) \<and> bs_num (objects db' i) = bs_num (objects db i)"
  shows "signals_ok r rn db'"
proof -
  have "successively (follows (objects db')) (signalled db)"
    by (rule successively_mono [where P = "follows (objects db)"]) (use assms(1) same in \<open>auto simp: signals_ok_def follows_def\<close>)
  with assms show ?thesis by (auto simp: signals_ok_def)
qed

definition head_ok :: "fork_database \<Rightarrow> bool" where
  "head_ok db \<longleftrightarrow> (\<exists>h \<in> set (by_block_id db). fork_head db = Some h)"

text \<open>No block is better than the head.\<close>

definition head_best :: "fork_database \<Rightarrow> bool" where
  "head_best db \<longleftrightarrow> (\<exists>h \<in> set (by_block_id db). fork_head db = Some h
     \<and> (\<forall>j \<in> set (by_block_id db). \<not> lib_less (objects db j) (objects db h)))"

lemma head_best_ok: "head_best db \<Longrightarrow> head_ok db"
  by (auto simp: head_best_def head_ok_def)

lemma head_best_first:
  assumes "index_wf db" "by_lib_block_num db = h # rest" "fork_head db = Some h"
  shows "head_best db"
proof -
  have "h \<in> set (by_block_id db)" using assms(1,2) by (auto simp: index_wf_def)
  with first_by_lib(2) [OF assms(1,2)] assms(3) show ?thesis by (auto simp: head_best_def)
qed

definition fork_ok :: "fork_database \<Rightarrow> bool" where
  "fork_ok db \<longleftrightarrow> index_wf db \<and> head_ok db \<and> bft_monotone db \<and> (\<exists>r rn. fork_tree r rn db \<and> signals_ok r rn db)"

lemma tree_num: "fork_tree r rn db \<Longrightarrow> j \<in> set (by_block_id db) \<Longrightarrow> rn < bs_num (objects db j)"
proof (induction "bs_num (objects db j)" arbitrary: j rule: less_induct)
  case less
  then have "attached r rn db j" by (simp add: fork_tree_def)
  then show ?case
  proof (unfold attached_def, elim disjE conjE)
    assume p: "bs_prev (objects db j) \<in> set (by_block_id db)"
      "bs_num (objects db j) = Suc (bs_num (objects db (bs_prev (objects db j))))"
    with less.hyps [OF _ less.prems(1) p(1)] show ?thesis by simp
  qed simp
qed

lemma tree_bottom:
  assumes "fork_tree r rn db" "i \<in> set (by_block_id db)" "\<And>j. j \<in> set (by_block_id db) \<Longrightarrow> bs_num (objects db i) \<le> bs_num (objects db j)"
  shows "bs_prev (objects db i) = r" "bs_num (objects db i) = Suc rn"
  using assms(1,2) assms(3) [of "bs_prev (objects db i)"] by (auto simp: fork_tree_def attached_def)

lemma tree_num_id: "fork_tree r rn db \<Longrightarrow> index_wf db \<Longrightarrow> j \<in> set (by_block_id db) \<Longrightarrow> num_from_id j = bs_num (objects db j)"
  unfolding fork_tree_def index_wf_def header_state_ok_def by metis

section \<open>Removal and pruning\<close>

lemma restricted_simps:
  assumes "restricted keep db db'"
  shows "set (by_block_id db') = {j \<in> set (by_block_id db). keep j}" "objects db' = objects db"
    "by_block_num db' = filter keep (by_block_num db)" "by_lib_block_num db' = filter keep (by_lib_block_num db)"
  using assms by (auto simp: restricted_def)

lemma restricted_wf: "restricted keep db db' \<Longrightarrow> index_wf db \<Longrightarrow> index_wf db'"
  by (rule index_wf_filter [of db _ keep]) (simp_all add: restricted_def)

lemma restricted_bft: "restricted keep db db' \<Longrightarrow> bft_monotone db \<Longrightarrow> bft_monotone db'"
  by (simp add: bft_monotone_def restricted_simps)

lemma fork_removeE:
  assumes "fork_remove i db = Inr db'" "index_wf db"
  obtains h rest where "restricted (\<lambda>j. \<not> built_on db i j) db db'" "signalled db' = signalled db"
    "fork_head db' = Some h" "by_lib_block_num db' = h # rest" "head_best db'" "index_wf db'"
proof -
  obtain h rest where h: "by_lib_block_num (remove_loop [i] db) = h # rest" "db' = (remove_loop [i] db)\<lparr>fork_head := Some h\<rparr>"
    using assms(1) by (auto simp: fork_remove_def result_simps Let_def)
  have r: "restricted (\<lambda>j. \<not> built_on db i j) db db'" "signalled db' = signalled db"
    using remove_loop_filter [OF assms(2), of "[i]"] h(2) by (simp_all add: restricted_def)
  then have w: "index_wf db'" using assms(2) by (rule_tac restricted_wf)
  moreover have "head_best db'" using head_best_first [OF w] h by simp
  ultimately show ?thesis using that r h by simp
qed

lemma restricted_tree:
  assumes "restricted (\<lambda>j. \<not> built_on db i j) db db'" "fork_tree r rn db"
  shows "fork_tree r rn db'"
  using assms(2) unfolding fork_tree_def attached_def restricted_simps [OF assms(1)]
  by (auto intro: built_on_step)

lemma fork_remove_ok:
  assumes "fork_ok db"
  shows "ensures fork_ok (fork_remove i db)"
  unfolding ensures_def
proof (intro allI impI)
  fix db' assume r: "fork_remove i db = Inr db'"
  obtain a b where t: "index_wf db" "bft_monotone db" "fork_tree a b db" "signals_ok a b db" using assms by (auto simp: fork_ok_def)
  from r t(1) show "fork_ok db'"
  proof (rule fork_removeE)
    fix h rest
    assume x: "restricted (\<lambda>j. \<not> built_on db i j) db db'" "signalled db' = signalled db" "head_best db'" "index_wf db'"
    then have "signals_ok a b db'" using t(4) by (simp add: signals_ok_def restricted_simps)
    with x t show "fork_ok db'" unfolding fork_ok_def using restricted_tree [OF x(1)] restricted_bft [OF x(1)] head_best_ok by blast
  qed
qed

text \<open>
  While the siblings of the pruned block \<open>h\<close> are removed, a block is attached to the bottom, to \<open>h\<close>, or to another block.
\<close>

definition pruning :: "sha256 \<Rightarrow> nat \<Rightarrow> sha256 \<Rightarrow> fork_database \<Rightarrow> bool" where
  "pruning r rn h db \<longleftrightarrow> index_wf db \<and> head_best db \<and> bft_monotone db \<and> (\<forall>j \<in> set (by_block_id db). header_state_ok (bhs (objects db j))
     \<and> rn < bs_num (objects db j) \<and> (attached r rn db j \<or> attached h (Suc rn) db j))"

lemma pruning_remove:
  assumes "pruning r rn h db" "fork_remove i db = Inr db'"
  shows "pruning r rn h db'" "restricted (\<lambda>j. \<not> built_on db i j) db db'" "signalled db' = signalled db"
proof -
  have w: "index_wf db" "bft_monotone db" using assms(1) by (simp_all add: pruning_def)
  from assms(2) w(1) have "pruning r rn h db' \<and> restricted (\<lambda>j. \<not> built_on db i j) db db' \<and> signalled db' = signalled db"
  proof (rule fork_removeE)
    fix h' rest
    assume x: "restricted (\<lambda>j. \<not> built_on db i j) db db'" "signalled db' = signalled db" "head_best db'" "index_wf db'"
    have "attached s sn db' j" if "attached s sn db j" "j \<in> set (by_block_id db')" for s sn j
      using that unfolding attached_def restricted_simps [OF x(1)] by (auto intro: built_on_step)
    with x assms(1) restricted_bft [OF x(1) w(2)] show ?thesis
      unfolding pruning_def by (auto simp: restricted_simps [OF x(1)])
  qed
  then show "pruning r rn h db'" "restricted (\<lambda>j. \<not> built_on db i j) db db'" "signalled db' = signalled db" by simp_all
qed

lemma remove_siblings_ok:
  assumes "pruning r rn h db" "rest = by_block_num db" "remove_siblings (Suc rn) rest db = Inr db'"
  shows "index_wf db' \<and> head_best db' \<and> bft_monotone db' \<and> fork_tree h (Suc rn) db'
    \<and> objects db' = objects db \<and> signalled db' = signalled db \<and> set (by_block_id db') \<subseteq> set (by_block_id db)"
  using assms
proof (induction "Suc rn" rest db rule: remove_siblings.induct)
  case (1 db)
  then have "by_block_id db = []" by (simp add: pruning_def index_wf_def)
  with 1 show ?case by (simp add: pruning_def fork_tree_def)
next
  case (2 i rest db)
  have w: "index_wf db" "by_block_num db = i # rest" using 2 by (simp_all add: pruning_def)
  show ?case
  proof (cases "bs_num (objects db i) = Suc rn")
    case True
    then obtain db1 where r: "fork_remove i db = Inr db1"
      and s: "\<not> (rest \<noteq> [] \<and> hd rest \<notin> set (by_block_id db1))"
      "remove_siblings (Suc rn) (filter (\<lambda>j. j \<in> set (by_block_id db1)) rest) db1 = Inr db'"
      using 2(4) by (auto simp: result_simps split: if_splits)
    note p = pruning_remove [OF 2(2) r]
    have "by_block_num db1 = filter (\<lambda>j. \<not> built_on db i j) (i # rest)"
      using restricted_simps(3) [OF p(2)] w(2) by simp
    also have "\<dots> = filter (\<lambda>j. j \<in> set (by_block_id db1)) rest"
      using w by (auto simp: restricted_simps(1) [OF p(2)] built_on_refl index_wf_def intro!: filter_cong)
    finally have "filter (\<lambda>j. j \<in> set (by_block_id db1)) rest = by_block_num db1" by simp
    from 2(1) [OF True s(1) p(1) this s(2)] p(3) restricted_simps(1,2) [OF p(2)] show ?thesis by auto
  next
    case False
    have "Suc rn < bs_num (objects db j)" if j: "j \<in> set (by_block_id db)" for j
    proof -
      have "rn < bs_num (objects db i)" using first_by_num(1) [OF w j] 2(2) by (simp add: pruning_def)
      with False first_by_num(2) [OF w j] show ?thesis by simp
    qed
    then have "fork_tree h (Suc rn) db"
      using 2(2) unfolding pruning_def fork_tree_def attached_def by fastforce
    with 2(2,4) False show ?thesis by (simp add: pruning_def)
  qed
qed

section \<open>Added blocks\<close>

text \<open>What a block state has from its header: the header itself, the id, and the inherited finality.\<close>

lemma next_state_header:
  assumes ok: "header_state_ok s" and n: "next_state cr s h trust = Inr r" and adm: "header_admissible (Next h trust)"
  shows "header r = h" "block_id r = header_id cr h" "bft_irreversible_blocknum r = bft_irreversible_blocknum s"
proof -
  obtain g t where g: "generate_next cr s (timestamp h) = Inr g" "timestamp h \<noteq> 0" "header_extensions h = []"
    "previous h = block_id s" "producer (header g) = producer h" "schedule_version (header g) = schedule_version h"
    and t: "apply_new_producers cr h (maybe_promote_pending (set_confirmed (confirmed h) g)) = Inr t"
    and r: "seal_header cr h trust t = Inr r"
    using next_stateE [OF n] by metis
  have gok: "dpos_ok g" using generate_next_ok(1) [OF ok g(1,2)] adm by simp
  have gs: "timestamp (header g) = timestamp h" "previous (header g) = block_id s" "new_producers (header g) = None"
    "header_extensions (header g) = []"
    using g(1,2) by (auto elim!: generate_nextE simp: default_signed_header_def)
  have gb: "bft_irreversible_blocknum g = bft_irreversible_blocknum s"
    using g(1) by (auto simp: generate_next_def result_simps Let_def)
  let ?g = "set_confirmed (confirmed h) g"
  have c: "header ?g = (header g)\<lparr>confirmed := confirmed h\<rparr>" "bft_irreversible_blocknum ?g = bft_irreversible_blocknum g"
    using set_confirmed_ok(3) [OF gok, of "confirmed h"] by auto
  have th: "header t = (header g)\<lparr>confirmed := confirmed h, new_producers := new_producers h\<rparr>"
    using t c(1) gs(3)
    by (auto simp: apply_new_producers_def set_new_producers_def result_simps split: option.splits)
  have tb: "bft_irreversible_blocknum t = bft_irreversible_blocknum g"
    using t c(2) by (auto simp: apply_new_producers_def set_new_producers_def maybe_promote_pending_def result_simps Let_def
        split: option.splits if_splits)
  have "header r = (header t)\<lparr>action_mroot := action_mroot h, transaction_mroot := transaction_mroot h,
      producer_signature := producer_signature h\<rparr>"
    by (subst seal_headerE(1) [OF r]) simp
  then show h: "header r = h" using th gs g(3-6) by (intro signed_block_header.equality) simp_all
  show "block_id r = header_id cr h" by (subst seal_headerE(1) [OF r]) (simp add: h)
  show "bft_irreversible_blocknum r = bft_irreversible_blocknum s"
    by (subst seal_headerE(1) [OF r]) (simp add: tb gb)
qed

text \<open>A block state that extends a block of the index.\<close>

definition extends :: "block_state \<Rightarrow> fork_database \<Rightarrow> bool" where
  "extends n db \<longleftrightarrow> header_state_ok (bhs n) \<and> bs_prev n \<in> set (by_block_id db)
     \<and> bs_num n = Suc (bs_num (objects db (bs_prev n))) \<and> bs_bft (objects db (bs_prev n)) \<le> bs_bft n"

lemma insert_ok:
  assumes ok: "fork_ok db" and e: "extends n db" and new: "bs_id n \<notin> set (by_block_id db)"
  shows "fork_ok (snd (index_insert n db))"
proof -
  let ?db = "snd (index_insert n db)" and ?i = "bs_id n"
  obtain r rn where t: "fork_tree r rn db" "signals_ok r rn db" "index_wf db" "head_ok db" "bft_monotone db"
    using ok by (auto simp: fork_ok_def)
  note s = index_insert_simps [OF new]
  have num: "rn < bs_num n" using e tree_num [OF t(1)] by (fastforce simp: extends_def)
  have "?i \<notin> set (signalled db)"
    using e num t(2) by (auto simp: extends_def header_state_ok_def signals_ok_def)
  then have sig: "signals_ok r rn ?db" by (intro signals_ok_cong [OF t(2)]) (auto simp: s)
  have "fork_tree r rn ?db"
    unfolding fork_tree_def
  proof
    fix j assume "j \<in> set (by_block_id ?db)"
    then consider "j = ?i" | "j \<noteq> ?i" "j \<in> set (by_block_id db)" by (auto simp: s)
    then show "header_state_ok (bhs (objects ?db j)) \<and> attached r rn ?db j"
    proof cases
      case 1
      then show ?thesis using e new by (auto simp: extends_def attached_def s)
    next
      case 2
      then have "header_state_ok (bhs (objects db j))" "attached r rn db j" using t(1) by (simp_all add: fork_tree_def)
      with 2 new show ?thesis by (auto simp: attached_def s)
    qed
  qed
  moreover have "bft_monotone ?db"
    unfolding bft_monotone_def
  proof (intro ballI impI)
    fix j assume j: "j \<in> set (by_block_id ?db)" "bs_prev (objects ?db j) \<in> set (by_block_id ?db)"
    have "bs_prev (objects db j) \<noteq> ?i" if "j \<in> set (by_block_id db)"
      using that t(1,2) e num new by (auto simp: fork_tree_def attached_def signals_ok_def extends_def header_state_ok_def)
    with j t(5) e new show "bs_bft (objects ?db (bs_prev (objects ?db j))) \<le> bs_bft (objects ?db j)"
      by (auto simp: bft_monotone_def extends_def s)
  qed
  moreover have "head_ok ?db" using t(4) by (auto simp: head_ok_def s)
  ultimately show ?thesis using index_wf_insert [OF t(3) new] sig by (auto simp: fork_ok_def)
qed

text \<open>Pruning the oldest block, as it happens when a block is added.\<close>

lemma prune_oldest_ok:
  assumes ok: "fork_ok db" and best: "head_best db" and o1: "by_block_num db = i # rest"
    and lib: "\<And>h. fork_head db = Some h \<Longrightarrow> bs_num (objects db i) < bs_lib (objects db h)"
    and p: "prune (objects db i) db = Inr db'"
  shows "fork_ok db'" "head_best db'" "signalled db' = signalled db @ [i]"
    and "objects db' = objects db" "set (by_block_id db') \<subseteq> set (by_block_id db) - {i}"
proof -
  obtain r rn where t: "fork_tree r rn db" "signals_ok r rn db" "index_wf db" "bft_monotone db"
    using ok by (auto simp: fork_ok_def)
  have i: "i \<in> set (by_block_id db)" using t(3) o1 by (auto simp: index_wf_def)
  have id: "bs_id (objects db i) = i" using t(3) i by (simp add: index_wf_def)
  note bottom = tree_bottom [OF t(1) i first_by_num(2) [OF t(3) o1]]
  let ?db1 = "index_erase i (db\<lparr>signalled := signalled db @ [i]\<rparr>)"
  have w1: "index_wf (db\<lparr>signalled := signalled db @ [i]\<rparr>)" using t(3) by (simp add: index_wf_def)
  note f = erase_filter [OF w1, of i, simplified]
  have keep: "dropWhile (\<lambda>j. bs_num (objects db j) < Suc rn) (by_block_num ?db1) = by_block_num ?db1"
  proof -
    have "\<not> bs_num (objects db j) < Suc rn" if "j \<in> set (by_block_num ?db1)" for j
      using that tree_num [OF t(1), of j] t(3) by (auto simp: f index_wf_def)
    then show ?thesis by (cases "by_block_num ?db1") auto
  qed
  have "prune_older (length (by_block_num db)) (Suc rn) db = Inr db" using o1 bottom(2) by (simp add: prune_older.simps)
  then have rs: "remove_siblings (Suc rn) (by_block_num ?db1) ?db1 = Inr db'"
    using p i id bottom(2) keep by (simp add: prune_def prune_level_def Let_def f)
  have hb: "head_best ?db1"
  proof -
    obtain h where h: "h \<in> set (by_block_id db)" "fork_head db = Some h"
      "\<forall>j \<in> set (by_block_id db). \<not> lib_less (objects db j) (objects db h)" using best by (auto simp: head_best_def)
    have "header_state_ok (bhs (objects db h))" using t(1) h(1) by (simp add: fork_tree_def)
    then have "bs_lib (objects db h) \<le> bs_num (objects db h)" by (simp add: header_state_ok_def dpos_ok_defs)
    then have "h \<noteq> i" using lib [OF h(2)] by auto
    with h show ?thesis by (auto simp: head_best_def f)
  qed
  have pr: "pruning r rn i ?db1"
    unfolding pruning_def
  proof (intro conjI ballI)
    show "index_wf ?db1" by (rule index_wf_erase [OF w1])
    show "head_best ?db1" by (fact hb)
    show "bft_monotone ?db1" using t(4) by (auto simp: bft_monotone_def f)
    fix j assume j: "j \<in> set (by_block_id ?db1)"
    then have a: "attached r rn db j" "header_state_ok (bhs (objects db j))" "rn < bs_num (objects db j)"
      using t(1) tree_num [OF t(1)] by (auto simp: fork_tree_def f)
    then show "header_state_ok (bhs (objects ?db1 j))" "rn < bs_num (objects ?db1 j)" by (simp_all add: f)
    from a(1) bottom(2) show "attached r rn ?db1 j \<or> attached i (Suc rn) ?db1 j"
      by (cases "bs_prev (objects db j) = i") (auto simp: attached_def f)
  qed
  note res = remove_siblings_ok [OF pr refl rs]
  then show sg: "signalled db' = signalled db @ [i]" by (simp add: f)
  show "objects db' = objects db" "set (by_block_id db') \<subseteq> set (by_block_id db) - {i}" using res by (auto simp: f)
  have "signals_ok i (Suc rn) db'"
    using t(2) bottom res tree_num_id [OF t(1,3) i] unfolding signals_ok_def sg
    by (auto simp: successively_append_iff follows_def f)
  with res show "fork_ok db'" "head_best db'" unfolding fork_ok_def using head_best_ok by blast+
qed

lemma fork_add_stateE:
  assumes ok: "fork_ok db" and e: "extends n db" and new: "bs_id n \<notin> set (by_block_id db)" and a: "fork_add_state n db = Inr db'"
  obtains h i rest db2 where "db2 = snd (index_insert n db)\<lparr>fork_head := Some h\<rparr>" "fork_ok db2" "head_best db2" "by_block_num db2 = i # rest"
    "(if bs_num (objects db2 i) < bs_lib (objects db2 h) then prune (objects db2 i) db2 else Inr db2) = Inr db'"
proof -
  let ?db = "snd (index_insert n db)"
  note s = index_insert_simps [OF new]
  have ok1: "fork_ok ?db" by (rule insert_ok [OF ok e new])
  obtain h hs i js where h: "by_lib_block_num ?db = h # hs" "by_block_num ?db = i # js"
    and p: "(if bs_num (objects ?db i) < bs_lib (objects ?db h) then prune (objects ?db i) (?db\<lparr>fork_head := Some h\<rparr>)
      else Inr (?db\<lparr>fork_head := Some h\<rparr>)) = Inr db'"
    using a s(1) by (auto simp: fork_add_state_def result_simps Let_def case_prod_unfold cong: if_cong)
  let ?db2 = "?db\<lparr>fork_head := Some h\<rparr>"
  have w: "index_wf ?db2" using ok1 by (simp add: fork_ok_def index_wf_def)
  have hb: "head_best ?db2" using head_best_first [OF w] h(1) by simp
  have "fork_ok ?db2"
    using ok1 w head_best_ok [OF hb] unfolding fork_ok_def fork_tree_def attached_def bft_monotone_def signals_ok_def by simp
  then show thesis using that [of ?db2 h i js] hb h(2) p by (simp cong: if_cong)
qed

lemma fork_add_state_ok:
  assumes ok: "fork_ok db" and e: "extends n db" and a: "fork_add_state n db = Inr db'"
  shows "fork_ok db'" "head_best db'"
proof -
  have new: "bs_id n \<notin> set (by_block_id db)" using a by (auto simp: fork_add_state_def index_insert_def result_simps Let_def)
  obtain h i rest db2 where d: "db2 = snd (index_insert n db)\<lparr>fork_head := Some h\<rparr>" "fork_ok db2" "head_best db2" "by_block_num db2 = i # rest"
    "(if bs_num (objects db2 i) < bs_lib (objects db2 h) then prune (objects db2 i) db2 else Inr db2) = Inr db'"
    by (rule fork_add_stateE [OF ok e new a])
  have "fork_ok db' \<and> head_best db'"
  proof (cases "bs_num (objects db2 i) < bs_lib (objects db2 h)")
    case True
    then show ?thesis using prune_oldest_ok(1,2) [OF d(2-4), of db'] d(1,5) by simp
  qed (use d in simp)
  then show "fork_ok db'" "head_best db'" by simp_all
qed

lemma get_block_Some [simp]: "get_block i db = Some b \<longleftrightarrow> i \<in> set (by_block_id db) \<and> b = objects db i"
  by (auto simp: get_block_def)

lemma header_id_truncate [simp]: "header_id cr (signed_block_header.truncate b) = header_id cr b"
proof -
  have "header_block_num (signed_block_header.truncate b) = header_block_num b"
    "header_digest cr (signed_block_header.truncate b) = header_digest cr b"
    by (cases b; simp add: header_digest_def header_block_num_def block_header.defs signed_block_header.defs)+
  then show ?thesis by (simp only: header_id_def)
qed

lemma fork_add_new:
  assumes ok: "fork_ok db" and a: "fork_add cr b trust db = Inr (n, db')" and adm: "header_admissible (Next (signed_block_header.truncate b) trust)"
  shows "extends n db" "bs_id n \<notin> set (by_block_id db)" "fork_add_state n db = Inr db'" "\<not> validated n" "\<not> in_current_chain n"
    "bs_block n = Some b" "header_id cr b = bs_id n" "previous b = bs_prev n"
proof -
  obtain r where p: "previous b \<in> set (by_block_id db)"
    and n: "next_state cr (bhs (objects db (previous b))) (signed_block_header.truncate b) trust = Inr r"
    and nn: "n = \<lparr>bhs = r, bs_block = Some b, validated = False, in_current_chain = False\<rparr>"
    and s: "fork_add_state n db = Inr db'"
    using a by (auto simp: fork_add_def next_block_state_def result_simps split: option.splits)
  have hs: "header_state_ok (bhs (objects db (previous b)))" using ok p by (auto simp: fork_ok_def fork_tree_def)
  note ns = next_step_ok [OF hs n adm] and nh = next_state_header [OF hs n adm]
  have id: "block_id (bhs (objects db (previous b))) = previous b" using ok p by (auto simp: fork_ok_def index_wf_def)
  have "previous (signed_block_header.truncate b) = previous b" by (cases b) (simp add: signed_block_header.defs)
  then have pv: "previous b = bs_prev n" using nh(1) by (simp add: nn)
  show "extends n db" using ns nh p id by (simp add: extends_def nn)
  show "bs_id n \<notin> set (by_block_id db)" using s by (auto simp: fork_add_state_def index_insert_def result_simps Let_def)
  show "fork_add_state n db = Inr db'" "previous b = bs_prev n" by (fact s pv)+
  show "\<not> validated n" "\<not> in_current_chain n" "bs_block n = Some b" by (simp_all add: nn)
  show "header_id cr b = bs_id n" using nh(2) by (simp add: nn)
qed

lemma fork_add_ok:
  assumes ok: "fork_ok db" and a: "fork_add cr b trust db = Inr (n, db')"
    and adm: "header_admissible (Next (signed_block_header.truncate b) trust)"
  shows "fork_ok db'" "head_best db'" "bs_id n = header_id cr b" "bs_block n = Some b"
  using fork_add_new [OF assms] fork_add_state_ok [OF ok] by auto

section \<open>Finality by confirmations\<close>

definition raised :: "nat \<Rightarrow> block_state \<Rightarrow> block_state" where
  "raised num b = (if bs_bft b < num then b\<lparr>bhs := (bhs b)\<lparr>bft_irreversible_blocknum := num\<rparr>\<rparr> else b)"

lemma raised_simps [simp]:
  "bs_id (raised num b) = bs_id b" "bs_num (raised num b) = bs_num b" "bs_prev (raised num b) = bs_prev b"
  "bs_lib (raised num b) = bs_lib b" "bs_bft (raised num b) = max (bs_bft b) num" "raised num (raised num b) = raised num b"
  "header_state_ok (bhs (raised num b)) = header_state_ok (bhs b)"
  by (auto simp: raised_def header_state_ok_def dpos_ok_defs)

lemma raised_id: "num \<le> bs_bft b \<Longrightarrow> raised num b = b"
  by (simp add: raised_def)

text \<open>A database in which some blocks have been raised.\<close>

definition raised_in :: "nat \<Rightarrow> sha256 set \<Rightarrow> fork_database \<Rightarrow> fork_database \<Rightarrow> bool" where
  "raised_in num J db db' \<longleftrightarrow> index_wf db' \<and> by_block_id db' = by_block_id db \<and> fork_head db' = fork_head db
     \<and> signalled db' = signalled db \<and> objects db' = (\<lambda>j. if j \<in> J then raised num (objects db j) else objects db j)"

lemma raised_in_trans: "raised_in num J db db1 \<Longrightarrow> raised_in num K db1 db2 \<Longrightarrow> raised_in num (J \<union> K) db db2"
  by (auto simp: raised_in_def fun_eq_iff)

lemma raise_bft_step:
  assumes "index_wf db" "j \<in> set (by_block_id db)" "raise_bft num j (db, u) = (db', u')"
  shows "raised_in num {j} db db'" "set u' = set u \<union> {k \<in> {j}. bs_bft (objects db k) < num}"
proof -
  have f: "(\<lambda>b. if bs_bft b < num then b\<lparr>bhs := (bhs b)\<lparr>bft_irreversible_blocknum := num\<rparr>\<rparr> else b) = raised num"
    by (simp add: raised_def fun_eq_iff)
  have "bs_id (raised num (objects db j)) = j" using assms(1,2) by (simp add: index_wf_def)
  then show "raised_in num {j} db db'" "set u' = set u \<union> {k \<in> {j}. bs_bft (objects db k) < num}"
    using assms index_wf_modify [OF assms(1,2), of "raised num"] unfolding raise_bft_def f
    by (auto simp: raised_in_def fun_eq_iff split: if_splits)
qed

lemma fold_raise:
  assumes "index_wf db" "set js \<subseteq> set (by_block_id db)" "fold (raise_bft num) js (db, u) = (db', u')"
  shows "raised_in num (set js) db db' \<and> set u' = set u \<union> {j \<in> set js. bs_bft (objects db j) < num}"
  using assms
proof (induction js arbitrary: db u)
  case Nil
  then show ?case by (simp add: raised_in_def)
next
  case (Cons j js)
  obtain db1 u1 where s: "raise_bft num j (db, u) = (db1, u1)" by fastforce
  have "j \<in> set (by_block_id db)" using Cons.prems(2) by simp
  note r = raise_bft_step [OF Cons.prems(1) this s]
  then have w: "index_wf db1" "set js \<subseteq> set (by_block_id db1)" using Cons.prems(2) by (auto simp: raised_in_def)
  have i: "raised_in num (set js) db1 db'" "set u' = set u1 \<union> {k \<in> set js. bs_bft (objects db1 k) < num}"
    using Cons.IH [OF w] Cons.prems(3) s by simp_all
  have "raised_in num (set (j # js)) db db'" using raised_in_trans [OF r(1) i(1)] by simp
  moreover have "set u' = set u \<union> {k \<in> set (j # js). bs_bft (objects db k) < num}"
    using i(2) r by (auto simp: raised_in_def)
  ultimately show ?case ..
qed

lemma children_raised: "raised_in num J db db' \<Longrightarrow> children db' i = children db i"
  by (auto simp: raised_in_def children_def intro!: filter_cong)

lemma fold_layer:
  assumes "index_wf db" "fold (\<lambda>i st. fold (raise_bft num) (children (fst st) i) st) layer (db, u) = (db', u')"
  defines "J \<equiv> {j \<in> set (by_block_id db). bs_prev (objects db j) \<in> set layer}"
  shows "raised_in num J db db' \<and> set u' = set u \<union> {j \<in> J. bs_bft (objects db j) < num}"
  using assms(1,2) unfolding J_def
proof (induction layer arbitrary: db u)
  case Nil
  then show ?case by (simp add: raised_in_def)
next
  case (Cons i layer)
  obtain db1 u1 where s: "fold (raise_bft num) (children db i) (db, u) = (db1, u1)" by fastforce
  have c: "set (children db i) = {j \<in> set (by_block_id db). bs_prev (objects db j) = i}" by (auto simp: children_def)
  have r: "raised_in num (set (children db i)) db db1" "set u1 = set u \<union> {j \<in> set (children db i). bs_bft (objects db j) < num}"
    using fold_raise [OF Cons.prems(1) _ s] c by auto
  let ?K = "{j \<in> set (by_block_id db). bs_prev (objects db j) \<in> set layer}"
  have k: "{j \<in> set (by_block_id db1). bs_prev (objects db1 j) \<in> set layer} = ?K" using r(1) by (auto simp: raised_in_def)
  have "index_wf db1" using r(1) by (simp add: raised_in_def)
  from Cons.IH [OF this, of u1] Cons.prems(2) s
  have i: "raised_in num ?K db1 db'" "set u' = set u1 \<union> {j \<in> ?K. bs_bft (objects db1 j) < num}" by (simp_all add: k)
  have eq: "set (children db i) \<union> ?K = {j \<in> set (by_block_id db). bs_prev (objects db j) \<in> set (i # layer)}" using c by auto
  have "set u' = set u \<union> {j \<in> set (children db i) \<union> ?K. bs_bft (objects db j) < num}"
    using i(2) r by (auto simp: raised_in_def)
  with raised_in_trans [OF r(1) i(1)] show ?case by (simp only: eq)
qed

lemma update_layer_spec:
  assumes "index_wf db" "update_layer num layer db = (db', queue)"
  shows "raised_in num {j \<in> set (by_block_id db). bs_prev (objects db j) \<in> set layer} db db'"
    "set queue = {j \<in> set (by_block_id db). bs_prev (objects db j) \<in> set layer \<and> bs_bft (objects db j) < num}"
  using fold_layer [OF assms(1), of num layer "[]" db' queue] assms(2) by (auto simp: update_layer_def)

text \<open>
  The breadth-first loop.  A block that already has the number is either still in the queue, or its children have the number too.
\<close>

definition bft_closed :: "nat \<Rightarrow> sha256 list \<Rightarrow> fork_database \<Rightarrow> bool" where
  "bft_closed num queue db \<longleftrightarrow> (\<forall>j k. j \<in> set (by_block_id db) \<longrightarrow> num \<le> bs_bft (objects db j) \<longrightarrow> j \<notin> set queue
     \<longrightarrow> k \<in> set (by_block_id db) \<longrightarrow> bs_prev (objects db k) = j \<longrightarrow> num \<le> bs_bft (objects db k))"

definition bft_below :: "nat \<Rightarrow> fork_database \<Rightarrow> nat" where
  "bft_below num db = card {j \<in> set (by_block_id db). bs_bft (objects db j) < num}"

lemma bft_loop_spec:
  assumes "index_wf db" "bft_closed num queue db" "queue \<noteq> [] \<longrightarrow> bft_below num db < fuel"
    and "\<forall>j \<in> set queue. j \<in> set (by_block_id db) \<and> built_on db i j"
  shows "\<exists>J db'. bft_loop fuel num queue db = Inr db' \<and> raised_in num J db db' \<and> J \<subseteq> {j \<in> set (by_block_id db). built_on db i j}
    \<and> bft_closed num [] db'"
  using assms
proof (induction fuel num queue db rule: bft_loop.induct)
  case (1 fuel num queue db)
  show ?case
  proof (cases "queue = []")
    case True
    with 1 show ?thesis by (intro exI [of _ "{}"] exI [of _ db]) (simp add: raised_in_def bft_loop.simps)
  next
    case False
    then obtain n where fuel: "fuel = Suc n" using 1(4) by (cases fuel) auto
    obtain db1 q1 where l: "update_layer num queue db = (db1, q1)" by fastforce
    let ?J = "{j \<in> set (by_block_id db). bs_prev (objects db j) \<in> set queue}"
    have r: "raised_in num ?J db db1" and q1: "set q1 = {j \<in> ?J. bs_bft (objects db j) < num}"
      using update_layer_spec [OF 1(2) l] by auto
    have w: "index_wf db1" and ids: "by_block_id db1 = by_block_id db"
      and o1: "objects db1 = (\<lambda>j. if j \<in> ?J then raised num (objects db j) else objects db j)"
      using r by (auto simp: raised_in_def)
    have prev: "bs_prev (objects db1 j) = bs_prev (objects db j)" for j by (simp add: o1)
    have bo: "built_on db1 i j \<longleftrightarrow> built_on db i j" for j
      using built_on_mono [of db i j db1] built_on_mono [of db1 i j db] by (auto simp: ids prev)
    have J: "?J \<subseteq> {j \<in> set (by_block_id db). built_on db i j}" using 1(5) by (auto intro: built_on_step)
    have closed: "bft_closed num q1 db1"
      unfolding bft_closed_def
    proof (intro allI impI)
      fix j k
      assume j: "j \<in> set (by_block_id db1)" "num \<le> bs_bft (objects db1 j)" "j \<notin> set q1"
        and k: "k \<in> set (by_block_id db1)" "bs_prev (objects db1 k) = j"
      show "num \<le> bs_bft (objects db1 k)"
      proof (cases "k \<in> ?J")
        case False
        have jn: "num \<le> bs_bft (objects db j)" using j q1 by (auto simp: o1 ids split: if_splits)
        have "j \<notin> set queue" using False k by (auto simp: ids prev)
        then have "num \<le> bs_bft (objects db k)" 
          using 1(3) [unfolded bft_closed_def, rule_format, of j k] j(1) jn k unfolding ids prev by blast
        then show ?thesis by (simp add: o1)
      qed (simp add: o1)
    qed
    have fuel1: "q1 \<noteq> [] \<longrightarrow> bft_below num db1 < n"
    proof
      assume "q1 \<noteq> []"
      then obtain x where "x \<in> ?J" "bs_bft (objects db x) < num" using q1 by (cases q1) auto
      then have "{j \<in> set (by_block_id db1). bs_bft (objects db1 j) < num} \<subset> {j \<in> set (by_block_id db). bs_bft (objects db j) < num}"
        by (auto simp: o1 ids split: if_splits)
      then have "bft_below num db1 < bft_below num db" unfolding bft_below_def by (rule psubset_card_mono [rotated]) simp
      with 1(4) False fuel show "bft_below num db1 < n" by simp
    qed
    have "\<forall>j \<in> set q1. j \<in> set (by_block_id db1) \<and> built_on db1 i j" using q1 J by (auto simp: ids bo)
    from 1(1) [OF False fuel l [symmetric] w closed fuel1 this] obtain K db' where
      k: "bft_loop n num q1 db1 = Inr db'" "raised_in num K db1 db'" "K \<subseteq> {j \<in> set (by_block_id db1). built_on db1 i j}"
      "bft_closed num [] db'" by blast
    have "raised_in num (?J \<union> K) db db'" using r k(2) by (rule raised_in_trans)
    moreover have "bft_loop fuel num queue db = Inr db'" using False fuel l k(1) by (simp add: bft_loop.simps)
    moreover have "?J \<union> K \<subseteq> {j \<in> set (by_block_id db). built_on db i j}" using J k(3) by (auto simp: ids bo)
    ultimately show ?thesis using k(4) by blast
  qed
qed

text \<open>A change of the objects that keeps ids, numbers, previous blocks and consistency.\<close>

definition same_blocks :: "fork_database \<Rightarrow> fork_database \<Rightarrow> bool" where
  "same_blocks db db' \<longleftrightarrow> by_block_id db' = by_block_id db \<and> fork_head db' = fork_head db \<and> signalled db' = signalled db
     \<and> (\<forall>j. bs_prev (objects db' j) = bs_prev (objects db j) \<and> bs_num (objects db' j) = bs_num (objects db j)
          \<and> bs_id (objects db' j) = bs_id (objects db j)
          \<and> header_state_ok (bhs (objects db' j)) = header_state_ok (bhs (objects db j)))"

lemma same_blocks_ok:
  assumes "same_blocks db db'" "fork_ok db" "index_wf db'" "bft_monotone db'"
  shows "fork_ok db'"
proof -
  obtain r rn where t: "fork_tree r rn db" "signals_ok r rn db" "head_ok db" using assms(2) by (auto simp: fork_ok_def)
  have "fork_tree r rn db'" using t(1) assms(1) by (simp add: fork_tree_def attached_def same_blocks_def)
  moreover have "signals_ok r rn db'" by (rule signals_ok_cong [OF t(2)]) (use assms(1) in \<open>simp_all add: same_blocks_def\<close>)
  moreover have "head_ok db'" using t(3) assms(1) by (simp add: head_ok_def same_blocks_def)
  ultimately show ?thesis using assms(3,4) by (auto simp: fork_ok_def)
qed

lemma same_blocks_built_on: "same_blocks db db' \<Longrightarrow> built_on db' i j \<longleftrightarrow> built_on db i j"
  using built_on_mono [of db i j db'] built_on_mono [of db' i j db] by (auto simp: same_blocks_def)

lemma bft_closed_all:
  assumes "bft_closed num [] db" "built_on db i j" "i \<in> set (by_block_id db)" "num \<le> bs_bft (objects db i)"
  shows "j \<in> set (by_block_id db) \<and> num \<le> bs_bft (objects db j)"
  using assms(2)
proof induction
  case (built_on_step j k)
  then show ?case using assms(1) [unfolded bft_closed_def, rule_format, of j k] by simp
qed (use assms(3,4) in simp)

lemma set_bft_irreversible_raises:
  assumes ok: "fork_ok db" and i: "i \<in> set (by_block_id db)" and b: "bs_bft (objects db i) < bs_num (objects db i)"
  shows "\<exists>db'. set_bft_irreversible i db = Inr db' \<and> raised_in (bs_num (objects db i)) {j. built_on db i j} db db'"
proof -
  let ?n = "bs_num (objects db i)" and ?f = "\<lambda>b. b\<lparr>bhs := (bhs b)\<lparr>bft_irreversible_blocknum := bs_num b\<rparr>\<rparr>"
  let ?db1 = "index_modify i ?f db"
  have wf: "index_wf db" "bft_monotone db" using ok by (auto simp: fork_ok_def)
  have o1: "objects ?db1 = (\<lambda>j. if j \<in> {i} then raised ?n (objects db j) else objects db j)"
    using b by (auto simp: raised_def fun_eq_iff)
  have w1: "index_wf ?db1" using index_wf_modify [OF wf(1) i, of ?f] wf(1) i by (simp add: index_wf_def)
  then have r1: "raised_in ?n {i} db ?db1" by (simp add: raised_in_def o1 del: index_modify_simps(2))
  then have sb: "same_blocks db ?db1" by (simp add: same_blocks_def raised_in_def)
  have prev: "bs_prev (objects ?db1 k) = bs_prev (objects db k)" for k by simp
  have closed: "bft_closed ?n [i] ?db1"
    unfolding bft_closed_def
  proof (intro allI impI)
    fix j k
    assume a: "j \<in> set (by_block_id ?db1)" "?n \<le> bs_bft (objects ?db1 j)" "j \<notin> set [i]" "k \<in> set (by_block_id ?db1)" "bs_prev (objects ?db1 k) = j"
    then have "bs_bft (objects db j) \<le> bs_bft (objects db k)" using wf(2) unfolding prev by (auto simp: bft_monotone_def)
    then show "?n \<le> bs_bft (objects ?db1 k)" using a(2,3) by auto
  qed
  have "bft_below ?n ?db1 \<le> length (by_block_id db)"
    unfolding bft_below_def by (rule order_trans [OF card_mono [of "set (by_block_id db)"] card_length]) auto
  then have fuel: "[i] \<noteq> [] \<longrightarrow> bft_below ?n ?db1 < Suc (length (by_block_id ?db1))" by simp
  have q: "\<forall>j \<in> set [i]. j \<in> set (by_block_id ?db1) \<and> built_on ?db1 i j" using i built_on_refl by simp
  from bft_loop_spec [OF w1 closed fuel q] obtain J db' where
    l: "bft_loop (Suc (length (by_block_id ?db1))) ?n [i] ?db1 = Inr db'" "raised_in ?n J ?db1 db'"
    "J \<subseteq> {j \<in> set (by_block_id ?db1). built_on ?db1 i j}" "bft_closed ?n [] db'" by blast
  have r: "raised_in ?n ({i} \<union> J) db db'" by (rule raised_in_trans [OF r1 l(2)])
  then have sb2: "same_blocks db db'" by (simp add: same_blocks_def raised_in_def)
  have bi: "?n \<le> bs_bft (objects db' i)" "i \<in> set (by_block_id db')" using r i by (simp_all add: raised_in_def)
  have o2: "objects db' = (\<lambda>j. if j \<in> {i} \<union> J then raised ?n (objects db j) else objects db j)"
    using r by (simp add: raised_in_def)
  have "objects db' j = (if built_on db i j then raised ?n (objects db j) else objects db j)" for j
  proof (cases "j \<in> {i} \<union> J")
    case True
    then have "built_on db i j" using l(3) same_blocks_built_on [OF sb] built_on_refl by auto
    with True show ?thesis by (simp add: o2)
  next
    case False
    have "?n \<le> bs_bft (objects db j)" if "built_on db i j"
      using bft_closed_all [OF l(4) _ bi(2,1), of j] that same_blocks_built_on [OF sb2] False by (simp add: o2)
    with False show ?thesis by (simp add: o2 raised_id)
  qed
  then have "raised_in ?n {j. built_on db i j} db db'" using r by (simp add: raised_in_def fun_eq_iff)
  with l(1) show ?thesis by (auto simp: set_bft_irreversible_def Let_def)
qed

lemma raised_ok:
  assumes "fork_ok db" "raised_in num {j. built_on db i j} db db'"
  shows "fork_ok db'"
proof (rule same_blocks_ok [OF _ assms(1)])
  show "same_blocks db db'" using assms(2) by (simp add: same_blocks_def raised_in_def)
  have m: "bft_monotone db" using assms(1) by (simp add: fork_ok_def)
  show "bft_monotone db'"
    unfolding bft_monotone_def
  proof (intro ballI impI)
    fix j assume j: "j \<in> set (by_block_id db')" "bs_prev (objects db' j) \<in> set (by_block_id db')"
    have p: "bs_prev (objects db' j) = bs_prev (objects db j)" using assms(2) by (simp add: raised_in_def)
    have j': "j \<in> set (by_block_id db)" "bs_prev (objects db j) \<in> set (by_block_id db)" using j p assms(2) by (simp_all add: raised_in_def)
    have le: "bs_bft (objects db (bs_prev (objects db j))) \<le> bs_bft (objects db j)" using m j' by (simp add: bft_monotone_def)
    have up: "built_on db i j" if "built_on db i (bs_prev (objects db j))" using that j'(1) by (blast intro: built_on_step)
    show "bs_bft (objects db' (bs_prev (objects db' j))) \<le> bs_bft (objects db' j)"
      unfolding p using assms(2) le up by (auto simp: raised_in_def le_max_iff_disj)
  qed
qed (use assms(2) in \<open>simp add: raised_in_def\<close>)

text \<open>The operations that change one object.\<close>

lemma index_wf_objects:
  assumes "index_wf db" "by_block_id db' = by_block_id db" "by_block_num db' = by_block_num db" "by_lib_block_num db' = by_lib_block_num db"
    and "\<And>i j. on_objects num_less (objects db') i j = on_objects num_less (objects db) i j"
    and "\<And>i j. on_objects lib_less (objects db') i j = on_objects lib_less (objects db) i j"
    and "\<And>j. bs_id (objects db' j) = bs_id (objects db j)"
  shows "index_wf db'"
  using assms(1) unfolding index_wf_def assms(2-4,7)
  by (simp add: in_order_cong [OF assms(5)] in_order_cong [OF assms(6)])


lemma same_bft_ok:
  assumes "same_blocks db db'" "\<And>j. bs_bft (objects db' j) = bs_bft (objects db j)" "fork_ok db" "index_wf db'"
  shows "fork_ok db'"
proof (rule same_blocks_ok [OF assms(1,3,4)])
  have "bft_monotone db" using assms(3) by (simp add: fork_ok_def)
  with assms(1,2) show "bft_monotone db'" by (simp add: bft_monotone_def same_blocks_def)
qed

lemma fork_confirm_ok:
  assumes "fork_ok db"
  shows "ensures fork_ok (fork_confirm cr c db)"
  unfolding fork_confirm_def
proof (intro ensures_intros)
  fix b s db1
  assume "get_block (conf_block_id c) db = Some b" and a: "add_confirmation cr c (bhs b) = Inr s"
    and d: "db1 = db\<lparr>objects := (objects db)(conf_block_id c := b\<lparr>bhs := s\<rparr>)\<rparr>"
  then have b: "conf_block_id c \<in> set (by_block_id db)" "b = objects db (conf_block_id c)" by simp_all
  have s: "s = (bhs b)\<lparr>confirmations := confirmations (bhs b) @ [c]\<rparr>" by (rule add_confirmation_ok [OF a])
  have m: "index_wf db" using assms by (simp add: fork_ok_def)
  have ok: "fork_ok db1"
  proof (rule same_bft_ok [OF _ _ assms])
    show "same_blocks db db1" by (simp add: same_blocks_def d s b(2) header_state_ok_def dpos_ok_defs)
    show "index_wf db1"
      by (rule index_wf_objects [OF m]) (simp_all add: d s b(2) on_objects_def num_less_def lib_less_def)
    show "bs_bft (objects db1 j) = bs_bft (objects db j)" for j by (simp add: d s b(2))
  qed
  show "fork_ok db1" by (fact ok)
  assume "bft_irreversible_blocknum s < block_num s \<and> length (confirmations s) \<ge> length (producers (active_schedule s)) * 2 div 3 + 1"
  then have "bs_bft (objects db1 (conf_block_id c)) < bs_num (objects db1 (conf_block_id c))" by (simp add: d)
  moreover have "conf_block_id c \<in> set (by_block_id db1)" using b(1) by (simp add: d)
  ultimately show "ensures fork_ok (set_bft_irreversible (conf_block_id c) db1)"
    using set_bft_irreversible_raises [OF ok] raised_ok [OF ok] by (fastforce simp: ensures_def)
qed

lemma mark_in_current_chain_ok:
  assumes "fork_ok db" "h = objects db (bs_id h)"
  shows "ensures fork_ok (mark_in_current_chain h b db)"
  unfolding mark_in_current_chain_def
proof (intro ensures_intros)
  show "fork_ok db" by (fact assms)
  assume i: "bs_id h \<in> set (by_block_id db)"
  let ?db = "index_modify (bs_id h) (\<lambda>x. x\<lparr>in_current_chain := b\<rparr>) db"
  have m: "index_wf db" using assms by (simp add: fork_ok_def)
  show "fork_ok ?db"
  proof (rule same_bft_ok [OF _ _ assms(1)])
    show "same_blocks db ?db" by (simp add: same_blocks_def)
    show "index_wf ?db" by (rule index_wf_modify [OF m i]) (use assms(2) in simp)
    show "bs_bft (objects ?db j) = bs_bft (objects db j)" for j by simp
  qed
qed

lemma set_validity_ok:
  assumes "fork_ok db"
  shows "ensures fork_ok (set_validity h v db)"
  unfolding set_validity_def
proof (intro ensures_intros fork_remove_ok assms)
  let ?db = "db\<lparr>objects := (objects db)(bs_id h := (objects db (bs_id h))\<lparr>validated := True\<rparr>)\<rparr>"
  have m: "index_wf db" using assms by (simp add: fork_ok_def)
  show "fork_ok ?db"
  proof (rule same_bft_ok [OF _ _ assms])
    show "same_blocks db ?db" by (simp add: same_blocks_def)
    show "index_wf ?db" by (rule index_wf_objects [OF m]) (simp_all add: on_objects_def num_less_def lib_less_def)
    show "bs_bft (objects ?db j) = bs_bft (objects db j)" for j by simp
  qed
qed

section \<open>The fork database as a machine\<close>

text \<open>The operations that the controller performs on blocks of the database, which it knows by their ids.\<close>

datatype fork_op = Add_Block signed_block bool | Add_Confirmation header_confirmation | Set_Validity sha256 bool | Mark_Current sha256 bool

fun fork_step :: "chain_crypto \<Rightarrow> fork_database \<Rightarrow> fork_op \<Rightarrow> fork_database result" where
  "fork_step cr db (Add_Block b trust) = bindR (fork_add cr b trust db) (\<lambda>(n, db). Inr db)"
| "fork_step cr db (Add_Confirmation c) = fork_confirm cr c db"
| "fork_step cr db (Set_Validity i v) = bindR (of_option fork_db_block_not_found (get_block i db)) (\<lambda>h. set_validity h v db)"
| "fork_step cr db (Mark_Current i b) = bindR (of_option fork_db_block_not_found (get_block i db)) (\<lambda>h. mark_in_current_chain h b db)"

fun fork_admissible :: "fork_op \<Rightarrow> bool" where
  "fork_admissible (Add_Block b trust) = header_admissible (Next (signed_block_header.truncate b) trust)"
| "fork_admissible _ = True"

interpretation forks: guarded_machine "fork_step cr" fork_admissible fork_ok for cr
proof
  fix db x db'
  assume a: "fork_ok db" "fork_admissible x" "fork_step cr db x = Inr db'"
  have id: "objects db i = objects db (bs_id (objects db i))" if "i \<in> set (by_block_id db)" for i
    using a(1) that by (simp add: fork_ok_def index_wf_def)
  show "fork_ok db'"
  proof (cases x)
    case (Add_Block b trust)
    with a fork_add_ok(1) [OF a(1)] show ?thesis by (auto simp: result_simps)
  next
    case (Add_Confirmation c)
    with a ensuresD [OF fork_confirm_ok [OF a(1)]] show ?thesis by simp
  next
    case (Set_Validity i v)
    with a ensuresD [OF set_validity_ok [OF a(1)]] show ?thesis by (auto simp: result_simps)
  next
    case (Mark_Current i b)
    with a ensuresD [OF mark_in_current_chain_ok [OF a(1) id]] show ?thesis by (auto simp: result_simps)
  qed
qed

lemma fork_set_ok:
  assumes "header_state_ok (bhs s)" "bs_id s = header_id cr (header (bhs s))" "num_from_id (bs_prev s) < 2 ^ 32 - 1"
  shows "\<exists>db. fork_set cr s empty_fork_database = (Inr (), db) \<and> fork_ok db \<and> signalled db = [] \<and> by_block_id db = [bs_id s] \<and> objects db (bs_id s) = s"
proof -
  let ?db = "empty_fork_database\<lparr>objects := (objects empty_fork_database)(bs_id s := s), by_block_id := [bs_id s], by_block_num := [bs_id s],
    by_lib_block_num := [bs_id s], fork_head := Some (bs_id s)\<rparr>"
  have "fork_set cr s empty_fork_database = (Inr (), ?db)"
    using assms(2) by (simp add: fork_set_def index_insert_def empty_fork_database_def Let_def)
  moreover have "bs_num s = Suc (num_from_id (bs_prev s))"
  proof -
    have "bs_num s = num_from_id (bs_id s)" using assms(1) by (simp add: header_state_ok_def)
    then show ?thesis using assms(2,3) by (simp add: num_from_header_id header_block_num_def u32_def)
  qed
  then have "fork_tree (bs_prev s) (num_from_id (bs_prev s)) ?db" using assms(1) by (simp add: fork_tree_def attached_def)
  moreover have "signals_ok (bs_prev s) (num_from_id (bs_prev s)) ?db" by (simp add: signals_ok_def empty_fork_database_def)
  moreover have "index_wf ?db" by (simp add: index_wf_def in_order_def)
  moreover have "head_ok ?db" "bft_monotone ?db" by (simp_all add: head_ok_def bft_monotone_def)
  ultimately show ?thesis by (auto simp: fork_ok_def empty_fork_database_def)
qed

section \<open>Branches end at a common ancestor\<close>

definition branch :: "fork_database \<Rightarrow> block_state list \<Rightarrow> bool" where
  "branch db bs \<longleftrightarrow> bs \<noteq> [] \<and> (\<forall>b \<in> set bs. \<exists>i \<in> set (by_block_id db). b = objects db i) \<and> successively (\<lambda>a b. bs_prev a = bs_id b) bs"

lemma branch_snoc:
  assumes "index_wf db" "branch db (bs @ [objects db i])" "bs_prev (objects db i) = j" "j \<in> set (by_block_id db)"
  shows "branch db (bs @ [objects db i] @ [objects db j])"
proof -
  have "bs_id (objects db j) = j" using assms(1,4) by (simp add: index_wf_def)
  then have "successively (\<lambda>a b. bs_prev a = bs_id b) ((bs @ [objects db i]) @ [objects db j])"
    using assms(2,3) by (subst successively_append_iff) (simp add: branch_def)
  then show ?thesis using assms(2,4) by (auto simp: branch_def)
qed

lemma tree_prev:
  assumes "fork_tree r rn db" "i \<in> set (by_block_id db)"
  shows "bs_num (objects db i) = Suc rn \<and> bs_prev (objects db i) = r
    \<or> Suc rn < bs_num (objects db i) \<and> bs_prev (objects db i) \<in> set (by_block_id db)
       \<and> bs_num (objects db i) = Suc (bs_num (objects db (bs_prev (objects db i))))"
  using assms tree_num [OF assms(1), of "bs_prev (objects db i)"] by (auto simp: fork_tree_def attached_def)

lemma walk_back_branch:
  assumes "index_wf db" "fork_tree r rn db" "Suc rn \<le> n"
    and "i \<in> set (by_block_id db)" "branch db (br @ [objects db i])" "bs_num (objects db i) \<le> n + fuel"
  shows "\<exists>j br'. walk_back fuel n (objects db i) br db = Inr (objects db j, br') \<and> j \<in> set (by_block_id db)
    \<and> branch db (br' @ [objects db j]) \<and> hd (br' @ [objects db j]) = hd (br @ [objects db i])
    \<and> bs_num (objects db j) = min n (bs_num (objects db i))"
  using assms(4-)
proof (induction fuel arbitrary: i br)
  case 0
  then show ?case by (intro exI [of _ i] exI [of _ br]) (simp add: walk_back.simps)
next
  case (Suc fuel)
  show ?case
  proof (cases "n < bs_num (objects db i)")
    case True
    let ?p = "bs_prev (objects db i)"
    have p: "?p \<in> set (by_block_id db)" "bs_num (objects db i) = Suc (bs_num (objects db ?p))"
      using tree_prev [OF assms(2) Suc.prems(1)] assms(3) True by auto
    have "branch db ((br @ [objects db i]) @ [objects db ?p])"
      using branch_snoc [OF assms(1) Suc.prems(2) refl p(1)] by simp
    from Suc.IH [OF p(1) this] p(2) Suc.prems(3) obtain j br' where
      j: "walk_back fuel n (objects db ?p) (br @ [objects db i]) db = Inr (objects db j, br')" "j \<in> set (by_block_id db)"
      "branch db (br' @ [objects db j])" "hd (br' @ [objects db j]) = hd ((br @ [objects db i]) @ [objects db ?p])"
      "bs_num (objects db j) = min n (bs_num (objects db ?p))" by auto
    have "walk_back (Suc fuel) n (objects db i) br db = Inr (objects db j, br')"
      using True j(1) p(1) by (subst walk_back.simps) (simp add: get_block_def)
    moreover have "hd (br' @ [objects db j]) = hd (br @ [objects db i])" using j(4) by (simp add: hd_append)
    moreover have "bs_num (objects db j) = min n (bs_num (objects db i))" using j(5) p(2) True by simp
    ultimately show ?thesis using j(2,3) by blast
  next
    case False
    with Suc.prems show ?thesis by (intro exI [of _ i] exI [of _ br]) (simp add: walk_back.simps)
  qed
qed

lemma walk_both_branch:
  assumes "index_wf db" "fork_tree r rn db"
    and "i \<in> set (by_block_id db)" "branch db (as @ [objects db i])" "j \<in> set (by_block_id db)" "branch db (bs @ [objects db j])"
    and "bs_num (objects db i) = bs_num (objects db j)" "bs_num (objects db i) \<le> Suc rn + fuel"
  shows "\<exists>p q. walk_both fuel (objects db i) (objects db j) as bs db = Inr (p, q) \<and> branch db p \<and> branch db q
    \<and> hd p = hd (as @ [objects db i]) \<and> hd q = hd (bs @ [objects db j]) \<and> bs_prev (last p) = bs_prev (last q)"
  using assms(3-)
proof (induction fuel arbitrary: i j as bs)
  case 0
  then have "bs_prev (objects db i) = bs_prev (objects db j)"
    using tree_prev [OF assms(2) 0(1)] tree_prev [OF assms(2) 0(3)] by auto
  with 0 show ?case by (simp add: walk_both.simps)
next
  case (Suc fuel)
  let ?p = "bs_prev (objects db i)" and ?q = "bs_prev (objects db j)"
  show ?case
  proof (cases "?p = ?q")
    case True
    with Suc.prems show ?thesis by (simp add: walk_both.simps)
  next
    case False
    then have p: "?p \<in> set (by_block_id db)" "bs_num (objects db i) = Suc (bs_num (objects db ?p))"
      and q: "?q \<in> set (by_block_id db)" "bs_num (objects db j) = Suc (bs_num (objects db ?q))"
      using tree_prev [OF assms(2) Suc.prems(1)] tree_prev [OF assms(2) Suc.prems(3)] Suc.prems(5) by auto
    have b: "branch db ((as @ [objects db i]) @ [objects db ?p])" "branch db ((bs @ [objects db j]) @ [objects db ?q])"
      using branch_snoc [OF assms(1) Suc.prems(2) refl p(1)] branch_snoc [OF assms(1) Suc.prems(4) refl q(1)] by simp_all
    from Suc.IH [OF p(1) b(1) q(1) b(2)] p(2) q(2) Suc.prems(5,6) obtain x y where
      x: "walk_both fuel (objects db ?p) (objects db ?q) (as @ [objects db i]) (bs @ [objects db j]) db = Inr (x, y)"
      "branch db x" "branch db y" "hd x = hd ((as @ [objects db i]) @ [objects db ?p])" "hd y = hd ((bs @ [objects db j]) @ [objects db ?q])"
      "bs_prev (last x) = bs_prev (last y)" by auto
    have "walk_both (Suc fuel) (objects db i) (objects db j) as bs db = Inr (x, y)"
      using False x(1) p(1) q(1) by (subst walk_both.simps) (simp add: get_block_def)
    with x show ?thesis by (auto simp: hd_append)
  qed
qed

lemma fetch_branch_ok:
  assumes ok: "fork_ok db" and i: "i \<in> set (by_block_id db)" and j: "j \<in> set (by_block_id db)"
  shows "\<exists>p q. fetch_branch_from i j db = Inr (p, q) \<and> branch db p \<and> branch db q
    \<and> hd p = objects db i \<and> hd q = objects db j \<and> bs_prev (last p) = bs_prev (last q)"
proof -
  obtain r rn where t: "index_wf db" "fork_tree r rn db" using ok by (auto simp: fork_ok_def)
  have b: "branch db ([] @ [objects db i])" "branch db ([] @ [objects db j])" using i j by (auto simp: branch_def)
  have n: "Suc rn \<le> bs_num (objects db k)" if "k \<in> set (by_block_id db)" for k using tree_num [OF t(2) that] by simp
  obtain i1 as where a: "walk_back (bs_num (objects db i)) (bs_num (objects db j)) (objects db i) [] db = Inr (objects db i1, as)"
    "i1 \<in> set (by_block_id db)" "branch db (as @ [objects db i1])" "hd (as @ [objects db i1]) = objects db i"
    "bs_num (objects db i1) = min (bs_num (objects db j)) (bs_num (objects db i))"
    using walk_back_branch [OF t n [OF j] i b(1), of "bs_num (objects db i)"] by auto
  obtain j1 bs where c: "walk_back (bs_num (objects db j)) (bs_num (objects db i1)) (objects db j) [] db = Inr (objects db j1, bs)"
    "j1 \<in> set (by_block_id db)" "branch db (bs @ [objects db j1])" "hd (bs @ [objects db j1]) = objects db j"
    "bs_num (objects db j1) = min (bs_num (objects db i1)) (bs_num (objects db j))"
    using walk_back_branch [OF t n [OF a(2)] j b(2), of "bs_num (objects db j)"] by auto
  obtain p q where w: "walk_both (bs_num (objects db i1)) (objects db i1) (objects db j1) as bs db = Inr (p, q)" "branch db p" "branch db q"
    "hd p = objects db i" "hd q = objects db j" "bs_prev (last p) = bs_prev (last q)"
    using walk_both_branch [OF t a(2,3) c(2,3), of "bs_num (objects db i1)"] a(4,5) c(4,5) by auto
  have "fetch_branch_from i j db = Inr (p, q)" using i j a(1) c(1) w(1) by (simp add: fetch_branch_from_def get_block_def)
  with w show ?thesis by blast
qed

section \<open>Properties of the fork database\<close>

text \<open>
  C31. The fork database is a tree above the last irreversible block.  From a first block on, after any sequence of received blocks,
  confirmations, invalidated blocks and marks of the current chain, where an operation that throws changes nothing: the indices have the same
  blocks in their orders; every block is one above its previous block, which is in the database or is the block that became irreversible
  last; the blocks for which the signal \<open>irreversible\<close> was emitted are a chain without gaps, in order; the head is in the
  database.
\<close>

theorem fork_database_invariant:
  assumes "fork_set cr s empty_fork_database = (Inr (), db0)" "header_state_ok (bhs s)" "num_from_id (bs_prev s) < 2 ^ 32 - 1"
    and "list_all fork_admissible ops" "run_ops (fork_step cr) db0 ops = db"
  shows "index_wf db \<and> successively (follows (objects db)) (signalled db)
    \<and> (\<exists>h \<in> set (by_block_id db). fork_head db = Some h)
    \<and> (\<exists>r rn. (\<forall>j \<in> set (by_block_id db). header_state_ok (bhs (objects db j)) \<and> attached r rn db j)
         \<and> (signalled db \<noteq> [] \<longrightarrow> r = last (signalled db)))"
proof -
  have "bs_id s = header_id cr (header (bhs s))"
    using assms(1) by (auto simp: fork_set_def Let_def case_prod_unfold split: if_splits)
  then have "fork_ok db0" using fork_set_ok [OF assms(2) _ assms(3), of cr] assms(1) by auto
  then have "fork_ok db" using forks.run_inv [OF _ assms(4), of db0 cr] assms(5) by simp
  then show ?thesis unfolding fork_ok_def head_ok_def fork_tree_def signals_ok_def by blast
qed

text \<open>
  C32. What a received block does.  A block that is accepted gets a block state with its id; afterwards no block in the database is
  better than the head: none has a higher irreversible block by the producers, or the same and a higher one by
  confirmations, or both the same and a higher number.
\<close>

theorem fork_add_selects_best:
  assumes "fork_ok db" "header_admissible (Next (signed_block_header.truncate b) trust)" "fork_add cr b trust db = Inr (n, db')"
  shows "bs_id n = header_id cr b \<and> bs_block n = Some b \<and> fork_ok db'
    \<and> (\<exists>h \<in> set (by_block_id db'). fork_head db' = Some h \<and> (\<forall>j \<in> set (by_block_id db'). \<not> lib_less (objects db' j) (objects db' h)))"
  using fork_add_ok [OF assms(1,3,2)] unfolding head_best_def by blast

text \<open>
  C35. \<open>remove\<close> removes a block with exactly the blocks that are built on it, directly or not; the rest stays as it is and has a new head, than
  which no block is better.  The loop over the queue always ends.
\<close>

theorem fork_remove_exact:
  assumes "index_wf db" "j \<in> set (by_block_id db)" "\<not> built_on db i j"
  shows "\<exists>db'. fork_remove i db = Inr db' \<and> by_block_id db' = filter (\<lambda>j. \<not> built_on db i j) (by_block_id db)
    \<and> objects db' = objects db \<and> signalled db' = signalled db \<and> index_wf db' \<and> head_best db'"
proof -
  have r: "restricted (\<lambda>j. \<not> built_on db i j) db (remove_loop [i] db)" using remove_loop_filter [OF assms(1), of "[i]"] by simp
  have "j \<in> set (by_lib_block_num (remove_loop [i] db))"
    using assms restricted_simps(4) [OF r] by (simp add: index_wf_def)
  then obtain db' where d: "fork_remove i db = Inr db'"
    by (cases "by_lib_block_num (remove_loop [i] db)") (auto simp: fork_remove_def first_of_def Let_def)
  from d assms(1) show ?thesis
    by (rule fork_removeE) (use d in \<open>auto simp: restricted_def\<close>)
qed

text \<open>
  C33. A block that gets its confirmations is final for everything built on it.  The breadth-first loop ends, and exactly the blocks built
  on the block then have at least its number as irreversible; nothing else changes, and the database stays consistent.
\<close>

theorem set_bft_irreversible_exact:
  assumes "fork_ok db" "i \<in> set (by_block_id db)" "bs_bft (objects db i) < bs_num (objects db i)"
  shows "\<exists>db'. set_bft_irreversible i db = Inr db' \<and> fork_ok db' \<and> by_block_id db' = by_block_id db \<and> fork_head db' = fork_head db
    \<and> (\<forall>j. objects db' j = (if built_on db i j then raised (bs_num (objects db i)) (objects db j) else objects db j))"
proof -
  obtain db' where "set_bft_irreversible i db = Inr db'" "raised_in (bs_num (objects db i)) {j. built_on db i j} db db'"
    using set_bft_irreversible_raises [OF assms] by blast
  with raised_ok [OF assms(1)] show ?thesis by (auto simp: raised_in_def)
qed

text \<open>
  C34. \<open>fetch_branch_from\<close> finds the common ancestor.  For two blocks of a consistent database all three loops end and no block is missing:
  the result is the two chains of blocks that lead from the given blocks back to blocks with the same previous block.
\<close>

theorem fetch_branch_from_common_ancestor:
  assumes "fork_ok db" "i \<in> set (by_block_id db)" "j \<in> set (by_block_id db)"
  shows "\<exists>p q. fetch_branch_from i j db = Inr (p, q) \<and> branch db p \<and> branch db q
    \<and> hd p = objects db i \<and> hd q = objects db j \<and> bs_prev (last p) = bs_prev (last q)"
  using assms by (rule fetch_branch_ok)

section \<open>Small fork databases\<close>

definition sample_id :: "nat \<Rightarrow> word64 \<Rightarrow> sha256" where
  "sample_id n k = SHA256 (ucast (endian_reverse_u32 (of_nat n))) k 0 0"

text \<open>A block with a number, an id that has the number and a second part, a previous block and an irreversible block.\<close>

definition sample_block :: "nat \<Rightarrow> word64 \<Rightarrow> word64 \<Rightarrow> nat \<Rightarrow> block_state" where
  "sample_block n k prev lib = block_state_of (default_header_state\<lparr>block_id := sample_id n k, block_num := n,
     header := default_signed_header\<lparr>previous := sample_id (n - 1) prev, timestamp := n\<rparr>,
     dpos_proposed_irreversible_blocknum := lib, dpos_irreversible_blocknum := lib,
     active_schedule := \<lparr>version = 0, producers = producer_keys [1]\<rparr>\<rparr>)"

definition sample_db :: "block_state list \<Rightarrow> fork_database" where
  "sample_db bs = fold (\<lambda>s db. snd (index_insert s db)) bs (empty_fork_database\<lparr>fork_head := Some (bs_id (hd bs))\<rparr>)"

lemma sample_ids: "num_from_id (sample_id 19 k) = 19" "num_from_id (sample_id 20 k) = 20" "num_from_id (sample_id 21 k) = 21"
  "num_from_id (sample_id 22 k) = 22" "sample_id 19 k = sample_id 19 k' \<longleftrightarrow> k = k'"
  "sample_id 20 k = sample_id 20 k' \<longleftrightarrow> k = k'" "sample_id 21 k = sample_id 21 k' \<longleftrightarrow> k = k'" "sample_id 22 k = sample_id 22 k' \<longleftrightarrow> k = k'"
  "sample_id 19 k \<noteq> sample_id 20 k'" "sample_id 19 k \<noteq> sample_id 21 k'" "sample_id 19 k \<noteq> sample_id 22 k'" 
  "sample_id 20 k \<noteq> sample_id 19 k'" "sample_id 20 k \<noteq> sample_id 21 k'" "sample_id 20 k \<noteq> sample_id 22 k'" 
  "sample_id 21 k \<noteq> sample_id 19 k'" "sample_id 21 k \<noteq> sample_id 20 k'" "sample_id 21 k \<noteq> sample_id 22 k'"
  "sample_id 22 k \<noteq> sample_id 19 k'" "sample_id 22 k \<noteq> sample_id 20 k'" "sample_id 22 k \<noteq> sample_id 21 k'"
  by (simp_all add: sample_id_def num_from_id_def endian_reverse_u32_def)

lemma sample_block_simps [simp]:
  "bs_id (sample_block n k p l) = sample_id n k" "bs_num (sample_block n k p l) = n" "bs_prev (sample_block n k p l) = sample_id (n - 1) p"
  "bs_lib (sample_block n k p l) = l" "bs_bft (sample_block n k p l) = 0" "in_current_chain (sample_block n k p l) = False"
  by (simp_all add: sample_block_def block_state_of_def default_header_state_def default_signed_header_def)

lemma sample_block_ok: "num_from_id (sample_id n k) = n \<Longrightarrow> l \<le> n \<Longrightarrow> n < 2 ^ 32 \<Longrightarrow> header_state_ok (bhs (sample_block n k p l))"
  by (simp add: sample_block_def block_state_of_def header_state_ok_def dpos_ok_defs default_header_state_def default_signed_header_def
      producer_keys_def empty_schedule_def max_producers_def)

text \<open>Two blocks with number 20, on each of which there is a block with number 21.\<close>

definition sample_fork :: fork_database where
  "sample_fork = sample_db [sample_block 20 1 0 0, sample_block 20 2 0 0, sample_block 21 3 2 0, sample_block 21 4 1 0]"

lemma sample_fork_fields:
  "by_block_id sample_fork = [sample_id 20 1, sample_id 20 2, sample_id 21 3, sample_id 21 4]"
  "by_block_num sample_fork = [sample_id 20 1, sample_id 20 2, sample_id 21 3, sample_id 21 4]"
  "by_lib_block_num sample_fork = [sample_id 21 3, sample_id 21 4, sample_id 20 1, sample_id 20 2]"
  "objects sample_fork (sample_id 20 1) = sample_block 20 1 0 0" "objects sample_fork (sample_id 20 2) = sample_block 20 2 0 0"
  "objects sample_fork (sample_id 21 3) = sample_block 21 3 2 0" "objects sample_fork (sample_id 21 4) = sample_block 21 4 1 0"
  "fork_head sample_fork = Some (sample_id 20 1)" "signalled sample_fork = []"
  by (simp_all add: sample_fork_def sample_db_def index_insert_def empty_fork_database_def on_objects_def num_less_def lib_less_def sample_ids Let_def)

lemma sample_fork_ok: "fork_ok sample_fork"
proof -
  have "index_wf sample_fork"
    by (auto simp: index_wf_def sample_fork_fields sample_ids in_order_def on_objects_def num_less_def lib_less_def)
  moreover have "fork_tree (sample_id 19 0) 19 sample_fork"
    by (auto simp: fork_tree_def attached_def sample_fork_fields sample_ids intro!: sample_block_ok)
  moreover have "signals_ok (sample_id 19 0) 19 sample_fork" by (simp add: signals_ok_def sample_fork_fields sample_ids)
  moreover have "bft_monotone sample_fork" by (simp add: bft_monotone_def sample_fork_fields sample_ids)
  moreover have "head_ok sample_fork" by (simp add: head_ok_def sample_fork_fields)
  ultimately show ?thesis by (auto simp: fork_ok_def)
qed

text \<open>
  Pruning can read a block that was freed.  \<open>prune\<close> advances its iterator over the blocks with the same number before it removes one of
  them, but removing it also removes the blocks built on it, and the iterator may point to one of these.  It happens when a
  block is added to this consistent database.
\<close>

theorem prune_reads_freed_block:
  "fork_ok sample_fork \<and> extends (sample_block 22 5 4 21) sample_fork
    \<and> fork_add_state (sample_block 22 5 4 21) sample_fork = Inl undefined_behaviour"
proof (intro conjI)
  show "fork_ok sample_fork" by (rule sample_fork_ok)
  show "extends (sample_block 22 5 4 21) sample_fork" by (simp add: extends_def sample_block_ok sample_ids sample_fork_fields)
  show "fork_add_state (sample_block 22 5 4 21) sample_fork = Inl undefined_behaviour"
    by (simp add: fork_add_state_def index_insert_def sample_fork_fields sample_ids first_of_def on_objects_def num_less_def lib_less_def
        prune_def prune_older.simps prune_level_def index_erase_def fork_remove_def children_def Let_def)
qed

theorem set_bft_irreversible_exact_witness:
  "\<exists>db'. set_bft_irreversible (sample_id 20 2) sample_fork = Inr db' \<and> bs_bft (objects db' (sample_id 21 3)) = 20"
proof -
  have "built_on sample_fork (sample_id 20 2) (sample_id 21 3)"
    by (rule built_on_step [OF built_on_refl]) (simp_all add: sample_fork_fields)
  with set_bft_irreversible_exact [OF sample_fork_ok, of "sample_id 20 2"] show ?thesis by (auto simp: sample_fork_fields)
qed

theorem fetch_branch_from_common_ancestor_witness:
  "\<exists>p q. fetch_branch_from (sample_id 21 3) (sample_id 21 4) sample_fork = Inr (p, q) \<and> bs_prev (last p) = bs_prev (last q)
     \<and> hd p = sample_block 21 3 2 0"
  using fetch_branch_from_common_ancestor [OF sample_fork_ok, of "sample_id 21 3" "sample_id 21 4"] by (auto simp: sample_fork_fields)

lemma sample_not_built: "\<not> built_on sample_fork (sample_id 20 2) (sample_id 20 1)"
  by (subst built_on.simps, simp add: sample_fork_fields sample_ids, subst built_on.simps, simp add: sample_fork_fields sample_ids)

theorem fork_remove_exact_witness:
  "\<exists>db'. fork_remove (sample_id 20 2) sample_fork = Inr db' \<and> sample_id 20 1 \<in> set (by_block_id db') \<and> sample_id 20 2 \<notin> set (by_block_id db')"
proof -
  have "index_wf sample_fork" using sample_fork_ok by (simp add: fork_ok_def)
  from fork_remove_exact [OF this _ sample_not_built] sample_not_built built_on_refl show ?thesis by (auto simp: sample_fork_fields)
qed

text \<open>A cryptography whose hash of a header is its time, and a chain that starts from its genesis block.\<close>

definition time_crypto :: chain_crypto where
  "time_crypto = null_crypto\<lparr>header_hash := (\<lambda>h. SHA256 0 (of_nat (timestamp h)) 0 0)\<rparr>"

definition time_genesis :: block_state where
  "time_genesis = genesis_block (genesis_state time_crypto 1 (K1 7) 20 default_digest)"

definition time_block :: signed_block where
  "time_block = block_of_header (block_at (bhs time_genesis) 21 1 0)"

lemma time_genesis_ok: "header_state_ok (bhs time_genesis)" "bs_id time_genesis = header_id time_crypto (header (bhs time_genesis))"
  "num_from_id (bs_prev time_genesis) = 0"
  using genesis_ok(1) [of 20 time_crypto 1 "K1 7" default_digest]
  by (simp_all add: time_genesis_def genesis_block_def block_state_of_def genesis_state_def Let_def default_signed_header_def num_from_id_def
      default_digest_def endian_reverse_u32_def)

definition time_db :: fork_database where
  "time_db = snd (fork_set time_crypto time_genesis empty_fork_database)"

lemma time_db_set: "fork_set time_crypto time_genesis empty_fork_database = (Inr (), time_db)"
  using fork_set_ok [OF time_genesis_ok(1,2)] time_genesis_ok(3) by (auto simp: time_db_def)

lemma time_block_admissible: "header_admissible (Next (signed_block_header.truncate time_block) True)"
  by (simp add: time_block_def block_of_header_def block_at_def signed_block_header.defs default_signed_header_def)

theorem fork_database_invariant_witness:
  "index_wf (run_ops (fork_step time_crypto) time_db [Add_Block time_block True, Mark_Current (header_id time_crypto time_block) True])"
proof -
  have "num_from_id (bs_prev time_genesis) < 2 ^ 32 - 1" using time_genesis_ok(3) by simp
  from fork_database_invariant [OF time_db_set time_genesis_ok(1) this _ refl,
      of "[Add_Block time_block True, Mark_Current (header_id time_crypto time_block) True]"] time_block_admissible
  show ?thesis by simp
qed

lemma num_from_time_id: "num_from_id (SHA256 16777216 20 0 0) = 1"
  by (simp add: num_from_id_def endian_reverse_u32_def)

lemma time_ids: "bs_id time_genesis = SHA256 16777216 20 0 0" "header_id time_crypto time_block = SHA256 33554432 21 0 0"
  "previous time_block = SHA256 16777216 20 0 0"
  by (simp_all add: time_genesis_def genesis_block_def block_state_of_def time_block_def block_of_header_def time_crypto_def header_eval
      block_header.defs signed_block_header.defs num_from_time_id)

lemma time_db_fields: "by_block_id time_db = [SHA256 16777216 20 0 0]" "by_block_num time_db = [SHA256 16777216 20 0 0]"
  "by_lib_block_num time_db = [SHA256 16777216 20 0 0]" "objects time_db (SHA256 16777216 20 0 0) = time_genesis" "fork_head time_db = Some (SHA256 16777216 20 0 0)"
  using time_genesis_ok(2) by (simp_all add: time_db_def fork_set_def index_insert_def empty_fork_database_def Let_def time_ids)

lemma time_next: "\<exists>r. next_state time_crypto (bhs time_genesis) (signed_block_header.truncate time_block) True = Inr r
   \<and> block_num r = 2 \<and> dpos_irreversible_blocknum r = 0 \<and> bft_irreversible_blocknum r = 0"
  by (simp add: time_genesis_def genesis_block_def block_state_of_def time_block_def block_of_header_def time_crypto_def header_eval
      block_header.defs signed_block_header.defs)

lemma time_genesis_fields: "bs_num time_genesis = 1" "bs_lib time_genesis = 0" "bs_bft time_genesis = 0" "\<not> in_current_chain time_genesis"
  by (simp_all add: time_genesis_def genesis_block_def block_state_of_def header_eval)

lemma time_db_add: "\<exists>n db'. fork_add time_crypto time_block True time_db = Inr (n, db')"
proof -
  obtain r where r: "next_state time_crypto (bhs time_genesis) (signed_block_header.truncate time_block) True = Inr r"
    "block_num r = 2" "dpos_irreversible_blocknum r = 0" "bft_irreversible_blocknum r = 0" using time_next by blast
  have "block_id r = SHA256 33554432 21 0 0"
    using next_state_header(2) [OF time_genesis_ok(1) r(1) time_block_admissible] time_ids(2) by simp
  then show ?thesis
    using r by (simp add: fork_add_def time_db_fields time_ids get_block_def next_block_state_def fork_add_state_def index_insert_def
        first_of_def Let_def on_objects_def lib_less_def num_less_def time_genesis_fields)
qed

theorem fork_add_selects_best_witness:
  "\<exists>n db'. fork_add time_crypto time_block True time_db = Inr (n, db') \<and> bs_id n = header_id time_crypto time_block \<and> fork_ok db'"
proof -
  obtain n db' where a: "fork_add time_crypto time_block True time_db = Inr (n, db')" using time_db_add by blast
  have "fork_ok time_db" using fork_set_ok [OF time_genesis_ok(1,2)] time_genesis_ok(3) time_db_set by auto
  from fork_add_selects_best [OF this time_block_admissible a] a show ?thesis by blast
qed

section \<open>Closing and opening again\<close>

lemma fork_load_new:
  assumes "bs_id s \<notin> set (by_block_id db)" "bs_id s = header_id cr (header (bhs s))"
  shows "\<exists>db'. fork_load cr s db = Inr db' \<and> by_block_id db' = by_block_id db @ [bs_id s] \<and> objects db' = (objects db)(bs_id s := s)
    \<and> (index_wf db \<longrightarrow> index_wf db')"
proof -
  let ?db = "snd (index_insert s db)"
  obtain dd where ins: "index_insert s db = (True, dd)" using index_insert_simps(1) [OF assms(1)] by (cases "index_insert s db") simp
  have "\<exists>h. fork_load cr s db = Inr (dd\<lparr>fork_head := h\<rparr>)"
  proof (cases "fork_head dd")
    case (Some a)
    then show ?thesis
      using assms(2) ins exI [of "\<lambda>h. dd = dd\<lparr>fork_head := h\<rparr>" "fork_head dd"] by (auto simp: fork_load_def fork_set_def)
  qed (use assms(2) ins in \<open>auto simp: fork_load_def fork_set_def\<close>)
  then obtain h where "fork_load cr s db = Inr (?db\<lparr>fork_head := h\<rparr>)" using ins by auto
  moreover have "index_wf db \<Longrightarrow> index_wf (?db\<lparr>fork_head := h\<rparr>)" using index_wf_insert [OF _ assms(1)] by (simp add: index_wf_def)
  ultimately show ?thesis using index_insert_simps [OF assms(1)] by auto
qed

lemma fork_load_all:
  assumes "distinct (map bs_id states)" "\<forall>s \<in> set states. bs_id s = header_id cr (header (bhs s)) \<and> bs_id s \<notin> set (by_block_id db)"
    and "index_wf db"
  shows "\<exists>db'. foldR (fork_load cr) states db = Inr db' \<and> by_block_id db' = by_block_id db @ map bs_id states \<and> index_wf db'
    \<and> (\<forall>s \<in> set states. objects db' (bs_id s) = s)
    \<and> (\<forall>i. i \<notin> bs_id ` set states \<longrightarrow> objects db' i = objects db i)"
  using assms
proof (induction states arbitrary: db)
  case (Cons s states)
  obtain db1 where d: "fork_load cr s db = Inr db1" "by_block_id db1 = by_block_id db @ [bs_id s]" "objects db1 = (objects db)(bs_id s := s)"
    "index_wf db1" using fork_load_new [of s db cr] Cons.prems by auto
  have "\<forall>t \<in> set states. bs_id t = header_id cr (header (bhs t)) \<and> bs_id t \<notin> set (by_block_id db1)"
    using Cons.prems(1,2) d(2) by (auto simp: image_iff)
  from Cons.IH [OF _ this d(4)] Cons.prems(1) obtain db' where
    e: "foldR (fork_load cr) states db1 = Inr db'" "by_block_id db' = by_block_id db1 @ map bs_id states" "index_wf db'"
    "\<forall>t \<in> set states. objects db' (bs_id t) = t" "\<forall>i. i \<notin> bs_id ` set states \<longrightarrow> objects db' i = objects db1 i" by auto
  have "objects db' (bs_id s) = s" using e(5) d(3) Cons.prems(1) by auto
  with d e show ?case by auto
qed auto



end
