(* ===== verification/Controller.thy ===== *)
theory Controller
  imports ForkDatabase
begin

text \<open>
  How the controller keeps the chain database, the log of irreversible blocks and the database of reversible blocks in step with the fork
  database: \<^verbatim>\<open>pop_block\<close>, \<^verbatim>\<open>on_irreversible\<close>, \<^verbatim>\<open>apply_block\<close>, \<^verbatim>\<open>push_block\<close>, \<^verbatim>\<open>push_confirmation\<close> and \<^verbatim>\<open>maybe_switch_forks\<close> of
  \<^verbatim>\<open>libraries/chain/controller.cpp\<close>.

  The chain database is its contents with the contents at the start of every undo session, newest first; theory \<open>Chainbase\<close> shows that
  the undo stack of the code is that.  What a block does to the contents is the field \<open>run_block\<close> of the environment: from the header state of the
  head, the block and its status to the block as it is stored and the new contents, or an exception.  A method that may throw after it
  has changed something returns the new state together with the exception.

  The read mode \<^verbatim>\<open>IRREVERSIBLE\<close>, in which blocks are applied by the handler of the signal, is not modelled; in the other modes the
  handler does not touch the fork database, so it runs here when the fork database is done.  Signals for plugins and the list
  of unapplied transactions are left out: nothing depends on them.
\<close>

section \<open>State\<close>

datatype block_status = Irreversible | Validated | Complete | Incomplete

record 'd versioned =
  contents :: 'd
  versions :: "'d list"
  version_num :: nat

definition start_version :: "'d versioned \<Rightarrow> 'd versioned" where
  "start_version db = db\<lparr>versions := contents db # versions db, version_num := version_num db + 1\<rparr>"

definition undo_version :: "'d versioned \<Rightarrow> 'd versioned" where
  "undo_version db =
     (case versions db of
        [] \<Rightarrow> db
      | d # ds \<Rightarrow> db\<lparr>contents := d, versions := ds, version_num := version_num db - 1\<rparr>)"

text \<open>A commit drops the oldest sessions, up to the given revision.\<close>

definition commit_version :: "nat \<Rightarrow> 'd versioned \<Rightarrow> 'd versioned" where
  "commit_version n db = db\<lparr>versions := take (version_num db - n) (versions db)\<rparr>"

record 'd node =
  crypto :: chain_crypto
  run_block :: "block_header_state \<Rightarrow> signed_block \<Rightarrow> block_status \<Rightarrow> 'd \<Rightarrow> (signed_block \<times> 'd) result"
  force_all_checks :: bool
  disable_replay_opts :: bool
  replaying :: bool

record 'd controller =
  chain_db :: "'d versioned"
  reversible_blocks :: "(nat \<times> signed_block) list"
  blog :: "signed_block list"
  chain_head :: sha256
  fork_db :: fork_database
  pending :: "block_state option"

abbreviation "has_pending c \<equiv> pending c \<noteq> None"
abbreviation "block_at_head c \<equiv> objects (fork_db c) (chain_head c)"

section \<open>Methods that throw in the middle\<close>

type_synonym 'c procedure = "'c \<Rightarrow> unit result \<times> 'c"

definition and_then :: "'c procedure \<Rightarrow> 'c procedure \<Rightarrow> 'c procedure" where
  "and_then f g c = (case f c of (Inl e, c) \<Rightarrow> (Inl e, c) | (Inr _, c) \<Rightarrow> g c)"

definition require :: "('c \<Rightarrow> bool) \<Rightarrow> chain_exception \<Rightarrow> 'c procedure" where
  "require p e c = (if p c then (Inr (), c) else (Inl e, c))"

definition throw :: "chain_exception \<Rightarrow> 'c procedure" where
  "throw e c = (Inl e, c)"

primrec for_each :: "('a \<Rightarrow> 'c procedure) \<Rightarrow> 'a list \<Rightarrow> 'c procedure" where
  "for_each f [] c = (Inr (), c)"
| "for_each f (x # xs) c = and_then (f x) (for_each f xs) c"

text \<open>\<^verbatim>\<open>catch( const fc::exception& e )\<close>.\<close>

definition catching :: "'c procedure \<Rightarrow> (chain_exception \<Rightarrow> 'c procedure) \<Rightarrow> 'c procedure" where
  "catching f h c =
     (case f c of (Inl e, c) \<Rightarrow> if e = undefined_behaviour then (Inl e, c) else h e c | (Inr _, c) \<Rightarrow> (Inr (), c))"

text \<open>An operation of the fork database that leaves it as it was when it throws.\<close>

definition on_forks :: "(fork_database \<Rightarrow> fork_database result) \<Rightarrow> 'd controller procedure" where
  "on_forks f c = (case f (fork_db c) of Inl e \<Rightarrow> (Inl e, c) | Inr db \<Rightarrow> (Inr (), c\<lparr>fork_db := db\<rparr>))"

definition mark_block :: "sha256 \<Rightarrow> bool \<Rightarrow> 'd controller procedure" where
  "mark_block i in_chain c = on_forks (mark_in_current_chain (objects (fork_db c) i) in_chain) c"

definition validate_block :: "sha256 \<Rightarrow> bool \<Rightarrow> 'd controller procedure" where
  "validate_block i valid c = on_forks (set_validity (objects (fork_db c) i) valid) c"

definition set_head :: "sha256 \<Rightarrow> 'd controller procedure" where
  "set_head i c = (Inr (), c\<lparr>chain_head := i\<rparr>)"

section \<open>Blocks of the chain\<close>

definition pop_block :: "'d controller procedure" where
  "pop_block c =
     (case get_block (bs_prev (block_at_head c)) (fork_db c) of
        None \<Rightarrow> (Inl block_validate_exception, c)
      | Some prev \<Rightarrow> (Inr (), c\<lparr>reversible_blocks := map_del (bs_num (block_at_head c)) (reversible_blocks c),
          chain_head := bs_id prev, chain_db := undo_version (chain_db c)\<rparr>))"

definition skip_db_sessions :: "'d node \<Rightarrow> block_status \<Rightarrow> bool" where
  "skip_db_sessions env s \<longleftrightarrow> s = Irreversible \<and> \<not> disable_replay_opts env"

text \<open>
  \<open>apply_block\<close> from the start of the pending block to its end.  When it throws, the pending block and its session are dropped, which
  undoes what it did.  Without a session, in the replay of the log, an exception ends the program.  A reversible block with the
  same number makes \<open>commit_block\<close> throw.
\<close>

definition apply_block :: "'d node \<Rightarrow> signed_block \<Rightarrow> block_status \<Rightarrow> 'd controller procedure" where
  "apply_block env b s c =
     (if has_pending c then (Inl block_validate_exception, c)
      else if \<not> skip_db_sessions env s \<and> version_num (chain_db c) \<noteq> bs_num (block_at_head c) then (Inl database_exception, c)
      else case run_block env (bhs (block_at_head c)) b s (contents (chain_db c)) of
        Inl e \<Rightarrow> (Inl e, c)
      | Inr (stored, d) \<Rightarrow>
          let db = (if skip_db_sessions env s then chain_db c else start_version (chain_db c))\<lparr>contents := d\<rparr>;
              num = u32 (bs_num (block_at_head c) + 1)
          in if replaying env then (Inr (), c\<lparr>chain_db := db\<rparr>)
             else if num \<in> fst ` set (reversible_blocks c) then (Inl std_exception, c)
             else (Inr (), c\<lparr>chain_db := db, reversible_blocks := map_put num stored (reversible_blocks c)\<rparr>))"

definition apply_known :: "'d node \<Rightarrow> sha256 \<Rightarrow> block_status \<Rightarrow> 'd controller procedure" where
  "apply_known env i s c =
     (case bs_block (objects (fork_db c) i) of None \<Rightarrow> (Inl undefined_behaviour, c) | Some b \<Rightarrow> apply_block env b s c)"

definition on_irreversible :: "'d node \<Rightarrow> sha256 \<Rightarrow> 'd controller procedure" where
  "on_irreversible env i c =
     (let s = objects (fork_db c) i in
      if blog c = [] then (Inl block_log_exception, c)
      else
        let log_head = last (blog c); lh_block_num = header_block_num log_head;
            c = c\<lparr>chain_db := commit_version (bs_num s) (chain_db c)\<rparr>
        in if bs_num s \<le> lh_block_num then (Inr (), c)
           else if u32_sub (bs_num s) 1 \<noteq> lh_block_num then (Inl unlinkable_block_exception, c)
           else case bs_block s of
             None \<Rightarrow> (Inl undefined_behaviour, c)
           | Some b \<Rightarrow>
               if previous b \<noteq> header_id (crypto env) log_head then (Inl unlinkable_block_exception, c)
               else (Inr (), c\<lparr>blog := blog c @ [b],
                       reversible_blocks := dropWhile (\<lambda>(num, _). num \<le> bs_num s) (reversible_blocks c)\<rparr>))"

text \<open>The handler for the blocks that an operation of the fork database has signalled.\<close>

definition deliver_irreversible :: "'d node \<Rightarrow> nat \<Rightarrow> 'd controller procedure" where
  "deliver_irreversible env already c = for_each (on_irreversible env) (drop already (signalled (fork_db c))) c"

section \<open>Fork switching\<close>

definition pop_marked :: "sha256 \<Rightarrow> 'd controller procedure" where
  "pop_marked i = and_then (mark_block i False) pop_block"

definition reapply :: "'d node \<Rightarrow> sha256 \<Rightarrow> 'd controller procedure" where
  "reapply env i = and_then (apply_known env i Validated) (and_then (set_head i) (mark_block i True))"

definition switch_one :: "'d node \<Rightarrow> sha256 \<Rightarrow> 'd controller procedure" where
  "switch_one env i c =
     and_then (apply_known env i (if validated (objects (fork_db c) i) then Validated else Complete))
       (and_then (set_head i) (and_then (mark_block i True) (validate_block i True))) c"

text \<open>
  The new branch is applied from its oldest block on; \<open>applied\<close> has those that are applied, newest first, and \<open>old\<close> the old branch, newest first.
\<close>

definition revert_switch :: "'d node \<Rightarrow> sha256 \<Rightarrow> sha256 list \<Rightarrow> sha256 list \<Rightarrow> sha256 \<Rightarrow> chain_exception \<Rightarrow> 'd controller procedure" where
  "revert_switch env common applied old i e =
     and_then (validate_block i False)
    (and_then (for_each pop_marked applied)
    (and_then (require (\<lambda>c. chain_head c = common) fork_database_exception)
    (and_then (for_each (reapply env) (rev old))
    (throw e))))"

primrec switch_branch :: "'d node \<Rightarrow> sha256 \<Rightarrow> sha256 list \<Rightarrow> sha256 list \<Rightarrow> sha256 list \<Rightarrow> 'd controller procedure" where
  "switch_branch env common old applied [] c = (Inr (), c)"
| "switch_branch env common old applied (i # is) c =
     (case switch_one env i c of
        (Inr _, c) \<Rightarrow> switch_branch env common old (i # applied) is c
      | (Inl e, c) \<Rightarrow> if e = undefined_behaviour then (Inl e, c) else revert_switch env common applied old i e c)"

definition switch_forks :: "'d node \<Rightarrow> sha256 \<Rightarrow> 'd controller procedure" where
  "switch_forks env new_head c =
     (case fetch_branch_from new_head (chain_head c) (fork_db c) of
        Inl e \<Rightarrow> (Inl e, c)
      | Inr (new, old) \<Rightarrow>
          let common = bs_prev (last old) in
          and_then (for_each pop_marked (map bs_id old))
         (and_then (require (\<lambda>c. chain_head c = common) fork_database_exception)
         (switch_branch env common (map bs_id old) [] (rev (map bs_id new)))) c)"

definition extend_chain :: "'d node \<Rightarrow> block_status \<Rightarrow> sha256 \<Rightarrow> 'd controller procedure" where
  "extend_chain env s i =
     catching (and_then (apply_known env i s) (and_then (mark_block i True) (and_then (validate_block i True) (set_head i))))
       (\<lambda>e. and_then (validate_block i False) (throw e))"

definition maybe_switch_forks :: "'d node \<Rightarrow> block_status \<Rightarrow> 'd controller procedure" where
  "maybe_switch_forks env s c =
     (case fork_head (fork_db c) of
        None \<Rightarrow> (Inl undefined_behaviour, c)
      | Some new_head \<Rightarrow>
          if bs_prev (objects (fork_db c) new_head) = chain_head c then extend_chain env s new_head c
          else if new_head \<noteq> chain_head c then switch_forks env new_head c
          else (Inr (), c))"

section \<open>Produced blocks\<close>

text \<open>
  The pending block has the newest session of the database.  \<open>commit_block\<close> adds a block that was produced by the node itself to the fork database; the
  head of the controller becomes the head of the fork database before the check that this is the new block.
\<close>

definition abort_block :: "'d controller \<Rightarrow> 'd controller" where
  "abort_block c = (if has_pending c then c\<lparr>pending := None, chain_db := undo_version (chain_db c)\<rparr> else c)"

definition adopt_produced :: "'d node \<Rightarrow> block_state \<Rightarrow> 'd controller procedure" where
  "adopt_produced env p c =
     (case fork_add_state (p\<lparr>validated := True\<rparr>) (fork_db c) of
        Inl e \<Rightarrow> (Inl e, c)
      | Inr db \<Rightarrow>
          and_then (deliver_irreversible env (length (signalled (fork_db c))))
            (\<lambda>c. case fork_head (fork_db c) of
                   None \<Rightarrow> (Inl undefined_behaviour, c)
                 | Some h \<Rightarrow> and_then (set_head h) (require (\<lambda>c. chain_head c = bs_id p) fork_database_exception) c)
            (c\<lparr>fork_db := db\<rparr>))"

definition store_reversible :: "'d node \<Rightarrow> block_state \<Rightarrow> 'd controller procedure" where
  "store_reversible env p c =
     (if replaying env then (Inr (), c)
      else if bs_num p \<in> fst ` set (reversible_blocks c) then (Inl logic_error, c)
      else case bs_block p of
        None \<Rightarrow> (Inl undefined_behaviour, c)
      | Some b \<Rightarrow> (Inr (), c\<lparr>reversible_blocks := map_put (bs_num p) b (reversible_blocks c)\<rparr>))"

definition commit_block :: "'d node \<Rightarrow> bool \<Rightarrow> 'd controller procedure" where
  "commit_block env add_to_fork_db c =
     (case pending c of
        None \<Rightarrow> (Inl undefined_behaviour, c)
      | Some p \<Rightarrow>
          case and_then (if add_to_fork_db then adopt_produced env p else (\<lambda>c. (Inr (), c))) (store_reversible env p) c of
            (Inl e, c) \<Rightarrow> (Inl e, abort_block c)
          | (Inr _, c) \<Rightarrow> (Inr (), c\<lparr>pending := None\<rparr>))"

section \<open>Received blocks and confirmations\<close>

definition push_block :: "'d node \<Rightarrow> signed_block \<Rightarrow> block_status \<Rightarrow> 'd controller procedure" where
  "push_block env b s c =
     (if has_pending c then (Inl block_validate_exception, c)
      else if s = Incomplete then (Inl block_validate_exception, c)
      else
        let trust = (\<not> force_all_checks env \<and> (s = Irreversible \<or> s = Validated));
            already = length (signalled (fork_db c))
        in case fork_add (crypto env) b trust (fork_db c) of
             Inl e \<Rightarrow> (Inl e, c)
           | Inr (_, db) \<Rightarrow> and_then (deliver_irreversible env already) (maybe_switch_forks env s) (c\<lparr>fork_db := db\<rparr>))"

definition push_confirmation :: "'d node \<Rightarrow> header_confirmation \<Rightarrow> 'd controller procedure" where
  "push_confirmation env conf c =
     (if has_pending c then (Inl block_validate_exception, c)
      else and_then (on_forks (fork_confirm (crypto env) conf)) (maybe_switch_forks env Complete) c)"

section \<open>Chains of blocks\<close>

text \<open>The ids of consecutive blocks, the first of which has the block \<open>r\<close> below it.\<close>

primrec linked :: "(sha256 \<Rightarrow> block_state) \<Rightarrow> sha256 \<Rightarrow> sha256 list \<Rightarrow> bool" where
  "linked objs r [] \<longleftrightarrow> True"
| "linked objs r (i # is) \<longleftrightarrow> bs_prev (objs i) = r \<and> linked objs i is"

lemma linked_append [simp]: "linked objs r (xs @ ys) \<longleftrightarrow> linked objs r xs \<and> linked objs (last (r # xs)) ys"
  by (induction xs arbitrary: r) auto

lemma linked_cong: "linked objs r xs \<Longrightarrow> (\<And>i. i \<in> set xs \<Longrightarrow> bs_prev (objs' i) = bs_prev (objs i)) \<Longrightarrow> linked objs' r xs"
  by (induction xs arbitrary: r) auto

lemma fork_prev_num:
  assumes "fork_ok db" "i \<in> set (by_block_id db)"
  shows "num_from_id i = bs_num (objects db i)" "num_from_id i = Suc (num_from_id (bs_prev (objects db i)))"
proof -
  obtain r rn where t: "index_wf db" "fork_tree r rn db" "signals_ok r rn db" using assms(1) by (auto simp: fork_ok_def)
  show n: "num_from_id i = bs_num (objects db i)" by (rule tree_num_id [OF t(2,1) assms(2)])
  have "attached r rn db i" using t(2) assms(2) by (simp add: fork_tree_def)
  then show "num_from_id i = Suc (num_from_id (bs_prev (objects db i)))"
    using n t(3) tree_num_id [OF t(2,1)] by (auto simp: attached_def signals_ok_def)
qed

lemma linked_nums:
  assumes "fork_ok db" "set ids \<subseteq> set (by_block_id db)" "linked (objects db) r ids"
  shows "sorted_wrt (\<lambda>i j. num_from_id i < num_from_id j) (r # ids)"
  using assms(2,3)
proof (induction ids arbitrary: r)
  case (Cons i ids)
  then have "num_from_id r < num_from_id i" using fork_prev_num(2) [OF assms(1), of i] by simp
  moreover have "sorted_wrt (\<lambda>i j. num_from_id i < num_from_id j) (i # ids)" using Cons.IH [of i] Cons.prems by simp
  ultimately show ?case by (auto intro: order.strict_trans)
qed simp

lemma linked_distinct:
  assumes "fork_ok db" "set ids \<subseteq> set (by_block_id db)" "linked (objects db) r ids"
  shows "distinct (r # ids)"
proof -
  have "sorted_wrt (<) (map num_from_id (r # ids))" using linked_nums [OF assms] unfolding sorted_wrt_map .
  then have "distinct (map num_from_id (r # ids))" by (simp only: strict_sorted_iff)
  then show ?thesis unfolding distinct_map by simp
qed

text \<open>A block that is not part of a chain down to the bottom has no block of the chain built on it.\<close>

definition spine :: "fork_database \<Rightarrow> sha256 \<Rightarrow> sha256 list \<Rightarrow> bool" where
  "spine db r ids \<longleftrightarrow> set ids \<subseteq> set (by_block_id db) \<and> linked (objects db) r ids
     \<and> (r \<in> set (by_block_id db) \<longrightarrow> bs_prev (objects db r) \<notin> set (by_block_id db))"

lemma spine_distinct: "fork_ok db \<Longrightarrow> spine db r ids \<Longrightarrow> distinct (r # ids)"
  unfolding spine_def by (rule linked_distinct) auto

lemma spine_nums: "fork_ok db \<Longrightarrow> spine db r ids \<Longrightarrow> sorted_wrt (\<lambda>i j. num_from_id i < num_from_id j) (r # ids)"
  unfolding spine_def by (rule linked_nums) auto

lemma sorted_last_max: "sorted_wrt (\<lambda>i j. f i < (f j :: nat)) xs \<Longrightarrow> j \<in> set xs \<Longrightarrow> f j \<le> f (last xs)"
  by (induction xs rule: rev_induct) (auto simp: sorted_wrt_append)

lemma rev_last: "xs \<noteq> [] \<Longrightarrow> rev xs = last xs # rev (butlast xs)"
  by (induction xs rule: rev_induct) simp_all

lemma linked_prev: "linked objs r ids \<Longrightarrow> j \<in> set ids \<Longrightarrow> bs_prev (objs j) \<in> set (r # ids)"
  by (induction ids arbitrary: r) auto

lemma spine_built_on:
  assumes "spine db r ids" "built_on db i j" "j \<in> set (r # ids)" "i \<in> set (by_block_id db)"
  shows "i \<in> set (r # ids)"
  using assms(2,3)
proof induction
  case (built_on_step j k)
  show ?case
  proof (cases "k \<in> set ids")
    case True
    then have "j \<in> set (r # ids)" using linked_prev [of "objects db" r ids k] assms(1) built_on_step(3) by (simp add: spine_def)
    then show ?thesis by (rule built_on_step.IH)
  next
    case False
    then have k: "k = r" "j \<notin> set (by_block_id db)" using built_on_step assms(1) by (auto simp: spine_def)
    from built_on_step(1) have "j = i \<or> j \<in> set (by_block_id db)" by (cases rule: built_on.cases) auto
    with k assms(4) show ?thesis by simp
  qed
qed

text \<open>The blocks from the head down to one above a known block are the end of its chain.\<close>

lemma spine_suffix:
  assumes "spine db r ids" "branch db q" "index_wf db" "hd q = objects db (last (r # ids))" "last (r # ids) \<in> set (by_block_id db)"
    and "bs_prev (last q) \<in> set (by_block_id db)"
  shows "\<exists>base. ids = base @ rev (map bs_id q) \<and> last (r # base) = bs_prev (last q)"
  using assms(1,2,4-6)
proof (induction q arbitrary: ids)
  case (Cons b q)
  have id: "bs_id (objects db i) = i" if "i \<in> set (by_block_id db)" for i using that assms(3) by (simp add: index_wf_def)
  let ?h = "last (r # ids)"
  have b: "b = objects db ?h" "bs_id b = ?h" using Cons.prems id by simp_all
  have prev: "bs_prev b \<in> set (by_block_id db)"
  proof (cases q)
    case (Cons b' q')
    then have "bs_prev b = bs_id b'" "\<exists>i \<in> set (by_block_id db). b' = objects db i" using Cons.prems(2) by (auto simp: branch_def)
    then show ?thesis using id by auto
  qed (use Cons.prems(5) in simp)
  have "ids \<noteq> []"
  proof
    assume "ids = []"
    then show False using prev b(1) Cons.prems(1,4) by (simp add: spine_def)
  qed
  then obtain xs where xs: "ids = xs @ [?h]" by (metis append_butlast_last_id last.simps)
  have sp: "spine db r xs" "bs_prev b = last (r # xs)" using Cons.prems(1) b(1) by (subst (asm) (1) xs; simp add: spine_def)+
  show ?case
  proof (cases "q = []")
    case True
    then show ?thesis using xs b sp(2) by (intro exI [of _ xs]) simp
  next
    case False
    then have "branch db q" "hd q = objects db (last (r # xs))"
      using Cons.prems(2) sp(2) id by (auto simp: branch_def neq_Nil_conv)
    with Cons.IH [OF sp(1)] prev Cons.prems(5) False sp(2) obtain base where
      "xs = base @ rev (map bs_id q)" "last (r # base) = bs_prev (last q)" by auto
    then show ?thesis using xs b False by (intro exI [of _ base]) simp
  qed
qed (simp add: branch_def)

section \<open>The controller in step with the fork database\<close>

text \<open>
  What fork switching relies on in the execution of blocks: a block that was applied is applied again, as a validated block, with the same result,
  and the confirmations of the block before it do not matter.
\<close>

locale block_runner =
  fixes env :: "'d node"
  assumes rerun: "s \<noteq> Incomplete \<Longrightarrow> run_block env h b s d = Inr r \<Longrightarrow> run_block env h b Validated d = Inr r"
    and run_core: "run_block env (h\<lparr>bft_irreversible_blocknum := x, confirmations := y\<rparr>) b s d = run_block env h b s d"

text \<open>
  \<open>S\<close> and \<open>R\<close> give the contents of the database after a block and the block as it was stored.  Every validated block of the fork database
  leads, from the contents at its predecessor, to the contents at it.
\<close>

definition applied :: "'d node \<Rightarrow> (sha256 \<Rightarrow> 'd) \<Rightarrow> (sha256 \<Rightarrow> signed_block) \<Rightarrow> sha256 \<Rightarrow> fork_database \<Rightarrow> sha256 \<Rightarrow> bool" where
  "applied env S R r db i \<longleftrightarrow>
     (let p = bs_prev (objects db i) in p \<in> set (by_block_id db) \<longrightarrow>
        (p = r \<or> validated (objects db p))
        \<and> (\<exists>b. bs_block (objects db i) = Some b \<and> run_block env (bhs (objects db p)) b Validated (S p) = Inr (R i, S i)))"

definition block_known :: "chain_crypto \<Rightarrow> fork_database \<Rightarrow> sha256 \<Rightarrow> bool" where
  "block_known cr db i \<longleftrightarrow> (\<exists>b. bs_block (objects db i) = Some b \<and> header_id cr b = i \<and> previous b = bs_prev (objects db i))"

definition flags_ok :: "'d node \<Rightarrow> (sha256 \<Rightarrow> 'd) \<Rightarrow> (sha256 \<Rightarrow> signed_block) \<Rightarrow> sha256 \<Rightarrow> sha256 list \<Rightarrow> fork_database \<Rightarrow> bool" where
  "flags_ok env S R r ids db \<longleftrightarrow> (\<forall>i \<in> set (by_block_id db).
     (in_current_chain (objects db i) \<longleftrightarrow> i \<in> set ids) \<and> (i \<in> set ids \<longrightarrow> validated (objects db i))
     \<and> block_known (crypto env) db i \<and> (validated (objects db i) \<longrightarrow> applied env S R r db i))"

definition stores_ok :: "'d node \<Rightarrow> (sha256 \<Rightarrow> 'd) \<Rightarrow> (sha256 \<Rightarrow> signed_block) \<Rightarrow> sha256 \<Rightarrow> sha256 list \<Rightarrow> 'd controller \<Rightarrow> bool" where
  "stores_ok env S R r ids c \<longleftrightarrow> contents (chain_db c) # versions (chain_db c) = map S (rev (r # ids))
     \<and> version_num (chain_db c) = num_from_id (last (r # ids)) \<and> reversible_blocks c = map (\<lambda>i. (num_from_id i, R i)) ids
     \<and> chain_head c = last (r # ids) \<and> \<not> has_pending c \<and> blog c \<noteq> [] \<and> header_id (crypto env) (last (blog c)) = r"

definition sync :: "'d node \<Rightarrow> (sha256 \<Rightarrow> 'd) \<Rightarrow> (sha256 \<Rightarrow> signed_block) \<Rightarrow> sha256 \<Rightarrow> sha256 list \<Rightarrow> 'd controller \<Rightarrow> bool" where
  "sync env S R r ids c \<longleftrightarrow> fork_ok (fork_db c) \<and> spine (fork_db c) r ids \<and> chain_head c \<in> set (by_block_id (fork_db c))
     \<and> flags_ok env S R r ids (fork_db c) \<and> stores_ok env S R r ids c \<and> \<not> replaying env"

lemma and_then_ok: "f c = (Inr x, c1) \<Longrightarrow> and_then f g c = g c1"
  by (simp add: and_then_def)

lemma for_each_append: "for_each f (xs @ ys) c = and_then (for_each f xs) (for_each f ys) c"
  by (induction xs arbitrary: c) (auto simp: and_then_def split: prod.splits sum.splits)

text \<open>A database in which only the marks of one block are different.\<close>

definition flagged :: "sha256 \<Rightarrow> bool \<Rightarrow> bool \<Rightarrow> fork_database \<Rightarrow> fork_database \<Rightarrow> bool" where
  "flagged i m v db db' \<longleftrightarrow> fork_ok db' \<and> by_block_id db' = by_block_id db \<and> fork_head db' = fork_head db \<and> signalled db' = signalled db
     \<and> objects db' = (objects db)(i := (objects db i)\<lparr>in_current_chain := m, validated := v\<rparr>)"

lemma mark_block_flagged:
  assumes "fork_ok (fork_db c)" "i \<in> set (by_block_id (fork_db c))"
  shows "\<exists>db. mark_block i m c = (Inr (), c\<lparr>fork_db := db\<rparr>) \<and> flagged i m (validated (objects (fork_db c) i)) (fork_db c) db"
proof -
  let ?db = "fork_db c" and ?h = "objects (fork_db c) i"
  have id: "bs_id ?h = i" using assms by (simp add: fork_ok_def index_wf_def)
  obtain db where m: "mark_in_current_chain ?h m ?db = Inr db"
    using assms(2) id unfolding mark_in_current_chain_def bes_assert_def by (cases "in_current_chain ?h = m") auto
  have ok: "fork_ok db" using ensuresD [OF mark_in_current_chain_ok [OF assms(1), of ?h m] m] id by simp
  have "by_block_id db = by_block_id ?db \<and> fork_head db = fork_head ?db \<and> signalled db = signalled ?db
    \<and> objects db = (objects ?db)(i := ?h\<lparr>in_current_chain := m\<rparr>)"
    using m id assms(2) by (auto simp: mark_in_current_chain_def bes_assert_def index_modify_def Let_def fun_eq_iff split: if_splits)
  with ok m show ?thesis by (auto simp: mark_block_def on_forks_def flagged_def intro!: exI [of _ db])
qed

lemma validate_block_flagged:
  assumes "fork_ok (fork_db c)" "i \<in> set (by_block_id (fork_db c))"
  shows "\<exists>db. validate_block i True c = (Inr (), c\<lparr>fork_db := db\<rparr>) \<and> flagged i (in_current_chain (objects (fork_db c) i)) True (fork_db c) db"
proof -
  let ?db = "fork_db c" and ?h = "objects (fork_db c) i"
  have id: "bs_id ?h = i" using assms by (simp add: fork_ok_def index_wf_def)
  obtain db where m: "set_validity ?h True ?db = Inr db" by (simp add: set_validity_def)
  have "fork_ok db" using ensuresD [OF set_validity_ok [OF assms(1)] m] .
  then show ?thesis using m id by (auto simp: validate_block_def on_forks_def flagged_def set_validity_def)
qed

lemma flagged_trans: "flagged i m v db db1 \<Longrightarrow> flagged i m' v' db1 db2 \<Longrightarrow> flagged i m' v' db db2"
  by (simp add: flagged_def)

lemma flagged_simps:
  assumes "flagged i m v db db'"
  shows "fork_ok db'" "by_block_id db' = by_block_id db" "fork_head db' = fork_head db" "signalled db' = signalled db"
    "bhs (objects db' j) = bhs (objects db j)" "bs_block (objects db' j) = bs_block (objects db j)"
    "in_current_chain (objects db' j) = (if j = i then m else in_current_chain (objects db j))"
    "validated (objects db' j) = (if j = i then v else validated (objects db j))"
  using assms by (simp_all add: flagged_def)

lemma flagged_spine: "flagged i m v db db' \<Longrightarrow> spine db' r ids \<longleftrightarrow> spine db r ids"
  unfolding spine_def by (auto simp: flagged_simps intro: linked_cong)

lemma flagged_known: "flagged i m v db db' \<Longrightarrow> block_known cr db' j \<longleftrightarrow> block_known cr db j"
  by (simp add: block_known_def flagged_simps)

lemma applied_mono:
  assumes "applied env S R r db j" "by_block_id db' = by_block_id db" "\<And>k. bhs (objects db' k) = bhs (objects db k)"
    "\<And>k. bs_block (objects db' k) = bs_block (objects db k)" "\<And>k. validated (objects db k) \<Longrightarrow> validated (objects db' k)"
  shows "applied env S R r db' j"
  using assms by (auto simp: applied_def Let_def)

lemma syncD:
  assumes "sync env S R r ids c"
  shows "fork_ok (fork_db c)" "spine (fork_db c) r ids" "last (r # ids) \<in> set (by_block_id (fork_db c))" "chain_head c = last (r # ids)"
    "flags_ok env S R r ids (fork_db c)" "stores_ok env S R r ids c" "\<not> replaying env" "\<not> has_pending c"
  using assms by (auto simp: sync_def stores_ok_def)

text \<open>A validated block has its contents, and so its result, fixed.\<close>

lemma map_del_last: "k \<notin> fst ` set m \<Longrightarrow> map_del k (m @ [(k, v)]) = m"
  by (induction m) (auto simp: map_del_def)

lemma map_put_last: "\<forall>x \<in> fst ` set m. x < k \<Longrightarrow> map_put k v m = m @ [(k, v)]"
  by (induction m) auto

text \<open>A step back.\<close>

lemma pop_marked_sync:
  assumes s: "sync env S R r (ids @ [i]) c" and p: "last (r # ids) \<in> set (by_block_id (fork_db c))"
  shows "\<exists>c'. pop_marked i c = (Inr (), c') \<and> sync env S R r ids c' \<and> flagged i False True (fork_db c) (fork_db c') \<and> blog c' = blog c"
proof -
  note d = syncD [OF s]
  let ?db = "fork_db c"
  have i: "i \<in> set (by_block_id ?db)" "chain_head c = i" "validated (objects ?db i)" "bs_prev (objects ?db i) = last (r # ids)"
    using d by (auto simp: spine_def flags_ok_def)
  have dist: "distinct (r # ids @ [i])" by (rule spine_distinct [OF d(1,2)])
  obtain db where m: "mark_block i False c = (Inr (), c\<lparr>fork_db := db\<rparr>)" "flagged i False True ?db db"
    using mark_block_flagged [OF d(1) i(1), of False] i(3) by auto
  note f = flagged_simps [OF m(2)]
  have num: "num_from_id i = bs_num (objects ?db i)" "num_from_id i = Suc (num_from_id (last (r # ids)))"
    using fork_prev_num [OF d(1) i(1)] i(4) by simp_all
  have pid: "bs_id (objects db (last (r # ids))) = last (r # ids)" using f(1) p f(2) by (simp add: fork_ok_def index_wf_def)
  let ?c = "c\<lparr>fork_db := db, reversible_blocks := map_del (num_from_id i) (reversible_blocks c), chain_head := last (r # ids),
    chain_db := undo_version (chain_db c)\<rparr>"
  have pop: "pop_marked i c = (Inr (), ?c)"
    using i(2,4) p f(2,5) pid num(1) by (simp add: pop_marked_def and_then_def m(1) pop_block_def get_block_def)
  have key: "num_from_id i \<notin> fst ` set (map (\<lambda>i. (num_from_id i, R i)) ids)"
  proof -
    have "sorted_wrt (\<lambda>i j. num_from_id i < num_from_id j) (r # ids @ [i])"
      by (rule spine_nums [OF d(1,2)])
    then show ?thesis by (fastforce simp: sorted_wrt_append)
  qed
  have st: "stores_ok env S R r ids ?c"
  proof -
    have "rev (r # ids) = last (r # ids) # rev (butlast (r # ids))" by (rule rev_last) simp
    then have "map S (rev (r # ids)) = S (last (r # ids)) # map S (rev (butlast (r # ids)))" by simp
    moreover have "contents (chain_db c) # versions (chain_db c) = S i # map S (rev (r # ids))" using d(6) by (simp add: stores_ok_def)
    ultimately show ?thesis using d(6) num(2) map_del_last [OF key] unfolding stores_ok_def undo_version_def by simp
  qed
  have fl: "flags_ok env S R r ids db"
    unfolding flags_ok_def
  proof (intro ballI conjI impI)
    fix j assume j: "j \<in> set (by_block_id db)"
    then have j': "in_current_chain (objects ?db j) \<longleftrightarrow> j \<in> set (ids @ [i])" "j \<in> set (ids @ [i]) \<Longrightarrow> validated (objects ?db j)"
      "block_known (crypto env) ?db j" "validated (objects ?db j) \<Longrightarrow> applied env S R r ?db j"
      using d(5) f(2) by (auto simp: flags_ok_def)
    show "in_current_chain (objects db j) \<longleftrightarrow> j \<in> set ids" using j'(1) f(7) dist by auto
    show "validated (objects db j)" if "j \<in> set ids" using that j'(2) f(8) by auto
    show "block_known (crypto env) db j" using j'(3) flagged_known [OF m(2)] by simp
    assume "validated (objects db j)"
    then have "applied env S R r ?db j" using j'(4) f(8) i(3) by (auto split: if_splits)
    then show "applied env S R r db j" by (rule applied_mono) (use f i(3) in auto)
  qed
  have sp: "spine db r ids" using d(2) flagged_spine [OF m(2), of r "ids"] by (auto simp: spine_def)
  have "sync env S R r ids ?c" using f(1,2) sp p fl st d(7) by (simp add: sync_def)
  then show ?thesis using pop m(2) by auto
qed

text \<open>A step forward: the block on top of the head is run, and then becomes the head.\<close>

definition ran :: "'d node \<Rightarrow> sha256 \<Rightarrow> signed_block \<Rightarrow> 'd \<Rightarrow> 'd controller \<Rightarrow> 'd controller \<Rightarrow> bool" where
  "ran env i st d c c' \<longleftrightarrow>
     (\<exists>b. bs_block (objects (fork_db c) i) = Some b
        \<and> run_block env (bhs (objects (fork_db c) (chain_head c))) b Validated (contents (chain_db c)) = Inr (st, d))
     \<and> c' = c\<lparr>chain_db := \<lparr>contents = d, versions = contents (chain_db c) # versions (chain_db c), version_num = Suc (version_num (chain_db c))\<rparr>,
              reversible_blocks := reversible_blocks c @ [(num_from_id i, st)]\<rparr>"

lemma flagged_id: "fork_ok db \<Longrightarrow> in_current_chain (objects db i) = m \<Longrightarrow> validated (objects db i) = v \<Longrightarrow> flagged i m v db db"
  by (auto simp: flagged_def fun_eq_iff)

context block_runner
begin

lemma apply_known_sync:
  assumes s: "sync env S R r ids c" and i: "i \<in> set (by_block_id (fork_db c))" "bs_prev (objects (fork_db c) i) = chain_head c"
    and st: "st \<noteq> Incomplete" "\<not> skip_db_sessions env st"
  shows "(\<exists>e. apply_known env i st c = (Inl e, c)
        \<and> (\<exists>b. bs_block (objects (fork_db c) i) = Some b \<and> run_block env (bhs (objects (fork_db c) (chain_head c))) b st (contents (chain_db c)) = Inl e))
     \<or> (\<exists>blk d c'. apply_known env i st c = (Inr (), c') \<and> ran env i blk d c c')"
proof -
  note d = syncD [OF s]
  let ?db = "fork_db c"
  obtain b where b: "bs_block (objects ?db i) = Some b" using d(5) i(1) by (auto simp: flags_ok_def block_known_def)
  have h: "chain_head c \<in> set (by_block_id ?db)" using d(3,4) by simp
  have num: "num_from_id i = Suc (bs_num (block_at_head c))" "version_num (chain_db c) = bs_num (block_at_head c)"
    using fork_prev_num [OF d(1) i(1)] fork_prev_num(1) [OF d(1) h] i(2) d(4,6) by (simp_all add: stores_ok_def)
  have lt: "\<forall>x \<in> fst ` set (reversible_blocks c). x < num_from_id i"
  proof -
    have "num_from_id j \<le> num_from_id (last (r # ids))" if "j \<in> set (r # ids)" for j
      by (rule sorted_last_max [OF spine_nums [OF d(1,2)] that])
    then show ?thesis using num d(6) fork_prev_num(1) [OF d(1) h] by (auto simp: stores_ok_def less_Suc_eq_le)
  qed
  then have fresh: "num_from_id i \<notin> fst ` set (reversible_blocks c)" by blast
  have "header_state_ok (bhs (objects ?db i))" using d(1) i(1) by (auto simp: fork_ok_def fork_tree_def)
  then have n: "num_from_id i < 2 ^ 32" using fork_prev_num(1) [OF d(1) i(1)] by (simp add: header_state_ok_def dpos_ok_defs)
  have u: "u32 (bs_num (block_at_head c) + 1) = num_from_id i" using n num(1) by (simp add: u32_def)
  show ?thesis
  proof (cases "run_block env (bhs (block_at_head c)) b st (contents (chain_db c))")
    case (Inl e)
    then show ?thesis using b num d(7,8) st by (simp add: apply_known_def apply_block_def)
  next
    case (Inr x)
    obtain blk d' where x: "x = (blk, d')" by force
    let ?c' = "c\<lparr>chain_db := \<lparr>contents = d', versions = contents (chain_db c) # versions (chain_db c), version_num = Suc (version_num (chain_db c))\<rparr>,
              reversible_blocks := reversible_blocks c @ [(num_from_id i, blk)]\<rparr>"
    have "apply_known env i st c = (Inr (), ?c')"
      using b num d(7,8) st Inr x fresh u map_put_last [OF lt] by (simp add: apply_known_def apply_block_def start_version_def Let_def)
    moreover have "ran env i blk d' c ?c'" using b rerun [OF st(1) Inr] x by (simp add: ran_def)
    ultimately show ?thesis by blast
  qed
qed

text \<open>After the run the block becomes the head: its contents are known from now on.\<close>

lemma adopt_sync:
  assumes s: "sync env S R r ids c" and i: "i \<in> set (by_block_id (fork_db c))" "bs_prev (objects (fork_db c) i) = chain_head c"
    and ran: "ran env i blk d c c1" and f: "flagged i True True (fork_db c) db"
  shows "sync env (S(i := d)) (R(i := blk)) r (ids @ [i]) (c1\<lparr>chain_head := i, fork_db := db\<rparr>)"
    and "validated (objects (fork_db c) i) \<Longrightarrow> S(i := d) = S \<and> R(i := blk) = R"
    and "i \<notin> set (r # ids)"
proof -
  note y = syncD [OF s]
  let ?db = "fork_db c" and ?h = "chain_head c"
  note g = flagged_simps [OF f]
  obtain b where b: "bs_block (objects ?db i) = Some b" "run_block env (bhs (objects ?db ?h)) b Validated (contents (chain_db c)) = Inr (blk, d)"
    using ran by (auto simp: ran_def)
  have c: "contents (chain_db c) = S ?h"
    using y(4,6) rev_last [of "r # ids"] by (simp add: stores_ok_def del: rev.simps)
  have h: "?h \<in> set (by_block_id ?db)" "?h = r \<or> ?h \<in> set ids" using y(3,4) by (auto split: if_splits)
  have hv: "?h = r \<or> validated (objects ?db ?h)" using h y(5) by (auto simp: flags_ok_def)
  have sp: "spine ?db r (ids @ [i])" using y(2,4) i by (simp add: spine_def)
  have dist: "distinct (r # ids @ [i])" by (rule spine_distinct [OF y(1) sp])
  then show new: "i \<notin> set (r # ids)" by auto
  show same: "S(i := d) = S \<and> R(i := blk) = R" if v: "validated (objects ?db i)"
  proof -
    have "applied env S R r ?db i" using y(5) i(1) v by (simp add: flags_ok_def)
    then have "run_block env (bhs (objects ?db ?h)) b Validated (S ?h) = Inr (R i, S i)"
      using h(1) i(2) b(1) by (simp add: applied_def Let_def)
    then show ?thesis using b(2) c by (auto simp: fun_eq_iff)
  qed
  let ?S = "S(i := d)" and ?R = "R(i := blk)" and ?c = "c1\<lparr>chain_head := i, fork_db := db\<rparr>"
  have fl: "flags_ok env ?S ?R r (ids @ [i]) db"
    unfolding flags_ok_def
  proof (intro ballI conjI impI)
    fix j assume j: "j \<in> set (by_block_id db)"
    then have j': "in_current_chain (objects ?db j) \<longleftrightarrow> j \<in> set ids" "j \<in> set ids \<Longrightarrow> validated (objects ?db j)"
      "block_known (crypto env) ?db j" "validated (objects ?db j) \<Longrightarrow> applied env S R r ?db j"
      using y(5) g(2) by (auto simp: flags_ok_def)
    show "in_current_chain (objects db j) \<longleftrightarrow> j \<in> set (ids @ [i])" using j'(1) g(7) by auto
    show "validated (objects db j)" if "j \<in> set (ids @ [i])" using that j'(2) g(8) by auto
    show "block_known (crypto env) db j" using j'(3) flagged_known [OF f] by simp
    assume v: "validated (objects db j)"
    show "applied env ?S ?R r db j"
    proof (cases "j = i")
      case True
      have "?h \<noteq> i" using y(4) new by auto
      with True b c i(2) hv g show ?thesis by (auto simp: applied_def Let_def)
    next
      case False
      then have a: "applied env S R r ?db j" using v j'(4) g(8) by auto
      show ?thesis
      proof (cases "bs_prev (objects ?db j) = i \<and> \<not> validated (objects ?db i)")
        case True
        with a i(1) new show ?thesis by (auto simp: applied_def Let_def)
      next
        case F: False
        have "applied env ?S ?R r ?db j"
        proof (cases "validated (objects ?db i)")
          case True
          then show ?thesis using a same by simp
        next
          case False
          with F a \<open>j \<noteq> i\<close> show ?thesis by (auto simp: applied_def Let_def)
        qed
        then show ?thesis by (rule applied_mono) (use g in auto)
      qed
    qed
  qed
  have "map ?S (rev (r # ids @ [i])) = d # map S (rev (r # ids))" using new by auto
  moreover have "map (\<lambda>j. (num_from_id j, ?R j)) (ids @ [i]) = map (\<lambda>j. (num_from_id j, R j)) ids @ [(num_from_id i, blk)]"
    using new by auto
  moreover have "num_from_id i = Suc (num_from_id (last (r # ids)))" using fork_prev_num(2) [OF y(1) i(1)] i(2) y(4) by simp
  ultimately have "stores_ok env ?S ?R r (ids @ [i]) ?c"
    using y(6) ran unfolding stores_ok_def ran_def by (simp del: rev.simps map_append)
  moreover have "spine db r (ids @ [i])" using sp flagged_spine [OF f] by simp
  ultimately show "sync env ?S ?R r (ids @ [i]) ?c" using g(1,2) i(1) fl y(7) by (simp add: sync_def)
qed

end

text \<open>A block that is not on the chain is removed with everything built on it.\<close>

lemma remove_sync:
  assumes s: "sync env S R r ids c" and i: "i \<in> set (by_block_id (fork_db c))" "i \<notin> set (r # ids)"
  shows "\<exists>db. validate_block i False c = (Inr (), c\<lparr>fork_db := db\<rparr>) \<and> sync env S R r ids (c\<lparr>fork_db := db\<rparr>)
    \<and> restricted (\<lambda>j. \<not> built_on (fork_db c) i j) (fork_db c) db \<and> signalled db = signalled (fork_db c)"
proof -
  note y = syncD [OF s]
  let ?db = "fork_db c"
  have id: "bs_id (objects ?db i) = i" and wf: "index_wf ?db" using y(1) i(1) by (simp_all add: fork_ok_def index_wf_def)
  have out: "\<not> built_on ?db i j" if "j \<in> set (r # ids)" for j using spine_built_on [OF y(2) _ that i(1)] i(2) by blast
  have stay: "last (r # ids) \<in> {j \<in> set (by_block_id ?db). \<not> built_on ?db i j}" using y(3) out by auto
  have "\<exists>db. fork_remove i ?db = Inr db"
  proof -
    have "restricted (\<lambda>j. \<not> built_on ?db i j) ?db (remove_loop [i] ?db)" using remove_loop_filter [OF wf, of "[i]"] by simp
    moreover have "last (r # ids) \<in> set (by_lib_block_num ?db)" using y(3) wf by (simp add: index_wf_def)
    ultimately have "by_lib_block_num (remove_loop [i] ?db) \<noteq> []" using stay by (auto simp: restricted_def filter_empty_conv)
    then show ?thesis by (auto simp: fork_remove_def first_of_def Let_def neq_Nil_conv)
  qed
  then obtain db where db: "fork_remove i ?db = Inr db" by blast
  obtain h rest where r: "restricted (\<lambda>j. \<not> built_on ?db i j) ?db db" "signalled db = signalled ?db"
    using fork_removeE [OF db wf] by metis
  note rs = restricted_simps [OF r(1)]
  have ok: "fork_ok db" using ensuresD [OF fork_remove_ok [OF y(1)] db] .
  have "spine db r ids" using y(2) out unfolding spine_def rs by auto
  moreover have "flags_ok env S R r ids db"
    using y(5) unfolding flags_ok_def rs block_known_def applied_def Let_def by auto
  moreover have "stores_ok env S R r ids (c\<lparr>fork_db := db\<rparr>)" using y(6) by (simp add: stores_ok_def)
  ultimately have "sync env S R r ids (c\<lparr>fork_db := db\<rparr>)" using ok stay y(4,7) rs(1) by (simp add: sync_def)
  moreover have "validate_block i False c = (Inr (), c\<lparr>fork_db := db\<rparr>)"
    using db id by (simp add: validate_block_def on_forks_def set_validity_def)
  ultimately show ?thesis using r by blast
qed

section \<open>Fork switching\<close>

text \<open>What all steps of a switch keep of the fork database and the log.\<close>

definition steady :: "'d controller \<Rightarrow> 'd controller \<Rightarrow> bool" where
  "steady c c' \<longleftrightarrow> by_block_id (fork_db c') = by_block_id (fork_db c) \<and> fork_head (fork_db c') = fork_head (fork_db c)
     \<and> signalled (fork_db c') = signalled (fork_db c) \<and> blog c' = blog c
     \<and> (\<forall>j. bhs (objects (fork_db c') j) = bhs (objects (fork_db c) j)
          \<and> (validated (objects (fork_db c) j) \<longrightarrow> validated (objects (fork_db c') j)))"

lemma steady_refl [simp]: "steady c c"
  by (simp add: steady_def)

lemma steady_trans: "steady c c1 \<Longrightarrow> steady c1 c2 \<Longrightarrow> steady c c2"
  by (simp add: steady_def)

lemma steady_flagged: "flagged i m True (fork_db c) (fork_db c') \<Longrightarrow> blog c' = blog c \<Longrightarrow> steady c c'"
  by (auto simp: steady_def flagged_simps)

lemma steady_linked: "steady c c' \<Longrightarrow> linked (objects (fork_db c)) r xs \<Longrightarrow> linked (objects (fork_db c')) r xs"
  by (erule linked_cong) (simp add: steady_def)

lemma pop_all_sync:
  assumes "sync env S R r (ids @ rev xs) c" "last (r # ids) \<in> set (by_block_id (fork_db c))"
  shows "\<exists>c'. for_each pop_marked xs c = (Inr (), c') \<and> sync env S R r ids c' \<and> steady c c'"
  using assms
proof (induction xs arbitrary: c)
  case (Cons i xs)
  have s: "sync env S R r ((ids @ rev xs) @ [i]) c" using Cons.prems(1) by simp
  have "last (r # ids @ rev xs) \<in> set (by_block_id (fork_db c))"
    using syncD(2) [OF Cons.prems(1)] Cons.prems(2) by (cases xs) (auto simp: spine_def)
  from pop_marked_sync [OF s this] obtain c1 where
    c1: "pop_marked i c = (Inr (), c1)" "sync env S R r (ids @ rev xs) c1" "flagged i False True (fork_db c) (fork_db c1)" "blog c1 = blog c" by blast
  have st: "steady c c1" by (rule steady_flagged [OF c1(3,4)])
  have "last (r # ids) \<in> set (by_block_id (fork_db c1))" using Cons.prems(2) st by (simp add: steady_def)
  from Cons.IH [OF c1(2) this] c1(1) show ?case using steady_trans [OF st] by (auto simp: and_then_def)
qed auto

context block_runner
begin

lemma adopt_marked:
  assumes s: "sync env S R r ids c" and i: "i \<in> set (by_block_id (fork_db c))" and ran: "ran env i blk d c c1"
  shows "\<exists>db. and_then (set_head i) (mark_block i True) c1 = (Inr (), c1\<lparr>chain_head := i, fork_db := db\<rparr>)
    \<and> flagged i True (validated (objects (fork_db c) i)) (fork_db c) db"
    and "\<exists>db. and_then (set_head i) (and_then (mark_block i True) (validate_block i True)) c1 = (Inr (), c1\<lparr>chain_head := i, fork_db := db\<rparr>)
    \<and> flagged i True True (fork_db c) db"
proof -
  have db: "fork_db c1 = fork_db c" using ran by (auto simp: ran_def)
  let ?c = "c1\<lparr>chain_head := i\<rparr>"
  have ok: "fork_ok (fork_db ?c)" "i \<in> set (by_block_id (fork_db ?c))" using syncD(1) [OF s] i db by simp_all
  obtain db1 where m: "mark_block i True ?c = (Inr (), ?c\<lparr>fork_db := db1\<rparr>)" "flagged i True (validated (objects (fork_db c) i)) (fork_db c) db1"
    using mark_block_flagged [OF ok, of True] db by auto
  then show "\<exists>db. and_then (set_head i) (mark_block i True) c1 = (Inr (), c1\<lparr>chain_head := i, fork_db := db\<rparr>)
    \<and> flagged i True (validated (objects (fork_db c) i)) (fork_db c) db"
    by (auto simp: and_then_def set_head_def)
  have ok1: "fork_ok (fork_db (?c\<lparr>fork_db := db1\<rparr>))" "i \<in> set (by_block_id (fork_db (?c\<lparr>fork_db := db1\<rparr>)))"
    using flagged_simps(1,2) [OF m(2)] i by simp_all
  obtain db2 where v: "validate_block i True (?c\<lparr>fork_db := db1\<rparr>) = (Inr (), ?c\<lparr>fork_db := db2\<rparr>)" "flagged i True True db1 db2"
    using validate_block_flagged [OF ok1] flagged_simps(7) [OF m(2), of i] by auto
  have "flagged i True True (fork_db c) db2" by (rule flagged_trans [OF m(2) v(2)])
  then show "\<exists>db. and_then (set_head i) (and_then (mark_block i True) (validate_block i True)) c1 = (Inr (), c1\<lparr>chain_head := i, fork_db := db\<rparr>)
    \<and> flagged i True True (fork_db c) db"
    using m(1) v(1) by (auto simp: and_then_def set_head_def)
qed

lemma validated_runs:
  assumes s: "sync env S R r ids c" and i: "i \<in> set (by_block_id (fork_db c))" "bs_prev (objects (fork_db c) i) = chain_head c"
    and v: "validated (objects (fork_db c) i)"
  shows "\<exists>blk d c1. apply_known env i Validated c = (Inr (), c1) \<and> ran env i blk d c c1"
proof -
  note y = syncD [OF s]
  obtain b where b: "bs_block (objects (fork_db c) i) = Some b"
    "run_block env (bhs (block_at_head c)) b Validated (S (chain_head c)) = Inr (R i, S i)"
    using y(3,4,5) i v by (auto simp: flags_ok_def applied_def Let_def)
  have "contents (chain_db c) = S (chain_head c)" using y(4,6) rev_last [of "r # ids"] by (simp add: stores_ok_def del: rev.simps)
  with b apply_known_sync [OF s i, of Validated] show ?thesis by (auto simp: skip_db_sessions_def)
qed

lemma reapply_sync:
  assumes s: "sync env S R r ids c" and i: "i \<in> set (by_block_id (fork_db c))" "bs_prev (objects (fork_db c) i) = chain_head c"
    and v: "validated (objects (fork_db c) i)"
  shows "\<exists>c'. reapply env i c = (Inr (), c') \<and> sync env S R r (ids @ [i]) c' \<and> steady c c'"
proof -
  obtain blk d c1 where a: "apply_known env i Validated c = (Inr (), c1)" "ran env i blk d c c1" using validated_runs [OF assms] by blast
  obtain db where m: "and_then (set_head i) (mark_block i True) c1 = (Inr (), c1\<lparr>chain_head := i, fork_db := db\<rparr>)"
    "flagged i True True (fork_db c) db"
    using adopt_marked(1) [OF s i(1) a(2)] v by auto
  let ?c = "c1\<lparr>chain_head := i, fork_db := db\<rparr>"
  have "sync env S R r (ids @ [i]) ?c" using adopt_sync(1,2) [OF s i a(2) m(2)] v by simp
  moreover have "steady c ?c" by (rule steady_flagged [of i True]) (use m(2) a(2) in \<open>auto simp: ran_def\<close>)
  moreover have "reapply env i c = (Inr (), ?c)" using a(1) m(1) by (simp add: reapply_def and_then_def)
  ultimately show ?thesis by blast
qed

lemma reapply_all_sync:
  assumes "sync env S R r ids c" "linked (objects (fork_db c)) (last (r # ids)) ys" "set ys \<subseteq> set (by_block_id (fork_db c))"
    "\<forall>j \<in> set ys. validated (objects (fork_db c) j)"
  shows "\<exists>c'. for_each (reapply env) ys c = (Inr (), c') \<and> sync env S R r (ids @ ys) c' \<and> steady c c'"
  using assms
proof (induction ys arbitrary: ids c)
  case (Cons i ys)
  have i: "i \<in> set (by_block_id (fork_db c))" "bs_prev (objects (fork_db c) i) = chain_head c" "validated (objects (fork_db c) i)"
    using Cons.prems syncD(4) [OF Cons.prems(1)] by simp_all
  from reapply_sync [OF Cons.prems(1) i] obtain c1 where
    c1: "reapply env i c = (Inr (), c1)" "sync env S R r (ids @ [i]) c1" "steady c c1" by blast
  have "linked (objects (fork_db c1)) (last (r # ids @ [i])) ys" "set ys \<subseteq> set (by_block_id (fork_db c1))" "\<forall>j \<in> set ys. validated (objects (fork_db c1) j)"
    using Cons.prems c1(3) steady_linked [OF c1(3), of i ys] by (auto simp: steady_def)
  from Cons.IH [OF c1(2) this] c1(1) show ?case using steady_trans [OF c1(3)] by (auto simp: and_then_def)
qed auto

lemma switch_one_sync:
  assumes s: "sync env S R r ids c" and i: "i \<in> set (by_block_id (fork_db c))" "bs_prev (objects (fork_db c) i) = chain_head c"
  shows "(\<exists>e. switch_one env i c = (Inl e, c) \<and> \<not> validated (objects (fork_db c) i))
    \<or> (\<exists>S' R' c'. switch_one env i c = (Inr (), c') \<and> sync env S' R' r (ids @ [i]) c' \<and> steady c c'
         \<and> (\<forall>j. j \<noteq> i \<or> validated (objects (fork_db c) j) \<longrightarrow> S' j = S j \<and> R' j = R j))"
proof -
  define st where "st = (if validated (objects (fork_db c) i) then Validated else Complete)"
  have st: "st \<noteq> Incomplete" "\<not> skip_db_sessions env st" by (auto simp: st_def skip_db_sessions_def)
  from apply_known_sync [OF s i st] show ?thesis
  proof (elim disjE exE conjE)
    fix e assume e: "apply_known env i st c = (Inl e, c)"
    have "\<not> validated (objects (fork_db c) i)"
    proof
      assume "validated (objects (fork_db c) i)"
      with validated_runs [OF s i] e show False by (auto simp: st_def)
    qed
    with e show ?thesis by (simp add: switch_one_def st_def and_then_def)
  next
    fix blk d c1 assume a: "apply_known env i st c = (Inr (), c1)" "ran env i blk d c c1"
    obtain db where m: "and_then (set_head i) (and_then (mark_block i True) (validate_block i True)) c1 = (Inr (), c1\<lparr>chain_head := i, fork_db := db\<rparr>)"
      "flagged i True True (fork_db c) db"
      using adopt_marked(2) [OF s i(1) a(2)] by auto
    let ?c = "c1\<lparr>chain_head := i, fork_db := db\<rparr>"
    have "switch_one env i c = (Inr (), ?c)" using a(1) m(1) by (simp add: switch_one_def st_def and_then_def)
    moreover have "steady c ?c" by (rule steady_flagged [of i True]) (use m(2) a(2) in \<open>auto simp: ran_def\<close>)
    moreover note adopt_sync(1) [OF s i a(2) m(2)]
    moreover have "\<forall>j. j \<noteq> i \<or> validated (objects (fork_db c) j) \<longrightarrow> (S(i := d)) j = S j \<and> (R(i := blk)) j = R j"
      using adopt_sync(2) [OF s i a(2) m(2)] by (metis fun_upd_other)
    ultimately show ?thesis by blast
  qed
qed

end

definition agree :: "sha256 list \<Rightarrow> (sha256 \<Rightarrow> 'd) \<Rightarrow> (sha256 \<Rightarrow> signed_block) \<Rightarrow> (sha256 \<Rightarrow> 'd) \<Rightarrow> (sha256 \<Rightarrow> signed_block) \<Rightarrow> bool" where
  "agree xs S R S' R' \<longleftrightarrow> (\<forall>j \<in> set xs. S' j = S j \<and> R' j = R j)"

lemma agree_trans: "agree xs S R Sa Ra \<Longrightarrow> agree xs Sa Ra Sb Rb \<Longrightarrow> agree xs S R Sb Rb"
  by (simp add: agree_def)

text \<open>The old branch can be applied again: it is a chain of validated blocks on the common block.\<close>

definition old_branch :: "sha256 \<Rightarrow> sha256 list \<Rightarrow> sha256 list \<Rightarrow> fork_database \<Rightarrow> bool" where
  "old_branch r base ys db \<longleftrightarrow> linked (objects db) (last (r # base)) ys \<and> set ys \<subseteq> set (by_block_id db)
     \<and> last (r # base) \<in> set (by_block_id db) \<and> (\<forall>j \<in> set ys. validated (objects db j))"

lemma old_branch_steady: "steady c c' \<Longrightarrow> old_branch r base ys (fork_db c) \<Longrightarrow> old_branch r base ys (fork_db c')"
  using steady_linked [of c c' "last (r # base)" ys] by (auto simp: old_branch_def steady_def)

context block_runner
begin

lemma revert_switch_sync:
  assumes s: "sync env S R r (base @ rev xs) c" and i: "i \<in> set (by_block_id (fork_db c))" "bs_prev (objects (fork_db c) i) = chain_head c"
    and v: "\<not> validated (objects (fork_db c) i)" and old: "old_branch r base ys (fork_db c)"
  shows "\<exists>c'. revert_switch env (last (r # base)) xs (rev ys) i e c = (Inl e, c') \<and> sync env S R r (base @ ys) c'
    \<and> blog c' = blog c \<and> i \<notin> set (by_block_id (fork_db c'))"
proof -
  note y = syncD [OF s]
  let ?ids = "base @ rev xs"
  have "spine (fork_db c) r (?ids @ [i])" using y(2,4) i by (simp add: spine_def)
  from spine_distinct [OF y(1) this] have out: "i \<notin> set (r # ?ids)" by auto
  obtain db where db: "validate_block i False c = (Inr (), c\<lparr>fork_db := db\<rparr>)" "sync env S R r ?ids (c\<lparr>fork_db := db\<rparr>)"
    "restricted (\<lambda>j. \<not> built_on (fork_db c) i j) (fork_db c) db"
    using remove_sync [OF s i(1) out] by blast
  note rs = restricted_simps [OF db(3)]
  have i': "i \<notin> set (by_block_id db)" using rs(1) built_on_refl by simp
  have sp: "spine (fork_db c) r (base @ ys)" using y(2) old by (auto simp: spine_def old_branch_def)
  have "i \<notin> set (r # base @ ys)" using out v old by (auto simp: old_branch_def)
  then have stay: "\<not> built_on (fork_db c) i j" if "j \<in> set (r # base @ ys)" for j using spine_built_on [OF sp _ that i(1)] by blast
  have "last (r # base) \<in> set (r # base @ ys)" by simp
  then have old1: "old_branch r base ys (fork_db (c\<lparr>fork_db := db\<rparr>))"
    using old stay unfolding old_branch_def by (auto simp: rs)
  obtain c2 where c2: "for_each pop_marked xs (c\<lparr>fork_db := db\<rparr>) = (Inr (), c2)" "sync env S R r base c2" "steady (c\<lparr>fork_db := db\<rparr>) c2"
    using pop_all_sync [OF db(2)] old1 by (auto simp: old_branch_def)
  have old2: "old_branch r base ys (fork_db c2)" by (rule old_branch_steady [OF c2(3) old1])
  obtain c3 where c3: "for_each (reapply env) ys c2 = (Inr (), c3)" "sync env S R r (base @ ys) c3" "steady c2 c3"
    using reapply_all_sync [OF c2(2), of ys] old2 unfolding old_branch_def by blast
  have "revert_switch env (last (r # base)) xs (rev ys) i e c = (Inl e, c3)"
    using db(1) c2(1) c3(1) syncD(4) [OF c2(2)] by (simp add: revert_switch_def and_then_def require_def throw_def)
  then show ?thesis using c3(2) i' steady_trans [OF c2(3) c3(3)] by (auto simp: steady_def)
qed

lemma switch_branch_sync:
  assumes "sync env S R r (base @ rev xs) c" "linked (objects (fork_db c)) (last (r # base @ rev xs)) new" "set new \<subseteq> set (by_block_id (fork_db c))"
    "old_branch r base ys (fork_db c)"
  shows "(\<exists>S' R' c'. switch_branch env (last (r # base)) (rev ys) xs new c = (Inr (), c') \<and> sync env S' R' r (base @ rev xs @ new) c'
            \<and> steady c c' \<and> agree (r # base @ ys) S R S' R')
       \<or> (\<exists>e S' R' c'. switch_branch env (last (r # base)) (rev ys) xs new c = (Inl e, c')
            \<and> (e = undefined_behaviour \<or> sync env S' R' r (base @ ys) c' \<and> blog c' = blog c \<and> agree (r # base @ ys) S R S' R'
                 \<and> (\<exists>i \<in> set new. i \<notin> set (by_block_id (fork_db c')))))"
  using assms
proof (induction new arbitrary: xs c S R)
  case Nil
  then show ?case by (auto simp: agree_def intro!: exI [of _ S] exI [of _ R])
next
  case (Cons i new)
  note s = Cons.prems(1) and y = syncD [OF Cons.prems(1)]
  have i: "i \<in> set (by_block_id (fork_db c))" "bs_prev (objects (fork_db c) i) = chain_head c"
    using Cons.prems(2,3) y(4) by simp_all
  from switch_one_sync [OF s i] show ?case
  proof (elim disjE exE conjE)
    fix e assume e: "switch_one env i c = (Inl e, c)" "\<not> validated (objects (fork_db c) i)"
    from revert_switch_sync [OF s i e(2) Cons.prems(4), of e] obtain c' where
      c': "revert_switch env (last (r # base)) xs (rev ys) i e c = (Inl e, c')" "sync env S R r (base @ ys) c'" "blog c' = blog c"
      "i \<notin> set (by_block_id (fork_db c'))" by blast
    show ?case
    proof (cases "e = undefined_behaviour")
      case True
      then show ?thesis using e(1) by auto
    next
      case False
      then have "switch_branch env (last (r # base)) (rev ys) xs (i # new) c = (Inl e, c')" using e(1) c'(1) by simp
      moreover have "agree (r # base @ ys) S R S R" by (simp add: agree_def)
      ultimately show ?thesis using c'(2-4) by auto
    qed
  next
    fix Sa Ra c1
    assume c1: "switch_one env i c = (Inr (), c1)" "sync env Sa Ra r ((base @ rev xs) @ [i]) c1" "steady c c1"
      and ag: "\<forall>j. j \<noteq> i \<or> validated (objects (fork_db c) j) \<longrightarrow> Sa j = S j \<and> Ra j = R j"
    have s1: "sync env Sa Ra r (base @ rev (i # xs)) c1" using c1(2) by simp
    have l: "linked (objects (fork_db c1)) (last (r # base @ rev (i # xs))) new" "set new \<subseteq> set (by_block_id (fork_db c1))"
      using Cons.prems(2,3) c1(3) steady_linked [OF c1(3), of i new] by (auto simp: steady_def)
    have o1: "old_branch r base ys (fork_db c1)" by (rule old_branch_steady [OF c1(3) Cons.prems(4)])
    have "i \<notin> set (r # base)" using spine_distinct [OF syncD(1,2) [OF s1]] by auto
    then have ag1: "agree (r # base @ ys) S R Sa Ra" using ag Cons.prems(4) by (auto simp: agree_def old_branch_def)
    have step: "switch_branch env (last (r # base)) (rev ys) xs (i # new) c = switch_branch env (last (r # base)) (rev ys) (i # xs) new c1"
      using c1(1) by simp
    have b: "blog c1 = blog c" using c1(3) by (simp add: steady_def)
    from Cons.IH [OF s1 l o1] show ?thesis
    proof (elim disjE exE conjE)
      fix S' R' c' assume r: "switch_branch env (last (r # base)) (rev ys) (i # xs) new c1 = (Inr (), c')"
        "sync env S' R' r (base @ rev (i # xs) @ new) c'" "steady c1 c'" "agree (r # base @ ys) Sa Ra S' R'"
      then show ?thesis unfolding step using agree_trans [OF ag1 r(4)] steady_trans [OF c1(3) r(3)] by auto
    next
      fix e :: chain_exception and S' R' c'
      assume "switch_branch env (last (r # base)) (rev ys) (i # xs) new c1 = (Inl e, c')" "e = undefined_behaviour"
      then show ?thesis unfolding step by auto
    next
      fix e S' R' c' assume r: "switch_branch env (last (r # base)) (rev ys) (i # xs) new c1 = (Inl e, c')"
        "sync env S' R' r (base @ ys) c'" "blog c' = blog c1" "agree (r # base @ ys) Sa Ra S' R'" "\<exists>i \<in> set new. i \<notin> set (by_block_id (fork_db c'))"
      then show ?thesis unfolding step b using agree_trans [OF ag1 r(4)] by auto
    qed
  qed
qed

end

definition in_sync :: "'d node \<Rightarrow> 'd controller \<Rightarrow> bool" where
  "in_sync env c \<longleftrightarrow> (\<exists>S R r ids. sync env S R r ids c)"

text \<open>
  The head of the chain and the block on which the branches of the two heads meet are in the fork database.  One of them is missing when
  it was pruned although the controller was not yet on the branch that made it irreversible.
\<close>

definition switchable :: "'d controller \<Rightarrow> bool" where
  "switchable c \<longleftrightarrow> chain_head c \<in> set (by_block_id (fork_db c)) \<and>
     (case fork_head (fork_db c) of
        None \<Rightarrow> False
      | Some f \<Rightarrow> bs_prev (objects (fork_db c) f) = chain_head c \<or> f = chain_head c
          \<or> (case fetch_branch_from f (chain_head c) (fork_db c) of
               Inl _ \<Rightarrow> False
             | Inr (new, old) \<Rightarrow> bs_prev (last old) \<in> set (by_block_id (fork_db c))))"

text \<open>Everything that belongs to the chain is as before.\<close>

definition restored :: "'d controller \<Rightarrow> 'd controller \<Rightarrow> bool" where
  "restored c c' \<longleftrightarrow> chain_head c' = chain_head c \<and> chain_db c' = chain_db c \<and> reversible_blocks c' = reversible_blocks c \<and> blog c' = blog c
     \<and> \<not> set (by_block_id (fork_db c)) \<subseteq> set (by_block_id (fork_db c'))"

lemma stores_agree:
  assumes "stores_ok env S R r ids c" "stores_ok env S' R' r ids c'" "agree (r # ids) S R S' R'"
  shows "chain_db c' = chain_db c" "chain_head c' = chain_head c" "reversible_blocks c' = reversible_blocks c"
proof -
  have m: "map S' (rev (r # ids)) = map S (rev (r # ids))" "map (\<lambda>i. (num_from_id i, R' i)) ids = map (\<lambda>i. (num_from_id i, R i)) ids"
    using assms(3) by (auto simp: agree_def)
  then have "contents (chain_db c') # versions (chain_db c') = contents (chain_db c) # versions (chain_db c)"
    "version_num (chain_db c') = version_num (chain_db c)" using assms(1,2) by (simp_all add: stores_ok_def)
  then show "chain_db c' = chain_db c" by (simp add: versioned.equality)
  show "chain_head c' = chain_head c" "reversible_blocks c' = reversible_blocks c" using assms(1,2) m(2) by (simp_all add: stores_ok_def)
qed

lemma branch_linked:
  assumes "branch db p" "index_wf db"
  shows "set (map bs_id p) \<subseteq> set (by_block_id db)" "linked (objects db) (bs_prev (last p)) (rev (map bs_id p))"
proof -
  have e: "\<exists>i \<in> set (by_block_id db). b = objects db i \<and> bs_id b = i" if "b \<in> set p" for b
    using assms that by (auto simp: branch_def index_wf_def)
  then show "set (map bs_id p) \<subseteq> set (by_block_id db)" by fastforce
  from assms(1) have p: "p \<noteq> []" "successively (\<lambda>a b. bs_prev a = bs_id b) p" by (simp_all add: branch_def)
  from p e show "linked (objects db) (bs_prev (last p)) (rev (map bs_id p))"
  proof (induction p)
    case (Cons b p)
    obtain i where i: "b = objects db i" "bs_id b = i" using Cons.prems(3) [of b] by auto
    show ?case
    proof (cases "p = []")
      case True
      then show ?thesis using i by simp
    next
      case False
      then have "linked (objects db) (bs_prev (last p)) (rev (map bs_id p))" "bs_prev b = bs_id (hd p)"
        using Cons.IH Cons.prems by (auto simp: successively_Cons)
      moreover have "last (x # rev (map bs_id p)) = bs_id (hd p)" for x using False by (simp add: last_rev hd_map)
      ultimately show ?thesis using False i by simp
    qed
  qed simp
qed

context block_runner
begin

lemma extend_chain_sync:
  assumes s: "sync env S R r ids c" and i: "i \<in> set (by_block_id (fork_db c))" "bs_prev (objects (fork_db c) i) = chain_head c"
    and st: "st \<noteq> Incomplete" "\<not> skip_db_sessions env st"
  shows "(\<exists>c'. extend_chain env st i c = (Inr (), c') \<and> in_sync env c' \<and> chain_head c' = i \<and> steady c c')
    \<or> (\<exists>e c'. extend_chain env st i c = (Inl e, c') \<and> apply_known env i st c = (Inl e, c) \<and> (e = undefined_behaviour \<or> in_sync env c' \<and> restored c c'))"
proof -
  note y = syncD [OF s]
  from apply_known_sync [OF s i st] show ?thesis
  proof (elim disjE exE conjE)
    fix e assume e: "apply_known env i st c = (Inl e, c)"
    have "spine (fork_db c) r (ids @ [i])" using y(2,4) i by (simp add: spine_def)
    from spine_distinct [OF y(1) this] have "i \<notin> set (r # ids)" by auto
    from remove_sync [OF s i(1) this] obtain db where db: "validate_block i False c = (Inr (), c\<lparr>fork_db := db\<rparr>)"
      "sync env S R r ids (c\<lparr>fork_db := db\<rparr>)" "restricted (\<lambda>j. \<not> built_on (fork_db c) i j) (fork_db c) db" by blast
    have "extend_chain env st i c = (Inl e, if e = undefined_behaviour then c else c\<lparr>fork_db := db\<rparr>)"
      using e db(1) by (simp add: extend_chain_def catching_def and_then_def throw_def)
    moreover have "restored c (c\<lparr>fork_db := db\<rparr>)"
      using restricted_simps(1) [OF db(3)] i(1) built_on_refl by (auto simp: restored_def)
    ultimately show ?thesis using db(2) e by (auto simp: in_sync_def)
  next
    fix blk d c1 assume a: "apply_known env i st c = (Inr (), c1)" "ran env i blk d c c1"
    have f1: "fork_db c1 = fork_db c" "blog c1 = blog c" using a(2) by (auto simp: ran_def)
    obtain db1 where m: "mark_block i True c1 = (Inr (), c1\<lparr>fork_db := db1\<rparr>)" "flagged i True (validated (objects (fork_db c) i)) (fork_db c) db1"
      using mark_block_flagged [of c1 i True] y(1) i(1) f1 by auto
    have ok1: "fork_ok (fork_db (c1\<lparr>fork_db := db1\<rparr>))" "i \<in> set (by_block_id (fork_db (c1\<lparr>fork_db := db1\<rparr>)))"
      using flagged_simps(1,2) [OF m(2)] i by simp_all
    obtain db2 where v: "validate_block i True (c1\<lparr>fork_db := db1\<rparr>) = (Inr (), c1\<lparr>fork_db := db2\<rparr>)" "flagged i True True db1 db2"
      using validate_block_flagged [OF ok1] flagged_simps(7) [OF m(2), of i] by auto
    have f: "flagged i True True (fork_db c) db2" by (rule flagged_trans [OF m(2) v(2)])
    let ?c = "c1\<lparr>chain_head := i, fork_db := db2\<rparr>"
    have "extend_chain env st i c = (Inr (), ?c)"
      using a(1) m(1) v(1) by (simp add: extend_chain_def catching_def and_then_def set_head_def)
    moreover have "in_sync env ?c" using adopt_sync(1) [OF s i a(2) f] by (auto simp: in_sync_def)
    moreover have "steady c ?c" by (rule steady_flagged [of i True]) (use f f1 in simp_all)
    ultimately show ?thesis by auto
  qed
qed

lemma switch_forks_sync:
  assumes s: "sync env S R r ids c" and f: "f \<in> set (by_block_id (fork_db c))"
    and b: "fetch_branch_from f (chain_head c) (fork_db c) = Inr (new, old)" "bs_prev (last old) \<in> set (by_block_id (fork_db c))"
  shows "(\<exists>c'. switch_forks env f c = (Inr (), c') \<and> in_sync env c' \<and> chain_head c' = f \<and> steady c c')
    \<or> (\<exists>e c'. switch_forks env f c = (Inl e, c') \<and> (e = undefined_behaviour \<or> in_sync env c' \<and> restored c c'))"
proof -
  note y = syncD [OF s]
  let ?db = "fork_db c"
  have wf: "index_wf ?db" using y(1) by (simp add: fork_ok_def)
  have h: "chain_head c \<in> set (by_block_id ?db)" using y(3,4) by simp
  have br: "branch ?db new" "branch ?db old" "hd new = objects ?db f" "hd old = objects ?db (chain_head c)" "bs_prev (last new) = bs_prev (last old)"
    using fetch_branch_ok [OF y(1) f h] b(1) by auto
  obtain base where base: "ids = base @ rev (map bs_id old)" "last (r # base) = bs_prev (last old)"
    using spine_suffix [OF y(2) br(2) wf] br(4) y(3,4) b(2) by auto
  let ?ys = "rev (map bs_id old)"
  have com: "last (r # base) \<in> set (by_block_id ?db)" using base(2) b(2) by simp
  have s': "sync env S R r (base @ rev (map bs_id old)) c" using s base(1) by simp
  have "old_branch r base ?ys ?db"
    using branch_linked [OF br(2) wf] base com y(5) by (auto simp: old_branch_def flags_ok_def)
  moreover obtain c1 where c1: "for_each pop_marked (map bs_id old) c = (Inr (), c1)" "sync env S R r base c1" "steady c c1"
    using pop_all_sync [OF s' com] by blast
  ultimately have old: "old_branch r base ?ys (fork_db c1)" using old_branch_steady by blast
  let ?new = "rev (map bs_id new)"
  have l: "linked (objects (fork_db c1)) (last (r # base @ rev [])) ?new" "set ?new \<subseteq> set (by_block_id (fork_db c1))"
    using branch_linked [OF br(1) wf] br(5) base(2) c1(3) steady_linked [OF c1(3), of "last (r # base)" ?new] by (auto simp: steady_def)
  have step: "switch_forks env f c = switch_branch env (last (r # base)) (rev ?ys) [] ?new c1"
    using b(1) c1(1) syncD(4) [OF c1(2)] base(2) by (simp add: switch_forks_def and_then_def require_def Let_def)
  have fid: "bs_id (hd new) = f" using br(3) f wf by (simp add: index_wf_def)
  have nn: "new \<noteq> []" using br(1) by (simp add: branch_def)
  have s1: "sync env S R r (base @ rev []) c1" using c1(2) by simp
  from switch_branch_sync [OF s1 l old] show ?thesis
  proof (elim disjE exE conjE)
    fix S' R' c' assume g: "switch_branch env (last (r # base)) (rev ?ys) [] ?new c1 = (Inr (), c')"
      "sync env S' R' r (base @ rev [] @ ?new) c'" "steady c1 c'"
    have "chain_head c' = f" using syncD(4) [OF g(2)] nn fid by (simp add: last_rev hd_map)
    with g step show ?thesis using steady_trans [OF c1(3) g(3)] by (auto simp: in_sync_def)
  next
    fix e :: chain_exception and c' assume "switch_branch env (last (r # base)) (rev ?ys) [] ?new c1 = (Inl e, c')" "e = undefined_behaviour"
    with step show ?thesis by auto
  next
    fix e S' R' c' assume g: "switch_branch env (last (r # base)) (rev ?ys) [] ?new c1 = (Inl e, c')"
      "sync env S' R' r (base @ ?ys) c'" "blog c' = blog c1" "agree (r # base @ ?ys) S R S' R'"
      "\<exists>i \<in> set ?new. i \<notin> set (by_block_id (fork_db c'))"
    have "restored c c'"
      unfolding restored_def
      using stores_agree [OF syncD(6) [OF s'] syncD(6) [OF g(2)] g(4)] g(3,5) c1(3) l(2) by (auto simp: steady_def)
    with g(1,2) step show ?thesis by (auto simp: in_sync_def)
  qed
qed

lemma maybe_switch_forks_sync:
  assumes s: "in_sync env c" and sw: "switchable c" and st: "st \<noteq> Incomplete" "\<not> skip_db_sessions env st"
  shows "(\<exists>c'. maybe_switch_forks env st c = (Inr (), c') \<and> in_sync env c' \<and> fork_head (fork_db c') = Some (chain_head c') \<and> steady c c')
    \<or> (\<exists>e c'. maybe_switch_forks env st c = (Inl e, c') \<and> (e = undefined_behaviour \<or> in_sync env c' \<and> restored c c'))"
proof -
  obtain S R r ids where s1: "sync env S R r ids c" using s by (auto simp: in_sync_def)
  obtain f where f: "fork_head (fork_db c) = Some f" "f \<in> set (by_block_id (fork_db c))"
    using syncD(1) [OF s1] by (auto simp: fork_ok_def head_ok_def)
  show ?thesis
  proof (cases "bs_prev (objects (fork_db c) f) = chain_head c")
    case True
    then have "maybe_switch_forks env st c = extend_chain env st f c" using f(1) by (simp add: maybe_switch_forks_def)
    with extend_chain_sync [OF s1 f(2) True st] f(1) show ?thesis by (auto simp: steady_def)
  next
    case nx: False
    show ?thesis
    proof (cases "f = chain_head c")
      case True
      then show ?thesis using f(1) nx s by (auto simp: maybe_switch_forks_def)
    next
      case False
      obtain new old where b: "fetch_branch_from f (chain_head c) (fork_db c) = Inr (new, old)" "bs_prev (last old) \<in> set (by_block_id (fork_db c))"
        using sw f(1) nx False by (auto simp: switchable_def split: sum.splits)
      have "maybe_switch_forks env st c = switch_forks env f c" using f(1) nx False by (simp add: maybe_switch_forks_def)
      with switch_forks_sync [OF s1 f(2) b] f(1) show ?thesis by (auto simp: steady_def)
    qed
  qed
qed

end

section \<open>Confirmations\<close>

definition core :: "block_header_state \<Rightarrow> block_header_state" where
  "core h = h\<lparr>bft_irreversible_blocknum := 0, confirmations := []\<rparr>"

text \<open>A database in which blocks got confirmations.\<close>

definition confirmed_more :: "fork_database \<Rightarrow> fork_database \<Rightarrow> bool" where
  "confirmed_more db db' \<longleftrightarrow> by_block_id db' = by_block_id db \<and> fork_head db' = fork_head db \<and> signalled db' = signalled db
     \<and> (\<forall>j. core (bhs (objects db' j)) = core (bhs (objects db j)) \<and> bs_block (objects db' j) = bs_block (objects db j)
          \<and> validated (objects db' j) = validated (objects db j) \<and> in_current_chain (objects db' j) = in_current_chain (objects db j))"

lemma core_prev: "core h = core h' \<Longrightarrow> previous (header h) = previous (header h')"
  by (drule arg_cong [of _ _ "\<lambda>h. previous (header h)"]) (simp add: core_def)

lemma confirmed_more_prev: "confirmed_more db db' \<Longrightarrow> bs_prev (objects db' j) = bs_prev (objects db j)"
  unfolding confirmed_more_def using core_prev by blast

lemma fork_confirm_more:
  assumes "fork_ok db" "fork_confirm cr conf db = Inr db'"
  shows "confirmed_more db db'"
proof -
  let ?i = "conf_block_id conf"
  obtain s where i: "?i \<in> set (by_block_id db)" and a: "add_confirmation cr conf (bhs (objects db ?i)) = Inr s"
    and r: "(if bft_irreversible_blocknum s < block_num s \<and> length (confirmations s) \<ge> length (producers (active_schedule s)) * 2 div 3 + 1
      then set_bft_irreversible ?i (db\<lparr>objects := (objects db)(?i := (objects db ?i)\<lparr>bhs := s\<rparr>)\<rparr>)
      else Inr (db\<lparr>objects := (objects db)(?i := (objects db ?i)\<lparr>bhs := s\<rparr>)\<rparr>)) = Inr db'"
    using assms(2) by (auto simp: fork_confirm_def result_simps Let_def split: option.splits)
  let ?db = "db\<lparr>objects := (objects db)(?i := (objects db ?i)\<lparr>bhs := s\<rparr>)\<rparr>"
  have s: "s = (bhs (objects db ?i))\<lparr>confirmations := confirmations (bhs (objects db ?i)) @ [conf]\<rparr>" by (rule add_confirmation_ok [OF a])
  have c1: "confirmed_more db ?db" by (simp add: confirmed_more_def core_def s)
  have ok: "fork_ok ?db"
  proof (rule same_bft_ok [OF _ _ assms(1)])
    have m: "index_wf db" using assms by (simp add: fork_ok_def)
    show "same_blocks db ?db" by (simp add: same_blocks_def s header_state_ok_def dpos_ok_defs)
    show "index_wf ?db" by (rule index_wf_objects [OF m]) (simp_all add: s on_objects_def num_less_def lib_less_def)
    show "bs_bft (objects ?db j) = bs_bft (objects db j)" for j by (simp add: s)
  qed
  show ?thesis
  proof (cases "bft_irreversible_blocknum s < block_num s \<and> length (confirmations s) \<ge> length (producers (active_schedule s)) * 2 div 3 + 1")
    case True
    then have "set_bft_irreversible ?i ?db = Inr db'" using r by simp
    moreover have "bs_bft (objects ?db ?i) < bs_num (objects ?db ?i)" "?i \<in> set (by_block_id ?db)" using True i by simp_all
    ultimately have "raised_in (bs_num (objects ?db ?i)) {j. built_on ?db ?i j} ?db db'"
      using set_bft_irreversible_raises [OF ok, of ?i] by auto
    then have "confirmed_more ?db db'" by (auto simp: confirmed_more_def raised_in_def raised_def core_def)
    with c1 show ?thesis unfolding confirmed_more_def by simp
  next
    case False
    then show ?thesis using r c1 by auto
  qed
qed

context block_runner
begin

lemma run_same_core: "core h = core h' \<Longrightarrow> run_block env h b s d = run_block env h' b s d"
  using run_core [of "[]" 0 h b s d] run_core [of "[]" 0 h' b s d] by (simp add: core_def)

lemma confirmed_sync:
  assumes s: "sync env S R r ids c" and ok: "fork_ok db" and m: "confirmed_more (fork_db c) db"
  shows "sync env S R r ids (c\<lparr>fork_db := db\<rparr>)"
proof -
  note y = syncD [OF s]
  have e: "by_block_id db = by_block_id (fork_db c)" using m by (simp add: confirmed_more_def)
  note p = confirmed_more_prev [OF m]
  have o: "bs_block (objects db j) = bs_block (objects (fork_db c) j)" "validated (objects db j) = validated (objects (fork_db c) j)"
    "in_current_chain (objects db j) = in_current_chain (objects (fork_db c) j)" for j using m by (simp_all add: confirmed_more_def)
  have run: "run_block env (bhs (objects db j)) b t d = run_block env (bhs (objects (fork_db c) j)) b t d" for j b t d
    by (rule run_same_core) (use m in \<open>simp add: confirmed_more_def\<close>)
  have "spine db r ids" using y(2) linked_cong [of "objects (fork_db c)" r ids "objects db"] by (simp add: spine_def e p)
  moreover have "flags_ok env S R r ids db"
    using y(5) by (simp add: flags_ok_def block_known_def applied_def Let_def e p o run)
  moreover have "stores_ok env S R r ids (c\<lparr>fork_db := db\<rparr>)" using y(6) by (simp add: stores_ok_def)
  ultimately show ?thesis using ok y(3,4,7) e by (simp add: sync_def)
qed

end

section \<open>Received blocks\<close>

lemma bottom_num:
  assumes "fork_ok db" "j \<in> set (by_block_id db)" "bs_prev (objects db j) \<notin> set (by_block_id db)" "k \<in> set (by_block_id db)"
  shows "num_from_id j \<le> num_from_id k"
proof -
  obtain r rn where t: "index_wf db" "fork_tree r rn db" using assms(1) by (auto simp: fork_ok_def)
  have "attached r rn db j" using t(2) assms(2) by (simp add: fork_tree_def)
  then have "bs_num (objects db j) = Suc rn" using assms(3) by (auto simp: attached_def)
  then show ?thesis using tree_num [OF t(2) assms(4)] tree_num_id [OF t(2,1)] assms(2,4) by simp
qed

lemma extends_num: "extends n db \<Longrightarrow> fork_ok db \<Longrightarrow> num_from_id (bs_id n) = Suc (num_from_id (bs_prev n))"
  using fork_prev_num(1) [of db "bs_prev n"] by (simp add: extends_def header_state_ok_def)

lemma new_not_prev:
  assumes "fork_ok db" "extends n db" "bs_id n \<notin> set (by_block_id db)" "j \<in> set (by_block_id db)"
  shows "bs_prev (objects db j) \<noteq> bs_id n"
proof
  assume p: "bs_prev (objects db j) = bs_id n"
  have "bs_prev n \<in> set (by_block_id db)" using assms(2) by (simp add: extends_def)
  then have "num_from_id j \<le> num_from_id (bs_prev n)" using bottom_num [OF assms(1,4)] p assms(3) by simp
  moreover have "num_from_id j = Suc (Suc (num_from_id (bs_prev n)))"
    using fork_prev_num(2) [OF assms(1,4)] p extends_num [OF assms(2,1)] by simp
  ultimately show False by simp
qed

lemma insert_sync:
  assumes s: "sync env S R r ids c" and e: "extends n (fork_db c)" and new: "bs_id n \<notin> set (by_block_id (fork_db c))"
    and ok: "fork_ok db" and db: "db = snd (index_insert n (fork_db c))\<lparr>fork_head := f\<rparr>"
    and n: "\<not> validated n" "\<not> in_current_chain n" "bs_block n = Some b" "header_id (crypto env) b = bs_id n" "previous b = bs_prev n"
  shows "sync env S R r ids (c\<lparr>fork_db := db\<rparr>)"
proof -
  note y = syncD [OF s] and ins = index_insert_simps [OF new]
  let ?db = "fork_db c" and ?i = "bs_id n"
  have ob: "by_block_id db = by_block_id ?db @ [?i]" "objects db = (objects ?db)(?i := n)" using ins by (simp_all add: db)
  have np: "bs_prev (objects ?db j) \<noteq> ?i" if "j \<in> set (by_block_id ?db)" for j by (rule new_not_prev [OF y(1) e new that])
  have ids: "set ids \<subseteq> set (by_block_id ?db)" using y(2) by (simp add: spine_def)
  have ni: "?i \<notin> set ids" using new ids by auto
  have nr: "?i \<noteq> r"
  proof (cases ids)
    case Nil
    then show ?thesis using y(3) new by auto
  next
    case (Cons j js)
    then show ?thesis using np [of j] y(2) by (auto simp: spine_def)
  qed
  have "linked (objects db) r ids"
  proof (rule linked_cong)
    show "linked (objects ?db) r ids" using y(2) by (simp add: spine_def)
    show "bs_prev (objects db j) = bs_prev (objects ?db j)" if "j \<in> set ids" for j using that ni by (auto simp: ob)
  qed
  moreover have "bs_prev (objects db r) \<notin> set (by_block_id db)" if "r \<in> set (by_block_id db)"
    using that y(2) np [of r] nr by (simp add: spine_def ob)
  ultimately have "spine db r ids" using ids by (simp add: spine_def ob subset_insertI2)
  moreover have "flags_ok env S R r ids db"
    unfolding flags_ok_def
  proof
    fix j assume "j \<in> set (by_block_id db)"
    then consider "j = ?i" | "j \<noteq> ?i" "j \<in> set (by_block_id ?db)" by (auto simp: ob)
    then show "(in_current_chain (objects db j) \<longleftrightarrow> j \<in> set ids) \<and> (j \<in> set ids \<longrightarrow> validated (objects db j))
     \<and> block_known (crypto env) db j \<and> (validated (objects db j) \<longrightarrow> applied env S R r db j)"
    proof cases
      case 1
      then show ?thesis using n ni by (simp add: ob block_known_def)
    next
      case 2
      then show ?thesis using y(5) np [OF 2(2)] by (auto simp: flags_ok_def ob block_known_def applied_def Let_def)
    qed
  qed
  moreover have "stores_ok env S R r ids (c\<lparr>fork_db := db\<rparr>)" using y(6) by (simp add: stores_ok_def)
  ultimately show ?thesis using ok y(3,4,7) ob(1) by (auto simp: sync_def)
qed

lemma linked_num_last:
  assumes "fork_ok db" "set ids \<subseteq> set (by_block_id db)" "linked (objects db) r ids"
  shows "num_from_id (last (r # ids)) = num_from_id r + length ids"
  using assms(2,3)
proof (induction ids arbitrary: r)
  case (Cons i ids)
  then show ?case using fork_prev_num(2) [OF assms(1), of i] Cons.IH [of i] by simp
qed simp

text \<open>The pruned block is at the bottom of the chain of a head that stays.\<close>

lemma chain_bottom:
  assumes "fork_ok db'" "o1 = last (signalled db')" "signalled db' \<noteq> []" "linked (objects db') r ids"
    "last (r # ids) \<in> set (by_block_id db')"
  shows "\<exists>xs ys. r # ids = xs @ ys \<and> set ys \<subseteq> set (by_block_id db') \<and> ys \<noteq> [] \<and> (xs = [] \<or> last xs = o1)"
proof -
  obtain rn where t: "fork_tree o1 rn db'" using assms(1-3) by (auto simp: fork_ok_def signals_ok_def)
  show ?thesis
    using assms(4,5)
  proof (induction ids rule: rev_induct)
    case Nil
    then show ?case by (intro exI [of _ "[]"] exI [of _ "[r]"]) simp
  next
    case (snoc i ids)
    then have i: "i \<in> set (by_block_id db')" "bs_prev (objects db' i) = last (r # ids)" by simp_all
    then have "attached o1 rn db' i" using t by (simp add: fork_tree_def)
    then consider "last (r # ids) = o1" | "last (r # ids) \<in> set (by_block_id db')" using i(2) by (auto simp: attached_def)
    then show ?case
    proof cases
      case 1
      then show ?thesis using i by (intro exI [of _ "r # ids"] exI [of _ "[i]"]) simp
    next
      case 2
      with snoc obtain xs ys where "r # ids = xs @ ys" "set ys \<subseteq> set (by_block_id db')" "ys \<noteq> []" "xs = [] \<or> last xs = o1" by auto
      then show ?thesis using i by (intro exI [of _ xs] exI [of _ "ys @ [i]"]) auto
    qed
  qed
qed

lemma commit_versions:
  assumes "contents db # versions db = map S (rev (r # ids))" "version_num db = num_from_id r + length ids"
  shows "contents (commit_version (num_from_id r) db) # versions (commit_version (num_from_id r) db) = map S (rev (r # ids))"
    and "ids = i # ys \<Longrightarrow> num_from_id i = Suc (num_from_id r)
      \<Longrightarrow> contents (commit_version (num_from_id i) db) # versions (commit_version (num_from_id i) db) = map S (rev ids)"
proof -
  have len: "length (versions db) = length ids" using arg_cong [OF assms(1), of length] by simp
  then show "contents (commit_version (num_from_id r) db) # versions (commit_version (num_from_id r) db) = map S (rev (r # ids))"
    using assms by (simp add: commit_version_def)
  assume i: "ids = i # ys" "num_from_id i = Suc (num_from_id r)"
  obtain a l where rl: "rev ids = a # l" using i(1) by (cases "rev ids") auto
  have "contents db = S a" "versions db = map S l @ [S r]" using assms(1) by (simp_all add: rl)
  moreover have "length ids = Suc (length l)" using arg_cong [OF rl, of length] by simp
  ultimately show "contents (commit_version (num_from_id i) db) # versions (commit_version (num_from_id i) db) = map S (rev ids)"
    using assms(2) i(2) by (simp add: commit_version_def rl)
qed

lemma prune_cases:
  assumes s: "sync env S R r ids c" and ok: "fork_ok db'" and sg: "last (signalled db') = i" "signalled db' \<noteq> []"
    and sh: "objects db' = objects (fork_db c)" "set (by_block_id db') \<subseteq> set (by_block_id (fork_db c)) - {i}"
    and i: "i \<in> set (by_block_id (fork_db c))" "\<And>j. j \<in> set (by_block_id (fork_db c)) \<Longrightarrow> num_from_id i \<le> num_from_id j"
    and head: "chain_head c \<in> set (by_block_id db')"
  obtains "i = r" "set ids \<subseteq> set (by_block_id db')" | ys where "ids = i # ys" "set ys \<subseteq> set (by_block_id db')" "r \<notin> set (by_block_id db')"
proof -
  note y = syncD [OF s]
  let ?db = "fork_db c"
  have li: "linked (objects db') r ids" "last (r # ids) \<in> set (by_block_id db')" using y(2,4) head by (simp_all add: spine_def sh(1))
  obtain xs zs where x: "r # ids = xs @ zs" "set zs \<subseteq> set (by_block_id db')" "zs \<noteq> []" "xs = [] \<or> last xs = i"
    using chain_bottom [OF ok sg(1) [symmetric] sg(2) li] by blast
  obtain rn where t: "fork_tree i rn db'" using ok sg by (auto simp: fork_ok_def signals_ok_def)
  have "xs \<noteq> []"
  proof
    assume "xs = []"
    then have r: "r \<in> set (by_block_id db')" using x by (cases zs) auto
    then have "attached i rn db' r" using t by (simp add: fork_tree_def)
    then show False using r y(2) sh i(1) by (auto simp: attached_def spine_def)
  qed
  then obtain ws where ws: "xs = ws @ [i]" using x(4) by (metis append_butlast_last_id)
  have nums: "sorted_wrt (\<lambda>i j. num_from_id i < num_from_id j) (r # ids)" by (rule spine_nums [OF y(1,2)])
  show thesis
  proof (cases ws)
    case Nil
    then show thesis using x(1,2) ws that(1) by auto
  next
    case (Cons w ws')
    have "ws' = []"
    proof (rule ccontr)
      assume "ws' \<noteq> []"
      then obtain v us where "ws' = v # us" by (cases ws') auto
      then have "v \<in> set (by_block_id ?db)" "num_from_id v < num_from_id i"
        using x(1) ws Cons y(2) nums by (auto simp: spine_def sorted_wrt_append)
      then show False using i(2) [of v] by simp
    qed
    then have e: "ids = i # zs" using x(1) ws Cons by simp
    have "num_from_id r < num_from_id i" using nums e by simp
    then have "r \<notin> set (by_block_id ?db)" using i(2) [of r] by auto
    then show thesis using e x(2) sh(2) that(2) [of zs] by auto
  qed
qed

lemma shrunk_flags:
  assumes "flags_ok env S R r ids db" "objects db' = objects db" "set (by_block_id db') \<subseteq> set (by_block_id db)"
    and "\<And>j. j \<in> set (by_block_id db') \<Longrightarrow> j \<in> set ids' \<longleftrightarrow> j \<in> set ids" "r' = r \<or> r \<notin> set (by_block_id db')"
  shows "flags_ok env S R r' ids' db'"
  unfolding flags_ok_def
proof
  fix j assume j: "j \<in> set (by_block_id db')"
  then have "j \<in> set (by_block_id db)" using assms(3) by blast
  with assms(1) have a: "(in_current_chain (objects db j) \<longleftrightarrow> j \<in> set ids) \<and> (j \<in> set ids \<longrightarrow> validated (objects db j))
     \<and> block_known (crypto env) db j \<and> (validated (objects db j) \<longrightarrow> applied env S R r db j)" by (simp add: flags_ok_def)
  have "applied env S R r' db' j" if "applied env S R r db j" using that assms(2,3,5) by (auto simp: applied_def Let_def)
  with a assms(4) [OF j] show "(in_current_chain (objects db' j) \<longleftrightarrow> j \<in> set ids') \<and> (j \<in> set ids' \<longrightarrow> validated (objects db' j))
     \<and> block_known (crypto env) db' j \<and> (validated (objects db' j) \<longrightarrow> applied env S R r' db' j)"
    by (simp add: assms(2) block_known_def)
qed

lemma prune_sync:
  assumes s: "sync env S R r ids c" and best: "head_best (fork_db c)" and o1: "by_block_num (fork_db c) = i # rest"
    and lib: "\<And>h. fork_head (fork_db c) = Some h \<Longrightarrow> bs_num (objects (fork_db c) i) < bs_lib (objects (fork_db c) h)"
    and p: "prune (objects (fork_db c) i) (fork_db c) = Inr db'" and head: "chain_head c \<in> set (by_block_id db')"
  shows "\<exists>r' ids' c'. on_irreversible env i (c\<lparr>fork_db := db'\<rparr>) = (Inr (), c') \<and> sync env S R r' ids' c' \<and> fork_db c' = db'
    \<and> chain_head c' = chain_head c \<and> contents (chain_db c') = contents (chain_db c)"
proof -
  note y = syncD [OF s]
  let ?db = "fork_db c"
  note pr = prune_oldest_ok [OF y(1) best o1 lib p]
  have wf: "index_wf ?db" using y(1) by (simp add: fork_ok_def)
  have i: "i \<in> set (by_block_id ?db)" using o1 wf by (auto simp: index_wf_def)
  have low: "num_from_id i \<le> num_from_id j" if "j \<in> set (by_block_id ?db)" for j
    using first_by_num(2) [OF wf o1 that] fork_prev_num(1) [OF y(1)] i that by simp
  have sg: "last (signalled db') = i" "signalled db' \<noteq> []" using pr(3) by simp_all
  have num: "bs_num (objects db' i) = num_from_id i" using fork_prev_num(1) [OF y(1) i] pr(4) by simp
  have lh: "header_block_num (last (blog c)) = num_from_id r" "blog c \<noteq> []" "header_id (crypto env) (last (blog c)) = r"
    using y(6) num_from_header_id [of "crypto env" "last (blog c)"] by (auto simp: stores_ok_def)
  have vn: "version_num (chain_db c) = num_from_id r + length ids"
    using y(2,6) linked_num_last [OF y(1)] by (simp add: stores_ok_def spine_def)
  have cv: "contents (chain_db c) # versions (chain_db c) = map S (rev (r # ids))" using y(6) by (simp add: stores_ok_def)
  have l: "linked (objects db') r ids" using y(2) pr(4) by (simp add: spine_def)
  let ?c0 = "c\<lparr>fork_db := db', chain_db := commit_version (num_from_id i) (chain_db c)\<rparr>"
  from s pr(1) sg pr(4,5) i low head show ?thesis
  proof (rule prune_cases)
    assume c1: "i = r" "set ids \<subseteq> set (by_block_id db')"
    have "on_irreversible env i (c\<lparr>fork_db := db'\<rparr>) = (Inr (), ?c0)" using lh num c1(1) by (simp add: on_irreversible_def Let_def)
    moreover have "r \<notin> set (by_block_id db')" using c1(1) pr(5) by blast
    then have "spine db' r ids" using l c1 by (simp add: spine_def)
    moreover have "flags_ok env S R r ids db'" by (rule shrunk_flags [OF y(5) pr(4)]) (use pr(5) in auto)
    moreover have "stores_ok env S R r ids ?c0"
      using y(6) commit_versions(1) [OF cv vn] c1(1) unfolding stores_ok_def by (simp add: commit_version_def)
    ultimately show ?thesis using pr(1) head y(7) by (intro exI [of _ r] exI [of _ ids] exI [of _ ?c0]) (simp add: sync_def commit_version_def)
  next
    fix ys assume c2: "ids = i # ys" "set ys \<subseteq> set (by_block_id db')" "r \<notin> set (by_block_id db')"
    have n1: "num_from_id i = Suc (num_from_id r)" using fork_prev_num(2) [OF y(1) i] y(2) c2(1) by (simp add: spine_def)
    obtain b where b: "bs_block (objects db' i) = Some b" "header_id (crypto env) b = i" "previous b = r"
      using y(2,5) i pr(4) c2(1) by (auto simp: flags_ok_def block_known_def spine_def)
    have "header_state_ok (bhs (objects ?db i))" using y(1) i by (auto simp: fork_ok_def fork_tree_def)
    then have "num_from_id i < 2 ^ 32" using num pr(4) by (simp add: header_state_ok_def dpos_ok_defs)
    then have sub: "u32_sub (num_from_id i) 1 = num_from_id r" using n1 by (simp add: u32_sub_def)
    let ?c1 = "?c0\<lparr>blog := blog c @ [b], reversible_blocks := dropWhile (\<lambda>(num, _). num \<le> num_from_id i) (reversible_blocks c)\<rparr>"
    have "on_irreversible env i (c\<lparr>fork_db := db'\<rparr>) = (Inr (), ?c1)"
      using lh num n1 sub b by (simp add: on_irreversible_def Let_def)
    moreover have dist: "distinct (r # ids)" by (rule spine_distinct [OF y(1,2)])
    have i': "i \<notin> set (by_block_id db')" using pr(5) by blast
    then have "spine db' i ys" using l c2 by (simp add: spine_def)
    moreover have "flags_ok env S R i ys db'" by (rule shrunk_flags [OF y(5) pr(4)]) (use pr(5) c2 i' in auto)
    moreover have "dropWhile (\<lambda>(num, _). num \<le> num_from_id i) (reversible_blocks c) = map (\<lambda>i. (num_from_id i, R i)) ys"
    proof -
      have "reversible_blocks c = (num_from_id i, R i) # map (\<lambda>i. (num_from_id i, R i)) ys" using y(6) c2(1) by (simp add: stores_ok_def)
      moreover have "\<forall>j \<in> set ys. num_from_id i < num_from_id j" using spine_nums [OF y(1,2)] c2(1) by simp
      ultimately show ?thesis by (cases ys) simp_all
    qed
    then have "stores_ok env S R i ys ?c1"
      using y(6) commit_versions(2) [OF cv vn c2(1) n1] b(2) c2(1) unfolding stores_ok_def by (simp add: commit_version_def)
    ultimately show ?thesis using pr(1) head y(7) by (intro exI [of _ i] exI [of _ ys] exI [of _ ?c1]) (simp add: sync_def commit_version_def)
  qed
qed

lemma add_sync:
  assumes s: "sync env S R r ids c" and a: "fork_add (crypto env) b trust (fork_db c) = Inr (n, db')"
    and adm: "header_admissible (Next (signed_block_header.truncate b) trust)" and head: "chain_head c \<in> set (by_block_id db')"
  shows "\<exists>r' ids' c'. deliver_irreversible env (length (signalled (fork_db c))) (c\<lparr>fork_db := db'\<rparr>) = (Inr (), c')
    \<and> sync env S R r' ids' c' \<and> fork_db c' = db' \<and> chain_head c' = chain_head c \<and> contents (chain_db c') = contents (chain_db c)"
proof -
  let ?db = "fork_db c"
  have ok: "fork_ok ?db" using syncD(1) [OF s] .
  note n = fork_add_new [OF ok a adm]
  obtain h i rest db2 where d: "db2 = snd (index_insert n ?db)\<lparr>fork_head := Some h\<rparr>" "fork_ok db2" "head_best db2" "by_block_num db2 = i # rest"
    "(if bs_num (objects db2 i) < bs_lib (objects db2 h) then prune (objects db2 i) db2 else Inr db2) = Inr db'"
    by (rule fork_add_stateE [OF ok n(1-3)])
  have sg: "signalled db2 = signalled ?db" "fork_head db2 = Some h" using index_insert_simps(5) [OF n(2)] by (simp_all add: d(1))
  let ?c = "c\<lparr>fork_db := db2\<rparr>"
  have s2: "sync env S R r ids ?c" by (rule insert_sync [OF s n(1,2) d(2,1) n(4-8)])
  show ?thesis
  proof (cases "bs_num (objects db2 i) < bs_lib (objects db2 h)")
    case True
    then have p: "prune (objects (fork_db ?c) i) (fork_db ?c) = Inr db'" using d(5) by simp
    have lib: "bs_num (objects (fork_db ?c) i) < bs_lib (objects (fork_db ?c) f)" if "fork_head (fork_db ?c) = Some f" for f
      using True that sg(2) by simp
    have hb: "head_best (fork_db ?c)" "by_block_num (fork_db ?c) = i # rest" using d by simp_all
    have "signalled db' = signalled ?db @ [i]" using prune_oldest_ok(3) [OF _ hb lib p] d(2) sg(1) by simp
    then have del: "deliver_irreversible env (length (signalled ?db)) (c\<lparr>fork_db := db'\<rparr>) = for_each (on_irreversible env) [i] (c\<lparr>fork_db := db'\<rparr>)"
      by (simp add: deliver_irreversible_def del: for_each.simps)
    have hd': "chain_head ?c \<in> set (by_block_id db')" using head by simp
    from prune_sync [OF s2 hb lib p hd'] obtain r' ids' c' where "on_irreversible env i (c\<lparr>fork_db := db'\<rparr>) = (Inr (), c')"
      "sync env S R r' ids' c'" "fork_db c' = db'" "chain_head c' = chain_head c" "contents (chain_db c') = contents (chain_db c)" by auto
    then show ?thesis unfolding del by (intro exI [of _ r'] exI [of _ ids'] exI [of _ c']) (simp add: and_then_def)
  next
    case False
    then have "db' = db2" using d(5) by simp
    moreover have "deliver_irreversible env (length (signalled ?db)) (c\<lparr>fork_db := db2\<rparr>) = (Inr (), c\<lparr>fork_db := db2\<rparr>)"
      using sg(1) by (simp add: deliver_irreversible_def)
    ultimately show ?thesis using s2 by (intro exI [of _ r] exI [of _ ids] exI [of _ ?c]) simp
  qed
qed

text \<open>After the addition of a block the controller has to be able to switch to the head of the fork database.\<close>

definition can_follow :: "'d node \<Rightarrow> signed_block \<Rightarrow> block_status \<Rightarrow> 'd controller \<Rightarrow> bool" where
  "can_follow env b s c \<longleftrightarrow>
     (case fork_add (crypto env) b (\<not> force_all_checks env \<and> (s = Irreversible \<or> s = Validated)) (fork_db c) of
        Inl e \<Rightarrow> e \<noteq> undefined_behaviour | Inr (_, db) \<Rightarrow> switchable (c\<lparr>fork_db := db\<rparr>))"

definition follows_forks :: "'d node \<Rightarrow> 'd controller \<Rightarrow> unit result \<times> 'd controller \<Rightarrow> bool" where
  "follows_forks env c res \<longleftrightarrow>
     (case res of
        (Inr _, c') \<Rightarrow> in_sync env c' \<and> fork_head (fork_db c') = Some (chain_head c')
      | (Inl e, c') \<Rightarrow> e = undefined_behaviour \<or> in_sync env c' \<and> chain_head c' = chain_head c \<and> contents (chain_db c') = contents (chain_db c))"

lemma switchable_cong:
  assumes "fork_db c' = fork_db c" "chain_head c' = chain_head c"
  shows "switchable c' = switchable c"
  unfolding switchable_def assms by (rule refl)

context block_runner
begin

lemma maybe_switch_follows:
  assumes "in_sync env c" "switchable c" "s \<noteq> Incomplete" "\<not> skip_db_sessions env s"
  shows "follows_forks env c (maybe_switch_forks env s c)"
  using maybe_switch_forks_sync [OF assms] by (auto simp: follows_forks_def restored_def)

lemma push_block_follows:
  assumes s: "in_sync env c" and adm: "header_admissible (Next (signed_block_header.truncate b) t)" and f: "can_follow env b st c"
    and st: "\<not> skip_db_sessions env st"
  shows "follows_forks env c (push_block env b st c)"
proof -
  obtain S R r ids where s1: "sync env S R r ids c" using s by (auto simp: in_sync_def)
  let ?t = "\<not> force_all_checks env \<and> (st = Irreversible \<or> st = Validated)"
  have adm': "header_admissible (Next (signed_block_header.truncate b) ?t)" using adm by simp
  show ?thesis
  proof (cases "st = Incomplete")
    case True
    then show ?thesis using syncD(8) [OF s1] s by (simp add: push_block_def follows_forks_def)
  next
    case nst: False
    show ?thesis
    proof (cases "fork_add (crypto env) b ?t (fork_db c)")
      case (Inl e)
      then show ?thesis using syncD(8) [OF s1] s nst by (simp add: push_block_def follows_forks_def)
    next
      case (Inr x)
      obtain n db where x: "x = (n, db)" by force
      have sw: "switchable (c\<lparr>fork_db := db\<rparr>)" using f Inr x by (simp add: can_follow_def)
      then have h: "chain_head c \<in> set (by_block_id db)" by (simp add: switchable_def)
      from add_sync [OF s1 Inr [unfolded x] adm' h] obtain r' ids' c' where
        c': "deliver_irreversible env (length (signalled (fork_db c))) (c\<lparr>fork_db := db\<rparr>) = (Inr (), c')" "sync env S R r' ids' c'"
        "fork_db c' = db" "chain_head c' = chain_head c" "contents (chain_db c') = contents (chain_db c)" by blast
      have "push_block env b st c = maybe_switch_forks env st c'"
        using syncD(8) [OF s1] nst Inr x c'(1) by (simp add: push_block_def and_then_def)
      moreover have "switchable c'" using sw switchable_cong [of c' "c\<lparr>fork_db := db\<rparr>"] c'(3,4) by simp
      then have "follows_forks env c' (maybe_switch_forks env st c')"
        using maybe_switch_follows [of c' st] c'(2) nst st by (auto simp: in_sync_def)
      ultimately show ?thesis using c'(4,5) by (auto simp: follows_forks_def split: prod.splits sum.splits)
    qed
  qed
qed

lemma push_confirmation_follows:
  assumes s: "in_sync env c" and f: "\<And>db. fork_confirm (crypto env) conf (fork_db c) = Inr db \<Longrightarrow> switchable (c\<lparr>fork_db := db\<rparr>)"
  shows "follows_forks env c (push_confirmation env conf c)"
proof -
  obtain S R r ids where s1: "sync env S R r ids c" using s by (auto simp: in_sync_def)
  show ?thesis
  proof (cases "fork_confirm (crypto env) conf (fork_db c)")
    case (Inl e)
    then show ?thesis using syncD(8) [OF s1] s by (simp add: push_confirmation_def and_then_def on_forks_def follows_forks_def)
  next
    case (Inr db)
    have ok: "fork_ok db" using ensuresD [OF fork_confirm_ok [OF syncD(1) [OF s1]] Inr] .
    have "sync env S R r ids (c\<lparr>fork_db := db\<rparr>)" by (rule confirmed_sync [OF s1 ok fork_confirm_more [OF syncD(1) [OF s1] Inr]])
    then have "follows_forks env (c\<lparr>fork_db := db\<rparr>) (maybe_switch_forks env Complete (c\<lparr>fork_db := db\<rparr>))"
      using f [OF Inr] by (intro maybe_switch_follows) (auto simp: in_sync_def skip_db_sessions_def)
    moreover have "push_confirmation env conf c = maybe_switch_forks env Complete (c\<lparr>fork_db := db\<rparr>)"
      using syncD(8) [OF s1] Inr by (simp add: push_confirmation_def and_then_def on_forks_def)
    ultimately show ?thesis by (auto simp: follows_forks_def split: prod.splits sum.splits)
  qed
qed

end

section \<open>Produced blocks\<close>

text \<open>The pending block that the node has produced on top of its head, in the session that \<open>start_block\<close> opened.\<close>

definition produced :: "'d node \<Rightarrow> block_state \<Rightarrow> signed_block \<Rightarrow> 'd \<Rightarrow> 'd controller \<Rightarrow> bool" where
  "produced env p b d c \<longleftrightarrow> extends p (fork_db c) \<and> bs_prev p = chain_head c \<and> in_current_chain p \<and> bs_block p = Some b
     \<and> header_id (crypto env) b = bs_id p \<and> previous b = bs_prev p
     \<and> run_block env (bhs (block_at_head c)) b Validated (contents (chain_db c)) = Inr (b, d)"

definition with_pending :: "block_state \<Rightarrow> 'd \<Rightarrow> 'd controller \<Rightarrow> 'd controller" where
  "with_pending p d c = c\<lparr>pending := Some p, chain_db := (start_version (chain_db c))\<lparr>contents := d\<rparr>\<rparr>"

lemma on_irreversible_commute:
  assumes "on_irreversible env k (c\<lparr>chain_head := h, pending := q, reversible_blocks := reversible_blocks c @ [(n, b)]\<rparr>) = (Inr (), c'')"
    and "bs_num (objects (fork_db c) k) < n"
  shows "\<exists>c3. on_irreversible env k c = (Inr (), c3)
    \<and> c'' = c3\<lparr>chain_head := h, pending := q, reversible_blocks := reversible_blocks c3 @ [(n, b)]\<rparr>
    \<and> chain_head c3 = chain_head c \<and> pending c3 = pending c \<and> fork_db c3 = fork_db c"
proof -
  have "dropWhile (\<lambda>(num, _). num \<le> bs_num (objects (fork_db c) k)) (reversible_blocks c @ [(n, b)])
    = dropWhile (\<lambda>(num, _). num \<le> bs_num (objects (fork_db c) k)) (reversible_blocks c) @ [(n, b)]"
    by (rule dropWhile_append3) (use assms(2) in simp)
  with assms(1) show ?thesis by (auto simp: on_irreversible_def Let_def split: if_splits option.splits)
qed

lemma and_then_Inr: "and_then f g c = (Inr (), c') \<longleftrightarrow> (\<exists>c1. f c = (Inr (), c1) \<and> g c1 = (Inr (), c'))"
  by (auto simp: and_then_def split: prod.splits sum.splits)

context block_runner
begin

lemma produced_sync:
  assumes s: "sync env S R r ids c" and p: "produced env p b d c" and new: "bs_id p \<notin> set (by_block_id (fork_db c))"
    and db2: "db2 = snd (index_insert (p\<lparr>validated := True\<rparr>) (fork_db c))\<lparr>fork_head := f\<rparr>" and ok: "fork_ok db2"
  shows "sync env (S(bs_id p := d)) (R(bs_id p := b)) r (ids @ [bs_id p])
    (c\<lparr>chain_db := (start_version (chain_db c))\<lparr>contents := d\<rparr>, reversible_blocks := reversible_blocks c @ [(num_from_id (bs_id p), b)],
       chain_head := bs_id p, fork_db := db2\<rparr>)"
proof -
  let ?i = "bs_id p" and ?q = "p\<lparr>validated := False, in_current_chain := False\<rparr>" and ?db = "fork_db c"
  let ?dq = "snd (index_insert ?q ?db)\<lparr>fork_head := f\<rparr>"
  note y = syncD [OF s] and P = p [unfolded produced_def]
  have "extends p ?db" using P by blast
  then have e: "extends ?q ?db" by (simp add: extends_def)
  have nq: "bs_id ?q \<notin> set (by_block_id ?db)" "bs_id (p\<lparr>validated := True\<rparr>) \<notin> set (by_block_id ?db)" using new by simp_all
  note iq = index_insert_simps [OF nq(1)] and ip = index_insert_simps [OF nq(2)]
  have okq: "fork_ok ?dq"
  proof -
    obtain h where "h \<in> set (by_block_id ?dq)" "f = Some h" using ok ip iq db2 by (auto simp: fork_ok_def head_ok_def)
    moreover have "fork_ok (snd (index_insert ?q ?db))" by (rule insert_ok [OF y(1) e nq(1)])
    ultimately show ?thesis unfolding fork_ok_def index_wf_def fork_tree_def attached_def bft_monotone_def signals_ok_def head_ok_def by auto
  qed
  have sq: "sync env S R r ids (c\<lparr>fork_db := ?dq\<rparr>)"
    by (rule insert_sync [OF s e nq(1) okq refl, of b]) (use P in simp_all)
  have i: "?i \<in> set (by_block_id (fork_db (c\<lparr>fork_db := ?dq\<rparr>)))"
    "bs_prev (objects (fork_db (c\<lparr>fork_db := ?dq\<rparr>)) ?i) = chain_head (c\<lparr>fork_db := ?dq\<rparr>)" using iq P by simp_all
  have hn: "chain_head c \<noteq> ?i" using y(3,4) new by auto
  let ?c1 = "c\<lparr>fork_db := ?dq, chain_db := (start_version (chain_db c))\<lparr>contents := d\<rparr>,
       reversible_blocks := reversible_blocks c @ [(num_from_id ?i, b)]\<rparr>"
  have ran: "ran env ?i b d (c\<lparr>fork_db := ?dq\<rparr>) ?c1" using P hn iq by (simp add: ran_def start_version_def)
  have "p\<lparr>in_current_chain := True, validated := True\<rparr> = p\<lparr>validated := True\<rparr>" using P by (cases p) simp
  then have f: "flagged ?i True True (fork_db (c\<lparr>fork_db := ?dq\<rparr>)) db2" using ok iq ip by (simp add: flagged_def db2)
  have "sync env (S(?i := d)) (R(?i := b)) r (ids @ [?i]) (?c1\<lparr>chain_head := ?i, fork_db := db2\<rparr>)" by (rule adopt_sync(1) [OF sq i ran f])
  then show ?thesis by simp
qed

lemma commit_block_sync:
  assumes s: "in_sync env c" and p: "produced env p b d c" and r: "commit_block env True (with_pending p d c) = (Inr (), c')"
  shows "in_sync env c' \<and> chain_head c' = bs_id p \<and> fork_head (fork_db c') = Some (bs_id p) \<and> contents (chain_db c') = d"
proof -
  obtain S R r0 ids where s1: "sync env S R r0 ids c" using s by (auto simp: in_sync_def)
  note y = syncD [OF s1] and P = p [unfolded produced_def]
  let ?p = "p\<lparr>validated := True\<rparr>" and ?i = "bs_id p" and ?c = "with_pending p d c"
  have wp: "pending ?c = Some p" "fork_db ?c = fork_db c" by (simp_all add: with_pending_def)
  obtain c3 where c3: "and_then (adopt_produced env p) (store_reversible env p) ?c = (Inr (), c3)" "c' = c3\<lparr>pending := None\<rparr>"
    using r wp(1) by (auto simp: commit_block_def split: prod.splits sum.splits)
  obtain c2 where c2: "adopt_produced env p ?c = (Inr (), c2)" "store_reversible env p c2 = (Inr (), c3)" using c3(1) by (auto simp: and_then_Inr)
  obtain db' c1 where a: "fork_add_state ?p (fork_db c) = Inr db'"
    and c1: "deliver_irreversible env (length (signalled (fork_db c))) (?c\<lparr>fork_db := db'\<rparr>) = (Inr (), c1)"
      "fork_head (fork_db c1) = Some ?i" "c2 = c1\<lparr>chain_head := ?i\<rparr>"
    using c2(1) wp(2) by (auto simp: adopt_produced_def and_then_Inr set_head_def require_def split: sum.splits option.splits if_splits)
  have st: "c3 = c2\<lparr>reversible_blocks := map_put (bs_num p) b (reversible_blocks c2)\<rparr>"
    using c2(2) P y(7) by (auto simp: store_reversible_def split: if_splits)
  have "extends p (fork_db c)" using P by blast
  then have e: "extends ?p (fork_db c)" by (simp add: extends_def)
  have new: "bs_id ?p \<notin> set (by_block_id (fork_db c))" using a by (auto simp: fork_add_state_def index_insert_def result_simps Let_def)
  have num: "num_from_id ?i = bs_num p" using e by (simp add: extends_def header_state_ok_def)
  obtain h i rest db2 where d: "db2 = snd (index_insert ?p (fork_db c))\<lparr>fork_head := Some h\<rparr>" "fork_ok db2" "head_best db2" "by_block_num db2 = i # rest"
    "(if bs_num (objects db2 i) < bs_lib (objects db2 h) then prune (objects db2 i) db2 else Inr db2) = Inr db'"
    by (rule fork_add_stateE [OF y(1) e new a])
  let ?f = "c\<lparr>chain_db := (start_version (chain_db c))\<lparr>contents := d\<rparr>, reversible_blocks := reversible_blocks c @ [(num_from_id ?i, b)],
       chain_head := ?i, fork_db := db2\<rparr>"
  have s2: "sync env (S(?i := d)) (R(?i := b)) r0 (ids @ [?i]) ?f" using produced_sync [OF s1 p _ d(1,2)] new by simp
  have sg: "signalled db2 = signalled (fork_db c)" "fork_head db2 = Some h" using index_insert_simps(5) [OF new] by (simp_all add: d(1))
  have np: "pending c = None" using y(8) by simp
  have fin: ?thesis if s3: "sync env S' R' r' ids' (c1\<lparr>chain_head := ?i, pending := None, reversible_blocks := reversible_blocks c1 @ [(num_from_id ?i, b)]\<rparr>)"
      and cd: "contents (chain_db c1) = d" for S' R' r' ids'
  proof -
    let ?c4 = "c1\<lparr>chain_head := ?i, pending := None, reversible_blocks := reversible_blocks c1 @ [(num_from_id ?i, b)]\<rparr>"
    have "reversible_blocks ?c4 = map (\<lambda>i. (num_from_id i, R' i)) ids'" using syncD(6) [OF s3] unfolding stores_ok_def by blast
    moreover have "sorted_wrt (<) (map num_from_id ids')" using spine_nums [OF syncD(1,2) [OF s3]] by (simp add: sorted_wrt_map)
    ultimately have "sorted_wrt (<) (map fst (reversible_blocks ?c4))" by (simp add: comp_def)
    then have "\<forall>x \<in> fst ` set (reversible_blocks c1). x < bs_num p" using num by (auto simp: sorted_wrt_append)
    then have "c' = ?c4" unfolding c3(2) st c1(3) by (simp add: map_put_last num)
    then show ?thesis using s3 cd c1(2) by (auto simp: in_sync_def)
  qed
  show ?thesis
  proof (cases "bs_num (objects db2 i) < bs_lib (objects db2 h)")
    case False
    then have "c1 = ?c\<lparr>fork_db := db2\<rparr>" using c1(1) sg(1) d(5) by (simp add: deliver_irreversible_def)
    then have "c1\<lparr>chain_head := ?i, pending := None, reversible_blocks := reversible_blocks c1 @ [(num_from_id ?i, b)]\<rparr> = ?f" "contents (chain_db c1) = d"
      using np by (simp_all add: with_pending_def)
    then show ?thesis using fin s2 by metis
  next
    case True
    then have pr: "prune (objects (fork_db ?f) i) (fork_db ?f) = Inr db'" using d(5) by simp
    have lib: "bs_num (objects (fork_db ?f) i) < bs_lib (objects (fork_db ?f) g)" if "fork_head (fork_db ?f) = Some g" for g
      using True that sg(2) by simp
    have hb: "head_best (fork_db ?f)" "by_block_num (fork_db ?f) = i # rest" "fork_ok (fork_db ?f)" using d by simp_all
    note po = prune_oldest_ok [OF hb(3,1,2) lib pr]
    have del: "on_irreversible env i (?c\<lparr>fork_db := db'\<rparr>) = (Inr (), c1)"
      using c1(1) po(3) sg(1) by (simp add: deliver_irreversible_def and_then_Inr)
    have fd: "fork_db c1 = db'" using del by (auto simp: on_irreversible_def Let_def split: if_splits option.splits)
    have hd': "chain_head ?f \<in> set (by_block_id db')" using po(1) c1(2) fd by (auto simp: fork_ok_def head_ok_def)
    obtain r' ids' c4 where c4: "on_irreversible env i (?f\<lparr>fork_db := db'\<rparr>) = (Inr (), c4)" "sync env (S(?i := d)) (R(?i := b)) r' ids' c4"
      "contents (chain_db c4) = d"
      using prune_sync [OF s2 hb(1,2) lib pr hd'] by auto
    have hc: "chain_head c \<in> set (by_block_id db2)" "chain_head c \<noteq> ?i" "objects db2 (chain_head c) = block_at_head c"
      using y(3,4) new index_insert_simps [OF new] by (auto simp: d(1))
    have "bs_num (objects db2 i) \<le> bs_num (objects db2 (chain_head c))" using first_by_num(2) [OF _ hb(2)] hb(3) hc(1) by (simp add: fork_ok_def)
    moreover have "bs_num p = Suc (bs_num (block_at_head c))" using P by (auto simp: extends_def)
    ultimately have "bs_num (objects (fork_db (?c\<lparr>fork_db := db'\<rparr>)) i) < num_from_id ?i" using hc(3) po(4) num by simp
    moreover have "?f\<lparr>fork_db := db'\<rparr> = (?c\<lparr>fork_db := db'\<rparr>)\<lparr>chain_head := ?i, pending := None,
        reversible_blocks := reversible_blocks (?c\<lparr>fork_db := db'\<rparr>) @ [(num_from_id ?i, b)]\<rparr>"
      using np by (simp add: with_pending_def)
    ultimately obtain c5 where c5: "on_irreversible env i (?c\<lparr>fork_db := db'\<rparr>) = (Inr (), c5)"
      "c4 = c5\<lparr>chain_head := ?i, pending := None, reversible_blocks := reversible_blocks c5 @ [(num_from_id ?i, b)]\<rparr>"
      using on_irreversible_commute [where env = env and k = i and c = "?c\<lparr>fork_db := db'\<rparr>" and h = ?i and q = None and n = "num_from_id ?i" and b = b] c4(1)
      by metis
    have "c5 = c1" using c5(1) del by simp
    then show ?thesis using fin [of "S(?i := d)" "R(?i := b)" r' ids'] c4 c5(2) by simp
  qed
qed

end

section \<open>Reachable states\<close>

text \<open>
  The states of a controller that receives blocks and confirmations and commits blocks that it has produced.  An operation that throws
  counts with the state that it leaves.
\<close>

inductive node_reaches :: "'d node \<Rightarrow> 'd controller \<Rightarrow> 'd controller \<Rightarrow> bool" for env c where
  reach_start: "node_reaches env c c"
| reach_block: "node_reaches env c c1 \<Longrightarrow> push_block env b s c1 = (x, c2) \<Longrightarrow> x \<noteq> Inl undefined_behaviour
    \<Longrightarrow> header_admissible (Next (signed_block_header.truncate b) True) \<Longrightarrow> s \<noteq> Irreversible \<Longrightarrow> can_follow env b s c1 \<Longrightarrow> node_reaches env c c2"
| reach_confirmation: "node_reaches env c c1 \<Longrightarrow> push_confirmation env conf c1 = (x, c2) \<Longrightarrow> x \<noteq> Inl undefined_behaviour
    \<Longrightarrow> \<forall>db. fork_confirm (crypto env) conf (fork_db c1) = Inr db \<longrightarrow> switchable (c1\<lparr>fork_db := db\<rparr>) \<Longrightarrow> node_reaches env c c2"
| reach_produced: "node_reaches env c c1 \<Longrightarrow> produced env p b d c1 \<Longrightarrow> commit_block env True (with_pending p d c1) = (Inr (), c2)
    \<Longrightarrow> node_reaches env c c2"

context block_runner
begin

lemma follows_in_sync: "follows_forks env c (x, c') \<Longrightarrow> x \<noteq> Inl undefined_behaviour \<Longrightarrow> in_sync env c'"
  by (auto simp: follows_forks_def split: sum.splits)

lemma node_reaches_sync:
  assumes "node_reaches env c c'" "in_sync env c"
  shows "in_sync env c'"
  using assms(1)
proof induction
  case (reach_block c1 b s x c2)
  have "\<not> skip_db_sessions env s" using reach_block.hyps by (simp add: skip_db_sessions_def)
  from push_block_follows [OF reach_block.IH _ _ this] reach_block.hyps follows_in_sync show ?case by metis
next
  case (reach_confirmation c1 conf x c2)
  from push_confirmation_follows [OF reach_confirmation.IH, of conf] reach_confirmation.hyps follows_in_sync show ?case by metis
next
  case (reach_produced c1 p b d c2)
  from commit_block_sync [OF reach_produced.IH] reach_produced.hyps show ?case by blast
qed (rule assms(2))

end

text \<open>\<open>initialize_fork_db\<close> and the start of the block log: the state of a new node, where \<open>d\<close> is what \<open>initialize_database\<close> creates.\<close>

definition initialize_fork_db :: "'d node \<Rightarrow> block_header_state \<Rightarrow> 'd \<Rightarrow> 'd controller" where
  "initialize_fork_db env g d =
     \<lparr>chain_db = \<lparr>contents = d, versions = [], version_num = block_num g\<rparr>, reversible_blocks = [], blog = [block_of_header (header g)],
      chain_head = block_id g, fork_db = snd (fork_set (crypto env) (genesis_block g) empty_fork_database), pending = None\<rparr>"

lemma header_id_block [simp]: "header_id cr (block_of_header h) = header_id cr h"
proof -
  have "header_block_num (block_of_header h) = header_block_num h" "header_digest cr (block_of_header h) = header_digest cr h"
    by (cases h; simp add: header_digest_def header_block_num_def block_header.defs signed_block_header.defs block_of_header_def)+
  then show ?thesis by (simp only: header_id_def)
qed

lemma previous_block [simp]: "previous (block_of_header h) = previous h"
  by (cases h) (simp add: block_of_header_def signed_block_header.defs)

lemma genesis_sync:
  assumes "header_state_ok g" "block_id g = header_id (crypto env) (header g)" "num_from_id (previous (header g)) < 2 ^ 32 - 1" "\<not> replaying env"
  shows "sync env (\<lambda>_. d) R (block_id g) [] (initialize_fork_db env g d)"
proof -
  have g: "bhs (genesis_block g) = g" "\<not> validated (genesis_block g)" "\<not> in_current_chain (genesis_block g)"
    "bs_block (genesis_block g) = Some (block_of_header (header g))" by (simp_all add: genesis_block_def block_state_of_def)
  obtain db where db: "fork_set (crypto env) (genesis_block g) empty_fork_database = (Inr (), db)" "fork_ok db" "signalled db = []"
    "by_block_id db = [block_id g]" "objects db (block_id g) = genesis_block g"
    using fork_set_ok [of "genesis_block g" "crypto env"] assms(1-3) g(1) by auto
  have "num_from_id (block_id g) = Suc (num_from_id (previous (header g)))" using fork_prev_num(2) [OF db(2), of "block_id g"] db(4,5) g(1) by simp
  then have ne: "previous (header g) \<noteq> block_id g" by auto
  have num: "num_from_id (block_id g) = block_num g" using assms(1) by (simp add: header_state_ok_def)
  show ?thesis
    using db g ne num assms(2,4) by (simp add: sync_def initialize_fork_db_def spine_def flags_ok_def block_known_def stores_ok_def)
qed

section \<open>Properties of the controller\<close>


text \<open>
  The node stays in step.  From the genesis state, after any sequence of received blocks, confirmations and produced blocks: the blocks
  from the head of the log to the head of the chain are a chain of blocks of the fork database; the database has one undo session for each
  of them, and its contents at each are the result of running the block on the contents before; the reversible blocks are these blocks; the marks of the
  current chain are on exactly these blocks; the log ends with the last irreversible block.
\<close>

lemma reached_in_sync:
  assumes "block_runner env" "header_state_ok g" "block_id g = header_id (crypto env) (header g)"
    "num_from_id (previous (header g)) < 2 ^ 32 - 1" "\<not> replaying env" "node_reaches env (initialize_fork_db env g d) c"
  shows "\<exists>S R r ids. fork_ok (fork_db c) \<and> chain_head c = last (r # ids) \<and> linked (objects (fork_db c)) r ids \<and> set ids \<subseteq> set (by_block_id (fork_db c))
    \<and> chain_head c \<in> set (by_block_id (fork_db c)) \<and> header_id (crypto env) (last (blog c)) = r
    \<and> contents (chain_db c) # versions (chain_db c) = map S (rev (r # ids)) \<and> version_num (chain_db c) = num_from_id (chain_head c)
    \<and> reversible_blocks c = map (\<lambda>i. (num_from_id i, R i)) ids
    \<and> (\<forall>i \<in> set (by_block_id (fork_db c)). in_current_chain (objects (fork_db c) i) \<longleftrightarrow> i \<in> set ids)
    \<and> (\<forall>i \<in> set ids. let p = bs_prev (objects (fork_db c) i) in p \<in> set (by_block_id (fork_db c)) \<longrightarrow>
         (\<exists>b. bs_block (objects (fork_db c) i) = Some b \<and> run_block env (bhs (objects (fork_db c) p)) b Validated (S p) = Inr (R i, S i)))"
proof -
  have "in_sync env (initialize_fork_db env g d)" unfolding in_sync_def using genesis_sync [OF assms(2-5)] by blast
  from block_runner.node_reaches_sync [OF assms(1,6) this] obtain S R r ids where s: "sync env S R r ids c" by (auto simp: in_sync_def)
  note y = syncD [OF s]
  have v: "validated (objects (fork_db c) i)" "applied env S R r (fork_db c) i" if "i \<in> set ids" for i
    using y(2,5) that by (auto simp: flags_ok_def spine_def)
  show ?thesis
    by (rule exI [of _ S], rule exI [of _ R], rule exI [of _ r], rule exI [of _ ids])
      (use y v in \<open>auto simp: flags_ok_def spine_def stores_ok_def applied_def Let_def\<close>)
qed

section \<open>A small node\<close>

text \<open>A node whose database is the list of the blocks that were applied.\<close>

definition list_node :: "sha256 list node" where
  "list_node = \<lparr>crypto = time_crypto, run_block = (\<lambda>h b s d. Inr (b, header_id time_crypto b # d)),
     force_all_checks = False, disable_replay_opts = False, replaying = False\<rparr>"

lemma list_runner: "block_runner list_node"
  by unfold_locales (simp_all add: list_node_def)

lemma list_node_fields: "crypto list_node = time_crypto" "\<not> force_all_checks list_node" "\<not> replaying list_node"
  by (simp_all add: list_node_def)

definition list_genesis :: "sha256 list controller" where
  "list_genesis = initialize_fork_db list_node (bhs time_genesis) []"

lemma list_genesis_sync: "sync list_node (\<lambda>_. []) R (bs_id time_genesis) [] list_genesis"
  unfolding list_genesis_def by (rule genesis_sync) (use time_genesis_ok in \<open>simp_all add: list_node_def\<close>)

lemma list_genesis_fields: "fork_db list_genesis = time_db" "chain_head list_genesis = bs_id time_genesis" "chain_db list_genesis = \<lparr>contents = [], versions = [], version_num = 1\<rparr>"
  "pending list_genesis = None"
proof -
  have "genesis_block (bhs time_genesis) = time_genesis" by (simp add: time_genesis_def genesis_block_def block_state_of_def)
  then show "fork_db list_genesis = time_db" "chain_head list_genesis = bs_id time_genesis" "chain_db list_genesis = \<lparr>contents = [], versions = [], version_num = 1\<rparr>"
    "pending list_genesis = None"
    by (simp_all add: list_genesis_def initialize_fork_db_def list_node_def time_db_def time_genesis_fields)
qed

lemma list_block_added:
  "\<exists>n db. fork_add time_crypto time_block True time_db = Inr (n, db) \<and> fork_head db = Some (header_id time_crypto time_block)
     \<and> bs_prev (objects db (header_id time_crypto time_block)) = bs_id time_genesis \<and> bs_id time_genesis \<in> set (by_block_id db) \<and> signalled db = []
     \<and> header_id time_crypto time_block \<in> set (by_block_id db) \<and> objects db (bs_id time_genesis) = time_genesis
     \<and> bs_block (objects db (header_id time_crypto time_block)) = Some time_block
     \<and> bs_id (objects db (header_id time_crypto time_block)) = header_id time_crypto time_block"
proof -
  obtain r where r: "next_state time_crypto (bhs time_genesis) (signed_block_header.truncate time_block) True = Inr r"
    "block_num r = 2" "dpos_irreversible_blocknum r = 0" "bft_irreversible_blocknum r = 0" using time_next by blast
  note h = next_state_header [OF time_genesis_ok(1) r(1) time_block_admissible]
  have "previous (signed_block_header.truncate time_block) = previous time_block" by (cases time_block) (simp add: signed_block_header.defs)
  then have p: "previous (header r) = SHA256 16777216 20 0 0" using h(1) time_ids(3) by simp
  have "block_id r = SHA256 33554432 21 0 0" using h(2) time_ids(2) by simp
  moreover have "signalled time_db = []" by (simp add: time_db_def fork_set_def index_insert_def empty_fork_database_def Let_def)
  ultimately show ?thesis
    using r p by (simp add: fork_add_def time_db_fields time_ids get_block_def next_block_state_def fork_add_state_def index_insert_def
        first_of_def Let_def on_objects_def lib_less_def num_less_def time_genesis_fields)
qed

definition list_forks :: fork_database where
  "list_forks = (case fork_add time_crypto time_block True time_db of Inl _ \<Rightarrow> time_db | Inr (n, db) \<Rightarrow> db)"

abbreviation "time_id \<equiv> header_id time_crypto time_block"

lemma list_forks:
  "\<exists>n. fork_add time_crypto time_block True time_db = Inr (n, list_forks)" "fork_head list_forks = Some time_id"
  "bs_prev (objects list_forks time_id) = bs_id time_genesis" "bs_id time_genesis \<in> set (by_block_id list_forks)" "signalled list_forks = []"
  "time_id \<in> set (by_block_id list_forks)" "objects list_forks (bs_id time_genesis) = time_genesis"
  "bs_block (objects list_forks time_id) = Some time_block" "bs_id (objects list_forks time_id) = time_id"
  using list_block_added by (auto simp: list_forks_def)

definition list_received :: "sha256 list controller" where
  "list_received = list_genesis\<lparr>fork_db := list_forks\<rparr>"

lemma list_switchable: "switchable list_received"
  by (simp add: switchable_def list_received_def list_genesis_fields list_forks)

lemma list_received_sync: "in_sync list_node list_received"
proof -
  obtain n where a: "fork_add (crypto list_node) time_block True (fork_db list_genesis) = Inr (n, list_forks)"
    using list_forks(1) by (auto simp: list_node_def list_genesis_fields)
  have "chain_head list_genesis \<in> set (by_block_id list_forks)" using list_forks(4) by (simp add: list_genesis_fields)
  from add_sync [OF list_genesis_sync a time_block_admissible this] obtain r' ids' c' where
    c': "deliver_irreversible list_node (length (signalled (fork_db list_genesis))) (list_genesis\<lparr>fork_db := list_forks\<rparr>) = (Inr (), c')"
    "sync list_node (\<lambda>_. []) (\<lambda>_. time_block) r' ids' c'" by blast
  have "c' = list_received" using c'(1) list_forks(5) by (simp add: deliver_irreversible_def list_received_def)
  then show ?thesis using c'(2) by (auto simp: in_sync_def)
qed

lemma list_switch: "\<exists>c. maybe_switch_forks list_node Validated list_received = (Inr (), c)"
proof -
  have run: "run_block list_node h b s d \<noteq> Inl e" for h b s d e by (simp add: list_node_def)
  obtain S R r ids where s: "sync list_node S R r ids list_received" using list_received_sync by (auto simp: in_sync_def)
  have i: "time_id \<in> set (by_block_id (fork_db list_received))" "bs_prev (objects (fork_db list_received) time_id) = chain_head list_received"
    by (simp_all add: list_received_def list_forks list_genesis_fields)
  obtain blk d c1 where a: "apply_known list_node time_id Validated list_received = (Inr (), c1)" "ran list_node time_id blk d list_received c1"
    using block_runner.apply_known_sync [OF list_runner s i, of Validated] run by (auto simp: skip_db_sessions_def)
  have "maybe_switch_forks list_node Validated list_received = extend_chain list_node Validated time_id list_received"
    using i(2) by (simp add: maybe_switch_forks_def list_received_def list_forks)
  with block_runner.extend_chain_sync [OF list_runner s i, of Validated] a(1) show ?thesis by (auto simp: skip_db_sessions_def)
qed


text \<open>
  Block 20 with two blocks 21 on it.  The chain is on the first of them; the second got its confirmations later, which does not change the
  head of the fork database.
\<close>

definition fork_block :: "nat \<Rightarrow> nat \<Rightarrow> nat \<Rightarrow> nat \<Rightarrow> bool \<Rightarrow> block_state" where
  "fork_block n t prev bft cur =
     (genesis_block (default_header_state\<lparr>block_id := sample_id n (of_nat t), block_num := n,
        header := default_signed_header\<lparr>previous := sample_id (n - 1) (of_nat prev), timestamp := t\<rparr>,
        bft_irreversible_blocknum := bft, active_schedule := \<lparr>version = 0, producers = producer_keys [1]\<rparr>\<rparr>))
     \<lparr>validated := cur, in_current_chain := cur\<rparr>"

definition two_forks :: fork_database where
  "two_forks = (sample_db [fork_block 20 20 0 0 False, fork_block 21 21 20 0 True, fork_block 21 22 20 21 False])\<lparr>fork_head := Some (sample_id 21 21)\<rparr>"

definition two_forks_node :: "sha256 list controller" where
  "two_forks_node = \<lparr>chain_db = \<lparr>contents = [sample_id 21 21], versions = [[]], version_num = 21\<rparr>,
     reversible_blocks = [(21, the (bs_block (fork_block 21 21 20 0 True)))], blog = [the (bs_block (fork_block 20 20 0 0 False))],
     chain_head = sample_id 21 21, fork_db = two_forks, pending = None\<rparr>"

lemma fork_block_simps [simp]:
  "bs_id (fork_block n t p f c) = sample_id n (of_nat t)" "bs_num (fork_block n t p f c) = n" "bs_prev (fork_block n t p f c) = sample_id (n - 1) (of_nat p)"
  "bs_lib (fork_block n t p f c) = 0" "bs_bft (fork_block n t p f c) = f" "in_current_chain (fork_block n t p f c) = c" "validated (fork_block n t p f c) = c"
  "bs_block (fork_block n t p f c) = Some (block_of_header (header (bhs (fork_block n t p f c))))"
  by (simp_all add: fork_block_def genesis_block_def block_state_of_def default_header_state_def default_signed_header_def)

lemma fork_block_ok: "num_from_id (sample_id n (of_nat t)) = n \<Longrightarrow> n \<le> t \<Longrightarrow> t < 2 ^ 32 \<Longrightarrow> header_state_ok (bhs (fork_block n t p f c))"
  by (simp add: fork_block_def genesis_block_def block_state_of_def header_state_ok_def dpos_ok_defs default_header_state_def default_signed_header_def
      producer_keys_def empty_schedule_def max_producers_def)

lemma fork_block_id:
  assumes "num_from_id (sample_id (n - 1) (of_nat p)) = n - 1" "0 < n" "n < 2 ^ 32"
  shows "header_id time_crypto (header (bhs (fork_block n t p f c))) = sample_id n (of_nat t)"
  using assms by (simp add: header_id_def header_digest_def header_block_num_def u32_def time_crypto_def null_crypto_def sample_id_def
      fork_block_def genesis_block_def block_state_of_def default_header_state_def default_signed_header_def block_header.defs)

lemma two_forks_fields:
  "by_block_id two_forks = [sample_id 20 20, sample_id 21 21, sample_id 21 22]" "by_block_num two_forks = [sample_id 20 20, sample_id 21 21, sample_id 21 22]"
  "by_lib_block_num two_forks = [sample_id 21 22, sample_id 21 21, sample_id 20 20]"
  "objects two_forks (sample_id 20 20) = fork_block 20 20 0 0 False" "objects two_forks (sample_id 21 21) = fork_block 21 21 20 0 True"
  "objects two_forks (sample_id 21 22) = fork_block 21 22 20 21 False"
  "fork_head two_forks = Some (sample_id 21 21)" "signalled two_forks = []"
  by (simp_all add: two_forks_def sample_db_def index_insert_def empty_fork_database_def on_objects_def num_less_def lib_less_def sample_ids Let_def)

lemma two_forks_ok: "fork_ok two_forks"
proof -
  have "index_wf two_forks"
    by (auto simp: index_wf_def two_forks_fields sample_ids in_order_def on_objects_def num_less_def lib_less_def)
  moreover have "fork_tree (sample_id 19 0) 19 two_forks"
    by (auto simp: fork_tree_def attached_def two_forks_fields sample_ids intro!: fork_block_ok)
  moreover have "signals_ok (sample_id 19 0) 19 two_forks" by (simp add: signals_ok_def two_forks_fields sample_ids)
  moreover have "bft_monotone two_forks" by (simp add: bft_monotone_def two_forks_fields sample_ids)
  moreover have "head_ok two_forks" by (simp add: head_ok_def two_forks_fields)
  ultimately show ?thesis by (auto simp: fork_ok_def)
qed

lemma two_forks_sync: "in_sync list_node two_forks_node"
proof -
  let ?S = "\<lambda>i. if i = sample_id 20 20 then [] else [sample_id 21 21]" and ?R = "\<lambda>i. the (bs_block (fork_block 21 21 20 0 True))"
  have "sync list_node ?S ?R (sample_id 20 20) [sample_id 21 21] two_forks_node"
    unfolding sync_def
  proof (intro conjI)
    show "fork_ok (fork_db two_forks_node)" using two_forks_ok by (simp add: two_forks_node_def)
    show "spine (fork_db two_forks_node) (sample_id 20 20) [sample_id 21 21]"
      by (simp add: spine_def two_forks_node_def two_forks_fields sample_ids)
    show "chain_head two_forks_node \<in> set (by_block_id (fork_db two_forks_node))" by (simp add: two_forks_node_def two_forks_fields)
    show "flags_ok list_node ?S ?R (sample_id 20 20) [sample_id 21 21] (fork_db two_forks_node)"
      by (auto simp: flags_ok_def two_forks_node_def two_forks_fields sample_ids block_known_def list_node_def fork_block_id applied_def)
    show "stores_ok list_node ?S ?R (sample_id 20 20) [sample_id 21 21] two_forks_node"
      by (simp add: stores_ok_def two_forks_node_def sample_ids list_node_def fork_block_id)
    show "\<not> replaying list_node" by (rule list_node_fields(3))
  qed
  then show ?thesis by (auto simp: in_sync_def)
qed

definition lost_block :: block_state where
  "lost_block = fork_block 22 23 21 0 True"

text \<open>
  C6. A produced block can leave the node with the wrong head.  The node is in step, and a block that it has produced is correct on top of its
  head.  But another block of the fork database is better, because of its confirmations.  \<open>commit_block\<close> makes that block the head of the chain, then
  throws because it is not the new block, and undoes the session: the node now has the database of one branch and the head of another.  Both have
  the number that the database has as its revision, so \<open>start_block\<close> will not notice.
\<close>

theorem commit_block_loses_head:
  "\<exists>b d c'. in_sync list_node two_forks_node \<and> produced list_node lost_block b d two_forks_node
     \<and> commit_block list_node True (with_pending lost_block d two_forks_node) = (Inl fork_database_exception, c')
     \<and> chain_head c' \<noteq> chain_head two_forks_node \<and> chain_db c' = chain_db two_forks_node
     \<and> version_num (chain_db c') = bs_num (block_at_head c') \<and> \<not> in_sync list_node c'"
proof -
  let ?b = "the (bs_block lost_block)" and ?d = "[sample_id 22 23, sample_id 21 21]"
  have p: "produced list_node lost_block ?b ?d two_forks_node"
    by (simp add: produced_def lost_block_def extends_def two_forks_node_def two_forks_fields sample_ids fork_block_ok fork_block_id list_node_def)
  let ?c = "with_pending lost_block ?d two_forks_node"
  obtain db where a: "fork_add_state (lost_block\<lparr>validated := True\<rparr>) two_forks = Inr db" "fork_head db = Some (sample_id 21 22)" "signalled db = []"
    "objects db (sample_id 21 22) = fork_block 21 22 20 21 False" "objects db (sample_id 21 21) = fork_block 21 21 20 0 True"
    "by_block_id db = [sample_id 20 20, sample_id 21 21, sample_id 21 22, sample_id 22 23]"
    by (simp add: fork_add_state_def index_insert_def two_forks_fields sample_ids first_of_def on_objects_def num_less_def lib_less_def lost_block_def Let_def)
  let ?c' = "two_forks_node\<lparr>fork_db := db, chain_head := sample_id 21 22\<rparr>"
  have r: "commit_block list_node True ?c = (Inl fork_database_exception, ?c')"
    using a(1-3) by (simp add: commit_block_def with_pending_def two_forks_node_def adopt_produced_def deliver_irreversible_def two_forks_fields
        and_then_def set_head_def require_def lost_block_def sample_ids abort_block_def undo_version_def start_version_def)
  have "\<not> in_sync list_node ?c'"
  proof
    assume "in_sync list_node ?c'"
    then obtain S R r ids where s: "sync list_node S R r ids ?c'" by (auto simp: in_sync_def)
    have f: "sample_id 21 21 \<in> set ids" "sample_id 21 22 \<notin> set ids"
      using syncD(5) [OF s] a by (auto simp: flags_ok_def)
    then have "ids \<noteq> []" by auto
    then show False using syncD(4) [OF s] f(2) last_in_set [of ids] by simp
  qed
  then show ?thesis using two_forks_sync p r a
    by (intro exI [of _ ?b] exI [of _ ?d] exI [of _ ?c']) (simp add: two_forks_node_def sample_ids)
qed

text \<open>
  Where the assumption that the common block is still known fails.  Block 20 has become irreversible on the branch of the second block 21, on
  which there is a block 22, and was pruned; the chain is on the first block 21.  The switch throws when it goes back beyond the first block 21, whose
  mark it has already removed, so the node is out of step.
\<close>

definition pruned_forks :: fork_database where
  "pruned_forks = (sample_db [fork_block 21 21 20 0 True, fork_block 21 22 20 0 False, fork_block 22 23 22 0 False])
     \<lparr>fork_head := Some (sample_id 22 23), signalled := [sample_id 20 20], objects := (objects (sample_db [fork_block 21 21 20 0 True, fork_block 21 22 20 0 False,
        fork_block 22 23 22 0 False]))(sample_id 20 20 := fork_block 20 20 0 0 False)\<rparr>"

lemma pruned_forks_fields:
  "by_block_id pruned_forks = [sample_id 21 21, sample_id 21 22, sample_id 22 23]" "by_block_num pruned_forks = [sample_id 21 21, sample_id 21 22, sample_id 22 23]"
  "by_lib_block_num pruned_forks = [sample_id 22 23, sample_id 21 21, sample_id 21 22]"
  "objects pruned_forks (sample_id 20 20) = fork_block 20 20 0 0 False" "objects pruned_forks (sample_id 21 21) = fork_block 21 21 20 0 True"
  "objects pruned_forks (sample_id 21 22) = fork_block 21 22 20 0 False" "objects pruned_forks (sample_id 22 23) = fork_block 22 23 22 0 False"
  "fork_head pruned_forks = Some (sample_id 22 23)" "signalled pruned_forks = [sample_id 20 20]"
  by (simp_all add: pruned_forks_def sample_db_def index_insert_def empty_fork_database_def on_objects_def num_less_def lib_less_def sample_ids Let_def)

lemma pruned_forks_ok: "fork_ok pruned_forks"
proof -
  have "index_wf pruned_forks"
    by (auto simp: index_wf_def pruned_forks_fields sample_ids in_order_def on_objects_def num_less_def lib_less_def)
  moreover have "fork_tree (sample_id 20 20) 20 pruned_forks"
    by (auto simp: fork_tree_def attached_def pruned_forks_fields sample_ids intro!: fork_block_ok)
  moreover have "signals_ok (sample_id 20 20) 20 pruned_forks" by (simp add: signals_ok_def pruned_forks_fields sample_ids)
  moreover have "bft_monotone pruned_forks" by (simp add: bft_monotone_def pruned_forks_fields sample_ids)
  moreover have "head_ok pruned_forks" by (simp add: head_ok_def pruned_forks_fields)
  ultimately show ?thesis by (auto simp: fork_ok_def)
qed

lemma pruned_forks_sync: "in_sync list_node (two_forks_node\<lparr>fork_db := pruned_forks\<rparr>)"
proof -
  let ?S = "\<lambda>i. if i = sample_id 20 20 then [] else [sample_id 21 21]" and ?R = "\<lambda>i. the (bs_block (fork_block 21 21 20 0 True))"
  let ?c = "two_forks_node\<lparr>fork_db := pruned_forks\<rparr>"
  have "sync list_node ?S ?R (sample_id 20 20) [sample_id 21 21] ?c"
    unfolding sync_def
  proof (intro conjI)
    show "fork_ok (fork_db ?c)" using pruned_forks_ok by simp
    show "spine (fork_db ?c) (sample_id 20 20) [sample_id 21 21]" by (simp add: spine_def pruned_forks_fields sample_ids)
    show "chain_head ?c \<in> set (by_block_id (fork_db ?c))" by (simp add: two_forks_node_def pruned_forks_fields)
    show "flags_ok list_node ?S ?R (sample_id 20 20) [sample_id 21 21] (fork_db ?c)"
      by (auto simp: flags_ok_def pruned_forks_fields sample_ids block_known_def list_node_def fork_block_id applied_def)
    show "stores_ok list_node ?S ?R (sample_id 20 20) [sample_id 21 21] ?c"
      by (simp add: stores_ok_def two_forks_node_def sample_ids list_node_def fork_block_id)
    show "\<not> replaying list_node" by (rule list_node_fields(3))
  qed
  then show ?thesis by (auto simp: in_sync_def)
qed

theorem switch_past_pruned_block:
  "\<exists>c'. in_sync list_node (two_forks_node\<lparr>fork_db := pruned_forks\<rparr>)
     \<and> maybe_switch_forks list_node Complete (two_forks_node\<lparr>fork_db := pruned_forks\<rparr>) = (Inl block_validate_exception, c')
     \<and> chain_head c' = chain_head two_forks_node \<and> \<not> in_current_chain (block_at_head c') \<and> \<not> in_sync list_node c'"
proof -
  let ?c = "two_forks_node\<lparr>fork_db := pruned_forks\<rparr>"
  have b: "fetch_branch_from (sample_id 22 23) (sample_id 21 21) pruned_forks = Inr ([fork_block 22 23 22 0 False, fork_block 21 22 20 0 False], [fork_block 21 21 20 0 True])"
    by (simp add: fetch_branch_from_def get_block_def pruned_forks_fields sample_ids walk_back.simps walk_both.simps)
  have h: "fork_ok (fork_db ?c)" "sample_id 21 21 \<in> set (by_block_id (fork_db ?c))" using pruned_forks_ok by (simp_all add: pruned_forks_fields)
  obtain db where m: "mark_block (sample_id 21 21) False ?c = (Inr (), ?c\<lparr>fork_db := db\<rparr>)" "flagged (sample_id 21 21) False True pruned_forks db"
    using mark_block_flagged [OF h, of False] by (auto simp: pruned_forks_fields)
  note f = flagged_simps [OF m(2)]
  let ?c' = "?c\<lparr>fork_db := db\<rparr>"
  have "pop_marked (sample_id 21 21) ?c = (Inl block_validate_exception, ?c')"
    unfolding pop_marked_def and_then_def m(1) using f(2,5)
    by (simp add: pop_block_def get_block_def two_forks_node_def pruned_forks_fields sample_ids)
  then have r: "maybe_switch_forks list_node Complete ?c = (Inl block_validate_exception, ?c')"
    by (simp add: maybe_switch_forks_def switch_forks_def two_forks_node_def pruned_forks_fields sample_ids b and_then_def Let_def)
  have i: "\<not> in_current_chain (block_at_head ?c')" using f(7) by (simp add: two_forks_node_def)
  have "\<not> in_sync list_node ?c'"
  proof
    assume "in_sync list_node ?c'"
    then obtain S R r ids where s: "sync list_node S R r ids ?c'" by (auto simp: in_sync_def)
    have n: "sample_id 21 21 \<notin> set ids" using syncD(5) [OF s] f(2,7) h(2) by (auto simp: flags_ok_def)
    have l: "last (r # ids) = sample_id 21 21" using syncD(4) [OF s] by (simp add: two_forks_node_def)
    have "ids = []"
    proof (rule ccontr)
      assume "ids \<noteq> []"
      then show False using n l last_in_set [of ids] by simp
    qed
    then have "r = sample_id 21 21" using l by simp
    moreover have "header_id time_crypto (last (blog two_forks_node)) = r" using syncD(6) [OF s] by (simp add: stores_ok_def list_node_fields)
    ultimately show False by (simp add: two_forks_node_def fork_block_id sample_ids)
  qed
  then show ?thesis using pruned_forks_sync r i by (intro exI [of _ ?c']) simp
qed

end
