(* ===== verification/TransactionContext.thy ===== *)
theory TransactionContext
  imports Controller BesioContract
begin

text \<open>
  The context of a transaction: \<^verbatim>\<open>libraries/chain/transaction_context.cpp\<close>, with the contents of the chain database beyond accounts,
  permissions and resources (\<^verbatim>\<open>global_property_object.hpp\<close>, \<^verbatim>\<open>chain_config.cpp\<close>, \<^verbatim>\<open>transaction_object.hpp\<close>,
  \<^verbatim>\<open>contract_table_objects.hpp\<close>) and the checks of \<^verbatim>\<open>controller.cpp\<close> that contexts call.

  The clock of the machine is a parameter: \<open>clock\<close> gives what the n-th reading in a transaction returns, and, for the check of an
  authorization, which may read it many times, what each of those readings returns.  It is a 64-bit number.  A reading is counted where the
  code may read the clock, whether or not it does.
\<close>

section \<open>The chain database\<close>

record chain_config =
  max_block_net_usage :: nat
  target_block_net_usage_pct :: nat
  max_transaction_net_usage :: nat
  base_per_transaction_net_usage :: nat
  net_usage_leeway :: nat
  context_free_discount_net_usage_num :: nat
  context_free_discount_net_usage_den :: nat
  max_block_cpu_usage :: nat
  target_block_cpu_usage_pct :: nat
  max_transaction_cpu_usage :: nat
  min_transaction_cpu_usage :: nat
  max_transaction_lifetime :: nat
  deferred_trx_expiration_window :: nat
  cfg_max_transaction_delay :: nat
  max_inline_action_size :: nat
  max_inline_action_depth :: nat
  cfg_max_authority_depth :: nat

definition percent_100 :: nat where
  "percent_100 = 10000"

definition percent_1 :: nat where
  "percent_1 = 100"

definition min_net_usage_delta_between_base_and_max_for_trx :: nat where
  "min_net_usage_delta_between_base_and_max_for_trx = 10 * 1024"

definition transaction_id_net_usage :: nat where
  "transaction_id_net_usage = 32"

definition validate_config :: "chain_config \<Rightarrow> unit result" where
  "validate_config c =
     bes_assert (target_block_net_usage_pct c \<le> percent_100) action_validate_exception (
     bes_assert (target_block_net_usage_pct c \<ge> percent_1 div 10) action_validate_exception (
     bes_assert (target_block_cpu_usage_pct c \<le> percent_100) action_validate_exception (
     bes_assert (target_block_cpu_usage_pct c \<ge> percent_1 div 10) action_validate_exception (
     bes_assert (max_transaction_net_usage c < max_block_net_usage c) action_validate_exception (
     bes_assert (max_transaction_cpu_usage c < max_block_cpu_usage c) action_validate_exception (
     bes_assert (base_per_transaction_net_usage c < max_transaction_net_usage c) action_validate_exception (
     bes_assert (u32_sub (max_transaction_net_usage c) (base_per_transaction_net_usage c)
         \<ge> min_net_usage_delta_between_base_and_max_for_trx) action_validate_exception (
     bes_assert (context_free_discount_net_usage_den c > 0) action_validate_exception (
     bes_assert (context_free_discount_net_usage_num c \<le> context_free_discount_net_usage_den c) action_validate_exception (
     bes_assert (min_transaction_cpu_usage c \<le> max_transaction_cpu_usage c) action_validate_exception (
     bes_assert (max_transaction_cpu_usage c < u32_sub (max_block_cpu_usage c) (min_transaction_cpu_usage c)) action_validate_exception (
     bes_assert (1 \<le> cfg_max_authority_depth c) action_validate_exception (
     Inr ())))))))))))))"

record global_property_object =
  proposed_schedule_block_num :: "nat option"
  proposed_schedule :: producer_schedule_type
  configuration :: chain_config

record transaction_object =
  to_expiration :: nat
  to_trx_id :: sha256

definition transaction_clash :: "transaction_object \<Rightarrow> transaction_object \<Rightarrow> bool" where
  "transaction_clash = key_clash [to_trx_id]"

record table_id_object =
  tab_code :: name
  tab_scope :: name
  tab_table :: name
  tab_payer :: name
  tab_count :: nat

record key_value_object =
  kv_t_id :: nat
  primary_key :: word64
  kv_payer :: name
  kv_value :: bytes

definition table_clash :: "table_id_object \<Rightarrow> table_id_object \<Rightarrow> bool" where
  "table_clash = key_clash [\<lambda>t. (tab_code t, tab_scope t, tab_table t)]"

definition key_value_clash :: "key_value_object \<Rightarrow> key_value_object \<Rightarrow> bool" where
  "key_value_clash = key_clash [\<lambda>v. (kv_t_id v, primary_key v)]"

record chain_state =
  cdb :: contract_db
  gpo :: global_property_object
  global_action_sequence :: nat
  block_summaries :: "nat \<Rightarrow> sha256"
  input_transactions :: "transaction_object generic_index"
  table_ids :: "table_id_object generic_index"
  key_values :: "key_value_object generic_index"

abbreviation "config_of st \<equiv> configuration (gpo st)"
abbreviation "perms_of st \<equiv> auth_db (cdb st)"

definition on_cdb :: "(contract_db \<Rightarrow> contract_db result) \<Rightarrow> chain_state \<Rightarrow> chain_state result" where
  "on_cdb f st = bindR (f (cdb st)) (\<lambda>c. Inr (st\<lparr>cdb := c\<rparr>))"

definition on_resources :: "(resource_db \<Rightarrow> resource_db result) \<Rightarrow> chain_state \<Rightarrow> chain_state result" where
  "on_resources f = on_cdb (\<lambda>c. bindR (f (resources c)) (\<lambda>r. Inr (c\<lparr>resources := r\<rparr>)))"

section \<open>The node\<close>

text \<open>The lists of the configuration are sets in the code; an empty white list admits everything.\<close>

record node_settings =
  actor_whitelist :: "name list"
  actor_blacklist :: "name list"
  contract_whitelist :: "name list"
  contract_blacklist :: "name list"
  action_blacklist :: "(name \<times> name) list"
  resource_greylist :: "name list"
  allow_ram_billing_in_notify :: bool
  subjective_cpu_leeway :: "int option"
  light_validation :: bool
  speculative :: bool

text \<open>
  What a transaction sees of the node while a block is pending: whether checks are skipped, the head, the time and schedules of the
  pending block, and the clock.
\<close>

record exec_env =
  contract :: contract_env
  trx_codec :: trx_env
  settings :: node_settings
  chain_id :: sha256
  skip_auth_check :: bool
  skip_trx_checks :: bool
  head_id :: sha256
  head_num :: nat
  block_time :: block_timestamp_type
  active_producers :: producer_schedule_type
  pending_producers :: producer_schedule_type
  key_valid :: "public_key_type \<Rightarrow> bool"
  instantiated :: "sha256 \<Rightarrow> bool"
  clock :: "nat \<Rightarrow> nat \<Rightarrow> int"

abbreviation "producing env \<equiv> is_producing_block (contract env)"
abbreviation "block_time_point env \<equiv> to_time_point (block_time env)"

definition check_actor_list :: "node_settings \<Rightarrow> name list \<Rightarrow> unit result" where
  "check_actor_list conf actors =
     (if actor_whitelist conf \<noteq> [] then
        bes_assert (set actors \<subseteq> set (actor_whitelist conf)) actor_whitelist_exception (Inr ())
      else if actor_blacklist conf \<noteq> [] then
        bes_assert (set actors \<inter> set (actor_blacklist conf) = {}) actor_blacklist_exception (Inr ())
      else Inr ())"

definition check_contract_list :: "node_settings \<Rightarrow> name \<Rightarrow> unit result" where
  "check_contract_list conf c =
     (if contract_whitelist conf \<noteq> [] then
        bes_assert (c \<in> set (contract_whitelist conf)) contract_whitelist_exception (Inr ())
      else if contract_blacklist conf \<noteq> [] then
        bes_assert (c \<notin> set (contract_blacklist conf)) contract_blacklist_exception (Inr ())
      else Inr ())"

definition check_action_list :: "node_settings \<Rightarrow> name \<Rightarrow> name \<Rightarrow> unit result" where
  "check_action_list conf c a =
     (if action_blacklist conf \<noteq> [] then
        bes_assert ((c, a) \<notin> set (action_blacklist conf)) action_blacklist_exception (Inr ())
      else Inr ())"

section \<open>Checks of transactions\<close>

definition validate_context_free :: "chain_state \<Rightarrow> action \<Rightarrow> unit \<Rightarrow> unit result" where
  "validate_context_free st a u =
     bes_assert (find_account (act_account a) (cdb st) \<noteq> None) transaction_exception
    (bes_assert (act_authorization a = []) transaction_exception (Inr ()))"

definition validate_authorizer :: "chain_state \<Rightarrow> permission_level \<Rightarrow> bool \<Rightarrow> bool result" where
  "validate_authorizer st auth one_auth =
     bes_assert (find_account (actor auth) (cdb st) \<noteq> None) transaction_exception
    (bindR (find_permission auth (perms_of st)) (\<lambda>p.
     bes_assert (p \<noteq> None) transaction_exception (Inr True)))"

definition validate_action :: "chain_state \<Rightarrow> action \<Rightarrow> bool \<Rightarrow> bool result" where
  "validate_action st a one_auth =
     bes_assert (find_account (act_account a) (cdb st) \<noteq> None) transaction_exception
       (foldR (validate_authorizer st) (act_authorization a) one_auth)"

definition validate_referenced_accounts :: "'a transaction_scheme \<Rightarrow> chain_state \<Rightarrow> unit result" where
  "validate_referenced_accounts t st =
     bindR (foldR (validate_context_free st) (context_free_actions t) ()) (\<lambda>_.
     bindR (foldR (validate_action st) (actions t) False) (\<lambda>one_auth.
     bes_assert one_auth tx_no_auths (Inr ())))"

definition sec_to_time :: "nat \<Rightarrow> time_point" where
  "sec_to_time s = seconds (int s)"

definition validate_expiration :: "('e) exec_env_scheme \<Rightarrow> 'a transaction_scheme \<Rightarrow> chain_state \<Rightarrow> unit result" where
  "validate_expiration env t st =
     bes_assert (sec_to_time (expiration t) \<ge> block_time_point env) expired_tx_exception
    (bes_assert (sec_to_time (expiration t) \<le> block_time_point env + sec_to_time (max_transaction_lifetime (config_of st)))
       tx_exp_too_far_exception (Inr ()))"

definition validate_tapos :: "'a transaction_scheme \<Rightarrow> chain_state \<Rightarrow> unit result" where
  "validate_tapos t st =
     bes_assert (verify_reference_block (block_summaries st (u16 (ref_block_num t))) t) invalid_ref_block_exception (Inr ())"

section \<open>The context\<close>

record action_receipt =
  ar_receiver :: name
  act_digest :: sha256
  ar_global_sequence :: nat
  ar_recv_sequence :: nat
  ar_auth_sequence :: "(name \<times> nat) list"
  ar_code_sequence :: nat
  ar_abi_sequence :: nat

definition action_receipt_digest :: "trx_env \<Rightarrow> action_receipt \<Rightarrow> sha256 result" where
  "action_receipt_digest env r =
     bindR (pack_name (ar_receiver r)) (\<lambda>n.
     bindR (pack_sha256 (act_digest r)) (\<lambda>d.
     bindR (pack_uint 8 (ar_global_sequence r)) (\<lambda>g.
     bindR (pack_uint 8 (ar_recv_sequence r)) (\<lambda>q.
     bindR (pack_vector (pack_pair pack_name (pack_uint 8)) (ar_auth_sequence r)) (\<lambda>a.
     bindR (pack_unsigned_int (ar_code_sequence r)) (\<lambda>c.
     bindR (pack_unsigned_int (ar_abi_sequence r)) (\<lambda>b.
     Inr (hash_bytes env (n @ d @ g @ q @ a @ c @ b)))))))))"

record transaction_context =
  tc_trx :: signed_transaction
  tc_id :: sha256
  tc_start :: time_point
  tc_published :: time_point
  executed_actions :: "action_receipt list"
  bill_to_accounts :: "name list"
  tc_delay :: int
  is_input :: bool
  apply_context_free :: bool
  can_subjectively_fail :: bool
  deadline :: time_point
  leeway :: int
  billed_cpu_time_us :: int
  explicit_billed_cpu_time :: bool
  is_initialized :: bool
  net_limit :: nat
  net_limit_due_to_block :: bool
  net_limit_due_to_greylist :: bool
  eager_net_limit :: nat
  trx_net_usage :: nat
  cpu_limit_due_to_greylist :: bool
  initial_objective_duration_limit :: int
  objective_duration_limit :: int
  tc_deadline :: time_point
  deadline_exception_code :: chain_exception
  billing_timer_exception_code :: chain_exception
  pseudo_start :: time_point
  billed_time :: int
  billing_timer_duration_limit :: int
  readings :: nat

text \<open>\<^verbatim>\<open>fc::time_point::now()\<close> and \<^verbatim>\<open>fc::time_point::maximum()\<close>.\<close>

definition now :: "'e exec_env_scheme \<Rightarrow> transaction_context \<Rightarrow> time_point" where
  "now env tc = i64 (clock env (readings tc) 0)"

definition next_reading :: "transaction_context \<Rightarrow> transaction_context" where
  "next_reading tc = tc\<lparr>readings := readings tc + 1\<rparr>"

definition time_maximum :: time_point where
  "time_maximum = INT64_MAX"

definition new_transaction_context :: "signed_transaction \<Rightarrow> sha256 \<Rightarrow> time_point \<Rightarrow> nat \<Rightarrow> transaction_context result" where
  "new_transaction_context t tid start n =
     bes_assert (transaction_extensions t = []) unsupported_feature
     (Inr \<lparr>tc_trx = t, tc_id = tid, tc_start = start, tc_published = 0, executed_actions = [], bill_to_accounts = [], tc_delay = 0, is_input = False,
        apply_context_free = True, can_subjectively_fail = True, deadline = time_maximum, leeway = 3000, billed_cpu_time_us = 0,
        explicit_billed_cpu_time = False, is_initialized = False, net_limit = 0, net_limit_due_to_block = True,
        net_limit_due_to_greylist = False, eager_net_limit = 0, trx_net_usage = 0, cpu_limit_due_to_greylist = False,
        initial_objective_duration_limit = 0, objective_duration_limit = 0, tc_deadline = time_maximum,
        deadline_exception_code = block_cpu_usage_exceeded, billing_timer_exception_code = block_cpu_usage_exceeded,
        pseudo_start = start, billed_time = 0, billing_timer_duration_limit = 0, readings = n\<rparr>)"

definition check_net_usage :: "'e exec_env_scheme \<Rightarrow> transaction_context \<Rightarrow> unit result" where
  "check_net_usage env tc =
     (if \<not> skip_trx_checks env \<and> trx_net_usage tc > eager_net_limit tc then
        Inl (if net_limit_due_to_block tc then block_net_usage_exceeded
             else if net_limit_due_to_greylist tc then greylist_net_usage_exceeded
             else tx_net_usage_exceeded)
      else Inr ())"

definition add_net_usage :: "'e exec_env_scheme \<Rightarrow> nat \<Rightarrow> transaction_context \<Rightarrow> transaction_context result" where
  "add_net_usage env u tc =
     (let tc = tc\<lparr>trx_net_usage := u64 (trx_net_usage tc + u)\<rparr> in bindR (check_net_usage env tc) (\<lambda>_. Inr tc))"

definition deadline_failure :: "transaction_context \<Rightarrow> chain_exception" where
  "deadline_failure tc =
     (let c = deadline_exception_code tc in
      if explicit_billed_cpu_time tc \<or> c = deadline_exception then deadline_exception
      else if c = block_cpu_usage_exceeded then block_cpu_usage_exceeded
      else if c = tx_cpu_usage_exceeded then (if cpu_limit_due_to_greylist tc then greylist_cpu_usage_exceeded else tx_cpu_usage_exceeded)
      else if c = leeway_deadline_exception then leeway_deadline_exception
      else transaction_exception)"

definition checktime :: "'e exec_env_scheme \<Rightarrow> transaction_context \<Rightarrow> transaction_context result" where
  "checktime env tc =
     (if \<not> skip_trx_checks env \<and> now env tc > tc_deadline tc then Inl (deadline_failure tc)
      else Inr (next_reading tc))"

definition pause_billing_timer :: "'e exec_env_scheme \<Rightarrow> transaction_context \<Rightarrow> transaction_context" where
  "pause_billing_timer env tc =
     (if explicit_billed_cpu_time tc \<or> pseudo_start tc = 0 then tc
      else next_reading (tc\<lparr>billed_time := now env tc - pseudo_start tc, deadline_exception_code := deadline_exception, pseudo_start := 0\<rparr>))"

definition resume_billing_timer :: "'e exec_env_scheme \<Rightarrow> transaction_context \<Rightarrow> transaction_context" where
  "resume_billing_timer env tc =
     (if explicit_billed_cpu_time tc \<or> pseudo_start tc \<noteq> 0 then tc
      else
        let tc = next_reading (tc\<lparr>pseudo_start := now env tc - billed_time tc\<rparr>) in
        if pseudo_start tc + billing_timer_duration_limit tc \<le> deadline tc
        then tc\<lparr>tc_deadline := pseudo_start tc + billing_timer_duration_limit tc,
                deadline_exception_code := billing_timer_exception_code tc\<rparr>
        else tc\<lparr>tc_deadline := deadline tc, deadline_exception_code := deadline_exception\<rparr>)"

definition validate_cpu_usage_to_bill :: "'e exec_env_scheme \<Rightarrow> int \<Rightarrow> bool \<Rightarrow> chain_state \<Rightarrow> transaction_context \<Rightarrow> unit result" where
  "validate_cpu_usage_to_bill env billed_us check_minimum st tc =
     (if skip_trx_checks env then Inr ()
      else
        bes_assert (check_minimum \<longrightarrow> billed_us \<ge> int (min_transaction_cpu_usage (config_of st))) transaction_exception
       (bes_assert (billed_us \<le> objective_duration_limit tc)
          (if billing_timer_exception_code tc = block_cpu_usage_exceeded then block_cpu_usage_exceeded
           else if cpu_limit_due_to_greylist tc then greylist_cpu_usage_exceeded
           else tx_cpu_usage_exceeded) (Inr ())))"

text \<open>The second component is the number of microseconds that is returned.\<close>

definition update_billed_cpu_time :: "time_point \<Rightarrow> chain_state \<Rightarrow> transaction_context \<Rightarrow> transaction_context \<times> nat" where
  "update_billed_cpu_time t st tc =
     (let billed = (if explicit_billed_cpu_time tc then billed_cpu_time_us tc
                    else max (t - pseudo_start tc) (int (min_transaction_cpu_usage (config_of st))))
      in (tc\<lparr>billed_cpu_time_us := billed\<rparr>, nat (billed mod 2 ^ 32)))"

text \<open>The limits that all billed accounts can pay, and whether one of them was set by the grey list: net and cpu.\<close>

definition large_number_no_overflow :: int where
  "large_number_no_overflow = INT64_MAX div 2"

definition account_can_pay :: "'e exec_env_scheme \<Rightarrow> bool \<Rightarrow> resource_db \<Rightarrow> name \<Rightarrow> int \<times> int \<times> bool \<times> bool
    \<Rightarrow> (int \<times> int \<times> bool \<times> bool) result" where
  "account_can_pay env force_elastic_limits rl a acc =
     (case acc of (net, cpu, greylisted_net, greylisted_cpu) \<Rightarrow>
        let elastic = (force_elastic_limits \<or> \<not> (producing env \<and> a \<in> set (resource_greylist (settings env)))) in
        bindR (get_account_net_limit a elastic rl) (\<lambda>nl.
        bindR (get_account_cpu_limit a elastic rl) (\<lambda>cl.
        Inr (if nl \<ge> 0 then min net nl else net, if cl \<ge> 0 then min cpu cl else cpu,
             greylisted_net \<or> nl \<ge> 0 \<and> \<not> elastic, greylisted_cpu \<or> cl \<ge> 0 \<and> \<not> elastic))))"

definition max_bandwidth_billed_accounts_can_pay :: "'e exec_env_scheme \<Rightarrow> bool \<Rightarrow> name list \<Rightarrow> chain_state
    \<Rightarrow> (int \<times> int \<times> bool \<times> bool) result" where
  "max_bandwidth_billed_accounts_can_pay env force_elastic_limits billed st =
     foldR (account_can_pay env force_elastic_limits (resources (cdb st))) billed
       (large_number_no_overflow, large_number_no_overflow, False, False)"

section \<open>Initialization\<close>

text \<open>The limits of the block, the chain and the transaction.\<close>

definition initial_limits :: "chain_state \<Rightarrow> transaction_context \<Rightarrow> transaction_context" where
  "initial_limits st tc =
     (let cfg = config_of st; rl = resources (cdb st); t = tc_trx tc;
          tc = tc\<lparr>net_limit := get_block_net_limit rl, objective_duration_limit := i64 (int (get_block_cpu_limit rl))\<rparr>;
          tc = tc\<lparr>tc_deadline := tc_start tc + objective_duration_limit tc\<rparr>;
          tc = (if max_transaction_net_usage cfg \<le> net_limit tc
                then tc\<lparr>net_limit := max_transaction_net_usage cfg, net_limit_due_to_block := False\<rparr> else tc);
          tc = (if int (max_transaction_cpu_usage cfg) \<le> objective_duration_limit tc
                then tc\<lparr>objective_duration_limit := int (max_transaction_cpu_usage cfg),
                        billing_timer_exception_code := tx_cpu_usage_exceeded,
                        tc_deadline := tc_start tc + int (max_transaction_cpu_usage cfg)\<rparr> else tc);
          trx_net = u64 (max_net_usage_words t * 8);
          tc = (if trx_net > 0 \<and> trx_net \<le> net_limit tc
                then tc\<lparr>net_limit := trx_net, net_limit_due_to_block := False\<rparr> else tc);
          trx_cpu = milliseconds (int (max_cpu_usage_ms t));
          tc = (if max_cpu_usage_ms t > 0 \<and> trx_cpu \<le> objective_duration_limit tc
                then tc\<lparr>objective_duration_limit := trx_cpu, billing_timer_exception_code := tx_cpu_usage_exceeded,
                        tc_deadline := tc_start tc + trx_cpu\<rparr> else tc)
      in tc\<lparr>initial_objective_duration_limit := objective_duration_limit tc\<rparr>)"

definition billed_accounts :: "'a transaction_scheme \<Rightarrow> name list" where
  "billed_accounts t = sort (remdups (map actor (concat (map act_authorization (actions t)))))"

definition limit_by_accounts :: "chain_state \<Rightarrow> int \<times> int \<times> bool \<times> bool \<Rightarrow> transaction_context \<Rightarrow> transaction_context" where
  "limit_by_accounts st can_pay tc =
     (case can_pay of (account_net_limit, account_cpu_limit, greylisted_net, greylisted_cpu) \<Rightarrow>
        let tc = tc\<lparr>net_limit_due_to_greylist := net_limit_due_to_greylist tc \<or> greylisted_net,
                    cpu_limit_due_to_greylist := cpu_limit_due_to_greylist tc \<or> greylisted_cpu,
                    eager_net_limit := net_limit tc\<rparr>;
            eager = min (eager_net_limit tc) (to_u64 (i64 (account_net_limit + int (net_usage_leeway (config_of st)))));
            tc = (if eager < eager_net_limit tc then tc\<lparr>eager_net_limit := eager, net_limit_due_to_block := False\<rparr> else tc);
            tc = (if account_cpu_limit + leeway tc \<le> tc_deadline tc - tc_start tc
                  then tc\<lparr>tc_deadline := tc_start tc + account_cpu_limit + leeway tc,
                          billing_timer_exception_code := leeway_deadline_exception\<rparr> else tc);
            tc = tc\<lparr>billing_timer_duration_limit := tc_deadline tc - tc_start tc\<rparr>;
            tc = (if explicit_billed_cpu_time tc \<or> deadline tc < tc_deadline tc
                  then tc\<lparr>tc_deadline := deadline tc, deadline_exception_code := deadline_exception\<rparr>
                  else tc\<lparr>deadline_exception_code := billing_timer_exception_code tc\<rparr>)
        in tc\<lparr>eager_net_limit := eager_net_limit tc div 8 * 8\<rparr>)"

definition block_slot :: "'e exec_env_scheme \<Rightarrow> nat" where
  "block_slot env = set_time_point (block_time_point env)"

text \<open>
  \<open>init\<close> in two parts: the fields of the context that are set in the first part are read after an exception in the second.  The
  first part throws before the accounts to be billed are recorded.
\<close>

definition init_check :: "'e exec_env_scheme \<Rightarrow> chain_state \<Rightarrow> transaction_context \<Rightarrow> unit result" where
  "init_check env st tc =
     bes_assert (\<not> is_initialized tc) transaction_exception
       (if billed_cpu_time_us tc > 0 then validate_cpu_usage_to_bill env (billed_cpu_time_us tc) False st (initial_limits st tc) else Inr ())"

definition init_accounts :: "transaction_context \<Rightarrow> transaction_context" where
  "init_accounts tc = tc\<lparr>bill_to_accounts := billed_accounts (tc_trx tc)\<rparr>"

definition init_limits :: "'e exec_env_scheme \<Rightarrow> nat \<Rightarrow> chain_state \<times> transaction_context \<Rightarrow> (chain_state \<times> transaction_context) result" where
  "init_limits env initial_net_usage s =
     (case s of (st, tc) \<Rightarrow>
        bindR (on_resources (update_account_usage (bill_to_accounts tc) (block_slot env)) st) (\<lambda>st.
        bindR (max_bandwidth_billed_accounts_can_pay env False (bill_to_accounts tc) st) (\<lambda>can_pay.
        let tc = limit_by_accounts st can_pay tc in
        bindR (if initial_net_usage > 0 then add_net_usage env initial_net_usage tc else Inr tc) (\<lambda>tc.
        bindR (checktime env tc) (\<lambda>tc.
        Inr (st, tc\<lparr>is_initialized := True\<rparr>))))))"

definition init :: "'e exec_env_scheme \<Rightarrow> nat \<Rightarrow> chain_state \<times> transaction_context \<Rightarrow> (chain_state \<times> transaction_context) result" where
  "init env initial_net_usage s =
     (case s of (st, tc) \<Rightarrow>
        bindR (init_check env st tc) (\<lambda>_. init_limits env initial_net_usage (st, init_accounts (initial_limits st tc))))"

definition init_for_implicit_trx :: "'e exec_env_scheme \<Rightarrow> nat \<Rightarrow> chain_state \<times> transaction_context \<Rightarrow> (chain_state \<times> transaction_context) result" where
  "init_for_implicit_trx env initial_net_usage s =
     (case s of (st, tc) \<Rightarrow> init env initial_net_usage (st, tc\<lparr>tc_published := block_time_point env\<rparr>))"

definition init_for_deferred_trx :: "'e exec_env_scheme \<Rightarrow> time_point \<Rightarrow> chain_state \<times> transaction_context \<Rightarrow> (chain_state \<times> transaction_context) result" where
  "init_for_deferred_trx env p s =
     (case s of (st, tc) \<Rightarrow> init env 0 (st, tc\<lparr>tc_published := p, apply_context_free := False\<rparr>))"

definition record_transaction :: "sha256 \<Rightarrow> nat \<Rightarrow> chain_state \<Rightarrow> chain_state result" where
  "record_transaction tid expire st =
     (case emplace transaction_clash \<lparr>to_expiration = expire, to_trx_id = tid\<rparr> (input_transactions st) of
        Inl _ \<Rightarrow> Inl tx_duplicate
      | Inr idx \<Rightarrow> Inr (st\<lparr>input_transactions := idx\<rparr>))"

definition discounted_size :: "chain_config \<Rightarrow> nat \<Rightarrow> nat" where
  "discounted_size cfg bytes =
     (let num = context_free_discount_net_usage_num cfg; den = context_free_discount_net_usage_den cfg in
      if den > 0 \<and> num < den then u64_sub (u64 (u64 (bytes * num) + den)) 1 div den else bytes)"

definition input_net_usage :: "chain_config \<Rightarrow> 'a transaction_scheme \<Rightarrow> nat \<Rightarrow> nat \<Rightarrow> nat" where
  "input_net_usage cfg t unprunable_size prunable_size =
     (let usage = u64 (base_per_transaction_net_usage cfg + unprunable_size + discounted_size cfg prunable_size) in
      if delay_sec t > 0 then u64 (usage + (base_per_transaction_net_usage cfg + transaction_id_net_usage)) else usage)"

definition init_for_input_trx :: "'e exec_env_scheme \<Rightarrow> nat \<Rightarrow> nat \<Rightarrow> bool \<Rightarrow> chain_state \<times> transaction_context
    \<Rightarrow> (chain_state \<times> transaction_context) result" where
  "init_for_input_trx env unprunable_size prunable_size skip_recording s =
     (case s of (st, tc) \<Rightarrow>
        let t = tc_trx tc; tc = tc\<lparr>tc_published := block_time_point env, is_input := True\<rparr> in
        bindR (if skip_trx_checks env then Inr ()
               else bindR (validate_expiration env t st) (\<lambda>_. bindR (validate_tapos t st) (\<lambda>_. validate_referenced_accounts t st))) (\<lambda>_.
        bindR (init env (input_net_usage (config_of st) t unprunable_size prunable_size) (st, tc)) (\<lambda>(st, tc).
        if skip_recording then Inr (st, tc)
        else bindR (record_transaction (tc_id tc) (expiration t) st) (\<lambda>st. Inr (st, tc)))))"

section \<open>The end of a transaction\<close>

definition touch_permission :: "permission_level \<Rightarrow> chain_state \<Rightarrow> chain_state result" where
  "touch_permission auth st =
     bindR (get_permission auth (perms_of st)) (\<lambda>(_, p).
     on_cdb (\<lambda>c. bindR (update_permission_usage p (auth_db c)) (\<lambda>a. Inr (c\<lparr>auth_db := a\<rparr>))) st)"

definition final_limits :: "int \<times> int \<times> bool \<times> bool \<Rightarrow> transaction_context \<Rightarrow> transaction_context" where
  "final_limits can_pay tc =
     (case can_pay of (account_net_limit, account_cpu_limit, greylisted_net, greylisted_cpu) \<Rightarrow>
        let tc = tc\<lparr>net_limit_due_to_greylist := net_limit_due_to_greylist tc \<or> greylisted_net,
                    cpu_limit_due_to_greylist := cpu_limit_due_to_greylist tc \<or> greylisted_cpu\<rparr>;
            tc = (if to_u64 account_net_limit \<le> net_limit tc
                  then tc\<lparr>net_limit := to_u64 account_net_limit, net_limit_due_to_block := False\<rparr> else tc);
            tc = (if account_cpu_limit \<le> objective_duration_limit tc
                  then tc\<lparr>objective_duration_limit := account_cpu_limit, billing_timer_exception_code := tx_cpu_usage_exceeded\<rparr> else tc)
        in tc\<lparr>trx_net_usage := u64 (trx_net_usage tc + 7) div 8 * 8, eager_net_limit := net_limit tc\<rparr>)"

definition finalize :: "'e exec_env_scheme \<Rightarrow> chain_state \<times> transaction_context \<Rightarrow> (chain_state \<times> transaction_context) result" where
  "finalize env s =
     (case s of (st, tc) \<Rightarrow>
        bes_assert (is_initialized tc) transaction_exception (
        bindR (if is_input tc then foldR touch_permission (concat (map act_authorization (actions (tc_trx tc)))) st else Inr st) (\<lambda>st.
        bindR (foldR (\<lambda>a _. verify_account_ram_usage a (resources (cdb st))) (validate_ram_usage (cdb st)) ()) (\<lambda>_.
        bindR (max_bandwidth_billed_accounts_can_pay env False (bill_to_accounts tc) st) (\<lambda>can_pay.
        let tc = final_limits can_pay tc in
        bindR (check_net_usage env tc) (\<lambda>_.
        let tc = next_reading (fst (update_billed_cpu_time (now env tc) st tc)) in
        bindR (validate_cpu_usage_to_bill env (billed_cpu_time_us tc) True st tc) (\<lambda>_.
        bindR (on_resources (add_transaction_usage (bill_to_accounts tc) (to_u64 (billed_cpu_time_us tc)) (trx_net_usage tc)
                 (block_slot env)) st) (\<lambda>st.
        Inr (st, tc)))))))))"

text \<open>
  The table of generated transactions is a list here, with unique transaction ids and unique pairs of sender and sender id.
\<close>

definition create_generated :: "generated_transaction_object \<Rightarrow> authorization_db \<Rightarrow> authorization_db result" where
  "create_generated g adb =
     (if list_ex (\<lambda>h. gto_trx_id h = gto_trx_id g \<or> gto_sender h = gto_sender g \<and> gto_sender_id h = gto_sender_id g)
           (generated_transactions adb)
      then Inl logic_error
      else Inr (adb\<lparr>generated_transactions := generated_transactions adb @ [g]\<rparr>))"

definition on_permissions :: "(authorization_db \<Rightarrow> authorization_db result) \<Rightarrow> chain_state \<Rightarrow> chain_state result" where
  "on_permissions f = on_cdb (\<lambda>c. bindR (f (auth_db c)) (\<lambda>a. Inr (c\<lparr>auth_db := a\<rparr>)))"

definition retirement_net_usage :: "chain_config \<Rightarrow> nat" where
  "retirement_net_usage cfg = base_per_transaction_net_usage cfg + transaction_id_net_usage"

definition schedule_transaction :: "'e exec_env_scheme \<Rightarrow> chain_state \<times> transaction_context \<Rightarrow> (chain_state \<times> transaction_context) result" where
  "schedule_transaction env s =
     (case s of (st, tc) \<Rightarrow>
        let cfg = config_of st; t = tc_trx tc in
        bindR (if delay_sec t = 0 then add_net_usage env (retirement_net_usage cfg) tc else Inr tc) (\<lambda>tc.
        bindR (pack_transaction (transaction.truncate t)) (\<lambda>packed.
        let payer = first_authorizor t; until = block_time_point env + tc_delay tc in
        bindR (on_permissions (create_generated \<lparr>gto_trx_id = tc_id tc, gto_sender = 0,
                 gto_sender_id = transaction_id_to_sender_id (tc_id tc), gto_payer = payer, delay_until = until,
                 gto_expiration = until + sec_to_time (deferred_trx_expiration_window cfg),
                 published = block_time_point env, gto_packed_trx = packed\<rparr>) st) (\<lambda>st.
        bindR (on_cdb (add_ram_usage payer (i64 (int (generated_transaction_object_size + u32 (length packed))))) st) (\<lambda>st.
        Inr (st, tc))))))"

end
