(* ===== verification/ApplyContext.thy ===== *)
theory ApplyContext
  imports TransactionContext "HOL-Library.Product_Lexorder"
begin

text \<open>
  The context of an action: \<^verbatim>\<open>libraries/chain/apply_context.cpp\<close> and \<^verbatim>\<open>apply_context.hpp\<close>, with the checks that the classes of
  \<^verbatim>\<open>wasm_interface.cpp\<close> make before they call it.

  WebAssembly is a parameter.  What a contract does is the tree of the calls that it makes to its host: a node has a call and, for each
  value that the call returns, the rest of the run.  The tree is finite in depth, as every run is that ends; what the contract
  computes between two calls has no effect outside of it.  Calls that only read are left out where nothing depends on them, and so are the
  secondary indices of tables.

  The pointers of the iterator cache are the ids of the objects that they point to.
\<close>

section \<open>State\<close>

record iterator_cache =
  table_cache :: "(nat \<times> int) list"
  end_iterator_to_table :: "nat list"
  iterator_to_object :: "nat option list"

definition empty_cache :: iterator_cache where
  "empty_cache = \<lparr>table_cache = [], end_iterator_to_table = [], iterator_to_object = []\<rparr>"

record apply_context =
  chain :: chain_state
  trx_context :: transaction_context
  act :: action
  receiver :: name
  ctx_privileged :: bool
  context_free :: bool
  recurse_depth :: nat
  notified :: "name list"
  inline_actions :: "action list"
  cfa_inline_actions :: "action list"
  keyval_cache :: iterator_cache

type_synonym 'a call = "apply_context \<Rightarrow> ('a \<times> apply_context) result"

definition on_chain :: "(chain_state \<Rightarrow> chain_state result) \<Rightarrow> apply_context \<Rightarrow> apply_context result" where
  "on_chain f c = bindR (f (chain c)) (\<lambda>st. Inr (c\<lparr>chain := st\<rparr>))"

section \<open>Iterators\<close>

definition cache_table :: "nat \<Rightarrow> iterator_cache \<Rightarrow> int \<times> iterator_cache" where
  "cache_table tid c =
     (case map_of (table_cache c) tid of
        Some ei \<Rightarrow> (ei, c)
      | None \<Rightarrow>
          let ei = - (int (length (end_iterator_to_table c)) + 2)
          in (ei, c\<lparr>end_iterator_to_table := end_iterator_to_table c @ [tid], table_cache := map_emplace tid ei (table_cache c)\<rparr>))"

text \<open>A table that was removed in the meantime leaves a dangling pointer behind.\<close>

definition table_at :: "nat \<Rightarrow> chain_state \<Rightarrow> table_id_object result" where
  "table_at tid st = of_option undefined_behaviour (find_object tid (table_ids st))"

definition get_table :: "nat \<Rightarrow> iterator_cache \<Rightarrow> chain_state \<Rightarrow> table_id_object result" where
  "get_table tid c st = bes_assert (map_of (table_cache c) tid \<noteq> None) table_not_in_cache (table_at tid st)"

definition get_end_iterator_by_table_id :: "nat \<Rightarrow> iterator_cache \<Rightarrow> int result" where
  "get_end_iterator_by_table_id tid c = of_option table_not_in_cache (map_of (table_cache c) tid)"

definition find_table_by_end_iterator :: "int \<Rightarrow> iterator_cache \<Rightarrow> nat option result" where
  "find_table_by_end_iterator ei c =
     bes_assert (ei < -1) invalid_table_iterator
       (let indx = nat (- ei - 2) in Inr (if indx \<ge> length (end_iterator_to_table c) then None else Some (end_iterator_to_table c ! indx)))"

definition iterator_slot :: "int \<Rightarrow> iterator_cache \<Rightarrow> nat option result" where
  "iterator_slot itr c =
     bes_assert (itr \<noteq> -1) invalid_table_iterator
    (bes_assert (itr \<ge> 0) table_operation_not_permitted
    (bes_assert (itr < int (length (iterator_to_object c))) invalid_table_iterator
    (Inr (iterator_to_object c ! nat itr))))"

definition cache_get :: "int \<Rightarrow> iterator_cache \<Rightarrow> nat result" where
  "cache_get itr c = bindR (iterator_slot itr c) (\<lambda>s. of_option table_operation_not_permitted s)"

definition cache_remove :: "int \<Rightarrow> iterator_cache \<Rightarrow> iterator_cache result" where
  "cache_remove itr c =
     bindR (iterator_slot itr c) (\<lambda>s. Inr (c\<lparr>iterator_to_object := (iterator_to_object c)[nat itr := None]\<rparr>))"

definition cache_add :: "nat \<Rightarrow> iterator_cache \<Rightarrow> int \<times> iterator_cache" where
  "cache_add i c =
     (case find_index (Some i) (iterator_to_object c) of
        Some n \<Rightarrow> (int n, c)
      | None \<Rightarrow> (int (length (iterator_to_object c)), c\<lparr>iterator_to_object := iterator_to_object c @ [Some i]\<rparr>))"

section \<open>Tables\<close>

definition table_id_object_size :: nat where
  "table_id_object_size = billable_size_v (44 + overhead_per_row_per_index_ram_bytes * 2)"

definition key_value_object_size :: nat where
  "key_value_object_size = billable_size_v (32 + 8 + 4 + overhead_per_row_per_index_ram_bytes * 2)"

text \<open>\<open>used_authorizations\<close> is written and never read; it is not kept here.\<close>

definition require_actor :: "name \<Rightarrow> apply_context \<Rightarrow> unit result" where
  "require_actor account c = bes_assert (account \<in> set (map actor (act_authorization (act c)))) missing_auth_exception (Inr ())"

definition is_ram_billing_in_notify_allowed :: "'e exec_env_scheme \<Rightarrow> bool" where
  "is_ram_billing_in_notify_allowed env \<longleftrightarrow> \<not> producing env \<or> allow_ram_billing_in_notify (settings env)"

definition update_db_usage :: "'e exec_env_scheme \<Rightarrow> name \<Rightarrow> int \<Rightarrow> apply_context \<Rightarrow> apply_context result" where
  "update_db_usage env payer delta c =
     bindR (if delta > 0 \<and> \<not> (ctx_privileged c \<or> payer = receiver c)
            then bes_assert (is_ram_billing_in_notify_allowed env \<or> receiver c = act_account (act c)) subjective_block_production_exception
                   (require_actor payer c)
            else Inr ()) (\<lambda>_.
     on_chain (on_cdb (add_ram_usage payer delta)) c)"

abbreviation "table_key t \<equiv> (tab_code t, tab_scope t, tab_table t)"
abbreviation "row_key v \<equiv> (kv_t_id v, primary_key v)"

definition find_table :: "name \<Rightarrow> name \<Rightarrow> name \<Rightarrow> chain_state \<Rightarrow> (nat \<times> table_id_object) option" where
  "find_table code scope table st = find_by table_key (code, scope, table) (table_ids st)"

definition find_or_create_table :: "'e exec_env_scheme \<Rightarrow> name \<Rightarrow> name \<Rightarrow> name \<Rightarrow> name \<Rightarrow> apply_context \<Rightarrow> (nat \<times> apply_context) result" where
  "find_or_create_table env code scope table payer c =
     (case find_table code scope table (chain c) of
        Some (tid, _) \<Rightarrow> Inr (tid, c)
      | None \<Rightarrow>
          bindR (update_db_usage env payer (int table_id_object_size) c) (\<lambda>c.
          bindR (emplace table_clash \<lparr>tab_code = code, tab_scope = scope, tab_table = table, tab_payer = payer, tab_count = 0\<rparr>
                   (table_ids (chain c))) (\<lambda>idx.
          Inr (next_id (table_ids (chain c)), c\<lparr>chain := (chain c)\<lparr>table_ids := idx\<rparr>\<rparr>))))"

definition remove_table :: "'e exec_env_scheme \<Rightarrow> nat \<Rightarrow> apply_context \<Rightarrow> apply_context result" where
  "remove_table env tid c =
     bindR (table_at tid (chain c)) (\<lambda>t.
     bindR (update_db_usage env (tab_payer t) (- int table_id_object_size) c) (\<lambda>c.
     on_chain (\<lambda>st. bindR (remove tid (table_ids st)) (\<lambda>idx. Inr (st\<lparr>table_ids := idx\<rparr>))) c))"

definition count_rows :: "nat \<Rightarrow> (nat \<Rightarrow> nat) \<Rightarrow> chain_state \<Rightarrow> chain_state result" where
  "count_rows tid f st =
     bindR (modify table_clash tid (\<lambda>t. t\<lparr>tab_count := f (tab_count t)\<rparr>) (table_ids st)) (\<lambda>idx. Inr (st\<lparr>table_ids := idx\<rparr>))"

text \<open>The index by table and primary key, and what its iterators reach.\<close>

definition by_scope_primary :: "chain_state \<Rightarrow> (nat \<times> key_value_object) list" where
  "by_scope_primary st = sort_key (\<lambda>(i, v). row_key v) (indices (key_values st))"

definition first_row :: "(nat \<times> word64 \<Rightarrow> bool) \<Rightarrow> chain_state \<Rightarrow> (nat \<times> key_value_object) option" where
  "first_row p st = find (\<lambda>(i, v). p (row_key v)) (by_scope_primary st)"

definition last_row :: "(nat \<times> word64 \<Rightarrow> bool) \<Rightarrow> chain_state \<Rightarrow> (nat \<times> key_value_object) option" where
  "last_row p st = find (\<lambda>(i, v). p (row_key v)) (rev (by_scope_primary st))"

definition row_at :: "nat \<Rightarrow> chain_state \<Rightarrow> key_value_object result" where
  "row_at i st = of_option undefined_behaviour (find_object i (key_values st))"

text \<open>What the iterator of a row is, when the row is in the table; otherwise the given value.\<close>

definition iterator_of :: "nat \<Rightarrow> int \<Rightarrow> (nat \<times> key_value_object) option \<Rightarrow> iterator_cache \<Rightarrow> int \<times> word64 option \<times> iterator_cache" where
  "iterator_of tid otherwise row cache =
     (case row of
        None \<Rightarrow> (otherwise, None, cache)
      | Some (i, v) \<Rightarrow>
          if kv_t_id v \<noteq> tid then (otherwise, None, cache)
          else let (itr, cache) = cache_add i cache in (itr, Some (primary_key v), cache))"

definition db_store_i64 :: "'e exec_env_scheme \<Rightarrow> name \<Rightarrow> name \<Rightarrow> name \<Rightarrow> word64 \<Rightarrow> bytes \<Rightarrow> int call" where
  "db_store_i64 env scope table payer pk buffer c =
     bindR (find_or_create_table env (receiver c) scope table payer c) (\<lambda>(tid, c).
     bes_assert (payer \<noteq> 0) invalid_table_payer (
     let i = next_id (key_values (chain c)) in
     bindR (on_chain (\<lambda>st. bindR (emplace key_value_clash \<lparr>kv_t_id = tid, primary_key = pk, kv_payer = payer, kv_value = buffer\<rparr>
                (key_values st)) (\<lambda>idx. Inr (st\<lparr>key_values := idx\<rparr>))) c) (\<lambda>c.
     bindR (on_chain (count_rows tid (\<lambda>n. u32 (n + 1))) c) (\<lambda>c.
     bindR (update_db_usage env payer (i64 (int (length buffer + key_value_object_size))) c) (\<lambda>c.
     let (_, cache) = cache_table tid (keyval_cache c); (itr, cache) = cache_add i cache
     in Inr (itr, c\<lparr>keyval_cache := cache\<rparr>))))))"

definition db_update_i64 :: "'e exec_env_scheme \<Rightarrow> int \<Rightarrow> name \<Rightarrow> bytes \<Rightarrow> apply_context \<Rightarrow> apply_context result" where
  "db_update_i64 env itr payer buffer c =
     bindR (cache_get itr (keyval_cache c)) (\<lambda>i.
     bindR (row_at i (chain c)) (\<lambda>v.
     bindR (get_table (kv_t_id v) (keyval_cache c) (chain c)) (\<lambda>t.
     bes_assert (tab_code t = receiver c) table_access_violation (
     let old_size = i64 (int (length (kv_value v) + key_value_object_size));
         new_size = i64 (int (length buffer + key_value_object_size));
         payer = (if payer = 0 then kv_payer v else payer) in
     bindR (if kv_payer v \<noteq> payer then
              bindR (update_db_usage env (kv_payer v) (i64 (- old_size)) c) (update_db_usage env payer new_size)
            else if old_size \<noteq> new_size then update_db_usage env (kv_payer v) (i64 (new_size - old_size)) c
            else Inr c)
       (on_chain (\<lambda>st. bindR (modify key_value_clash i (\<lambda>v. v\<lparr>kv_value := buffer, kv_payer := payer\<rparr>) (key_values st)) (\<lambda>idx.
          Inr (st\<lparr>key_values := idx\<rparr>))))))))"

definition db_remove_i64 :: "'e exec_env_scheme \<Rightarrow> int \<Rightarrow> apply_context \<Rightarrow> apply_context result" where
  "db_remove_i64 env itr c =
     bindR (cache_get itr (keyval_cache c)) (\<lambda>i.
     bindR (row_at i (chain c)) (\<lambda>v.
     bindR (get_table (kv_t_id v) (keyval_cache c) (chain c)) (\<lambda>t.
     bes_assert (tab_code t = receiver c) table_access_violation (
     bindR (update_db_usage env (kv_payer v) (i64 (- int (length (kv_value v) + key_value_object_size))) c) (\<lambda>c.
     bindR (on_chain (count_rows (kv_t_id v) (\<lambda>n. u32_sub n 1)) c) (\<lambda>c.
     bindR (on_chain (\<lambda>st. bindR (remove i (key_values st)) (\<lambda>idx. Inr (st\<lparr>key_values := idx\<rparr>))) c) (\<lambda>c.
     bindR (table_at (kv_t_id v) (chain c)) (\<lambda>t.
     bindR (if tab_count t = 0 then remove_table env (kv_t_id v) c else Inr c) (\<lambda>c.
     bindR (cache_remove itr (keyval_cache c)) (\<lambda>cache.
     Inr (c\<lparr>keyval_cache := cache\<rparr>)))))))))))"

definition db_get_i64 :: "int \<Rightarrow> apply_context \<Rightarrow> bytes result" where
  "db_get_i64 itr c = bindR (cache_get itr (keyval_cache c)) (\<lambda>i. bindR (row_at i (chain c)) (\<lambda>v. Inr (kv_value v)))"

text \<open>The moves return the new iterator and, when it is not an end iterator, the primary key.\<close>

definition moved :: "apply_context \<Rightarrow> int \<times> word64 option \<times> iterator_cache \<Rightarrow> ((int \<times> word64 option) \<times> apply_context) result" where
  "moved c m = (case m of (itr, pk, cache) \<Rightarrow> Inr ((itr, pk), c\<lparr>keyval_cache := cache\<rparr>))"

definition db_next_i64 :: "int \<Rightarrow> apply_context \<Rightarrow> ((int \<times> word64 option) \<times> apply_context) result" where
  "db_next_i64 itr c =
     (if itr < -1 then Inr ((-1, None), c)
      else
        bindR (cache_get itr (keyval_cache c)) (\<lambda>i.
        bindR (row_at i (chain c)) (\<lambda>v.
        case first_row (\<lambda>k. row_key v < k) (chain c) of
          Some (j, w) \<Rightarrow>
            if kv_t_id w = kv_t_id v then moved c (iterator_of (kv_t_id v) (-1) (Some (j, w)) (keyval_cache c))
            else bindR (get_end_iterator_by_table_id (kv_t_id v) (keyval_cache c)) (\<lambda>ei. Inr ((ei, None), c))
        | None \<Rightarrow> bindR (get_end_iterator_by_table_id (kv_t_id v) (keyval_cache c)) (\<lambda>ei. Inr ((ei, None), c)))))"

definition db_previous_i64 :: "int \<Rightarrow> apply_context \<Rightarrow> ((int \<times> word64 option) \<times> apply_context) result" where
  "db_previous_i64 itr c =
     (if itr < -1 then
        bindR (find_table_by_end_iterator itr (keyval_cache c)) (\<lambda>tab.
        bindR (of_option invalid_table_iterator tab) (\<lambda>tid.
        bindR (table_at tid (chain c)) (\<lambda>_.
        moved c (iterator_of tid (-1) (last_row (\<lambda>k. fst k \<le> tid) (chain c)) (keyval_cache c)))))
      else
        bindR (cache_get itr (keyval_cache c)) (\<lambda>i.
        bindR (row_at i (chain c)) (\<lambda>v.
        moved c (iterator_of (kv_t_id v) (-1) (last_row (\<lambda>k. k < row_key v) (chain c)) (keyval_cache c)))))"

text \<open>The four calls that look a key up in a table: the row that is looked for is given by a search in the index.\<close>

definition in_table :: "name \<Rightarrow> name \<Rightarrow> name \<Rightarrow> (nat \<Rightarrow> chain_state \<Rightarrow> (nat \<times> key_value_object) option) \<Rightarrow> apply_context
    \<Rightarrow> int \<times> apply_context" where
  "in_table code scope table search c =
     (case find_table code scope table (chain c) of
        None \<Rightarrow> (-1, c)
      | Some (tid, _) \<Rightarrow>
          let (table_end_itr, cache) = cache_table tid (keyval_cache c);
              (itr, _, cache) = iterator_of tid table_end_itr (search tid (chain c)) cache
          in (itr, c\<lparr>keyval_cache := cache\<rparr>))"

definition db_find_i64 :: "name \<Rightarrow> name \<Rightarrow> name \<Rightarrow> word64 \<Rightarrow> apply_context \<Rightarrow> int \<times> apply_context" where
  "db_find_i64 code scope table pk = in_table code scope table (\<lambda>tid st. find_by row_key (tid, pk) (key_values st))"

definition db_lowerbound_i64 :: "name \<Rightarrow> name \<Rightarrow> name \<Rightarrow> word64 \<Rightarrow> apply_context \<Rightarrow> int \<times> apply_context" where
  "db_lowerbound_i64 code scope table pk = in_table code scope table (\<lambda>tid. first_row (\<lambda>k. (tid, pk) \<le> k))"

definition db_upperbound_i64 :: "name \<Rightarrow> name \<Rightarrow> name \<Rightarrow> word64 \<Rightarrow> apply_context \<Rightarrow> int \<times> apply_context" where
  "db_upperbound_i64 code scope table pk = in_table code scope table (\<lambda>tid. first_row (\<lambda>k. (tid, pk) < k))"

definition db_end_i64 :: "name \<Rightarrow> name \<Rightarrow> name \<Rightarrow> apply_context \<Rightarrow> int \<times> apply_context" where
  "db_end_i64 code scope table = in_table code scope table (\<lambda>_ _. None)"

section \<open>Calls of contracts\<close>

definition has_recipient :: "name \<Rightarrow> apply_context \<Rightarrow> bool" where
  "has_recipient n c \<longleftrightarrow> n \<in> set (notified c)"

definition require_recipient :: "name \<Rightarrow> apply_context \<Rightarrow> apply_context" where
  "require_recipient n c = (if has_recipient n c then c else c\<lparr>notified := notified c @ [n]\<rparr>)"

definition require_permission_level :: "name \<Rightarrow> name \<Rightarrow> apply_context \<Rightarrow> unit result" where
  "require_permission_level account perm c =
     bes_assert (Permission_Level account perm \<in> set (act_authorization (act c))) missing_auth_exception (Inr ())"

text \<open>
  \<open>check_authorization\<close> with \<open>checktime\<close> as the function that it calls, and the next reading of the clock.
\<close>

definition check_in_context :: "'e exec_env_scheme \<Rightarrow> action list \<Rightarrow> int \<Rightarrow> apply_context \<Rightarrow> apply_context result" where
  "check_in_context env acts delay c =
     (let tc = trx_context c in
      bindR (check_authorization (native_codec.truncate (ce_codec (contract env)))
               (\<lambda>n. if \<not> skip_trx_checks env \<and> i64 (clock env (readings tc) (Suc n)) > tc_deadline tc then Inl (deadline_failure tc) else Inr ())
               acts [] [Permission_Level (receiver c) besio_code_name] delay False (perms_of (chain c))) (\<lambda>_.
      Inr c))"

definition count_reading :: "apply_context \<Rightarrow> apply_context" where
  "count_reading c = c\<lparr>trx_context := next_reading (trx_context c)\<rparr>"

definition require_inline_authorizer :: "chain_state \<Rightarrow> permission_level \<Rightarrow> unit \<Rightarrow> unit result" where
  "require_inline_authorizer st auth u =
     bes_assert (find_account (actor auth) (cdb st) \<noteq> None) action_validate_exception
    (bindR (find_permission auth (perms_of st)) (\<lambda>p. bes_assert (p \<noteq> None) action_validate_exception (Inr ())))"

definition execute_inline :: "'e exec_env_scheme \<Rightarrow> action \<Rightarrow> apply_context \<Rightarrow> apply_context result" where
  "execute_inline env a c =
     bes_assert (find_account (act_account a) (cdb (chain c)) \<noteq> None) action_validate_exception (
     bindR (foldR (require_inline_authorizer (chain c)) (act_authorization a) ()) (\<lambda>_.
     bindR (if \<not> skip_auth_check env \<and> \<not> ctx_privileged c \<and> act_account a \<noteq> receiver c
            then check_in_context env [a] (block_time_point env - tc_published (trx_context c)) c
            else Inr c) (\<lambda>c.
     Inr (count_reading c\<lparr>inline_actions := inline_actions c @ [a]\<rparr>))))"

definition execute_context_free_inline :: "action \<Rightarrow> apply_context \<Rightarrow> apply_context result" where
  "execute_context_free_inline a c =
     bes_assert (find_account (act_account a) (cdb (chain c)) \<noteq> None) action_validate_exception
    (bes_assert (act_authorization a = []) action_validate_exception
    (Inr (c\<lparr>cfa_inline_actions := cfa_inline_actions c @ [a]\<rparr>)))"

text \<open>The conversion of a time to seconds, with the offset that rounds up.\<close>

definition expiration_after :: "time_point \<Rightarrow> nat" where
  "expiration_after t = nat (tdiv (t + 999999) 1000000 mod 2 ^ 32)"

definition add_net :: "'e exec_env_scheme \<Rightarrow> nat \<Rightarrow> apply_context \<Rightarrow> apply_context result" where
  "add_net env u c = bindR (add_net_usage env u (trx_context c)) (\<lambda>tc. Inr (c\<lparr>trx_context := tc\<rparr>))"

definition check_deferred :: "'e exec_env_scheme \<Rightarrow> name \<Rightarrow> transaction \<Rightarrow> apply_context \<Rightarrow> apply_context result" where
  "check_deferred env payer t c =
     (if skip_auth_check env \<or> ctx_privileged c then Inr c
      else
        bindR (if payer \<noteq> receiver c then require_actor payer c else Inr ()) (\<lambda>_.
        if list_ex (\<lambda>a. act_account a \<noteq> receiver c) (actions t)
        then check_in_context env (actions t) (sec_to_time (delay_sec t)) c else Inr c))"

text \<open>A transaction that replaces another one keeps its id; the memory of the old one stays billed.\<close>

definition store_generated :: "'e exec_env_scheme \<Rightarrow> nat \<Rightarrow> name \<Rightarrow> transaction \<Rightarrow> bytes \<Rightarrow> bool \<Rightarrow> apply_context \<Rightarrow> apply_context result" where
  "store_generated env sender_id payer t packed replace_existing c =
     (let st = chain c; until = block_time_point env + sec_to_time (delay_sec t);
          gto = (\<lambda>tid. \<lparr>gto_trx_id = tid, gto_sender = receiver c, gto_sender_id = sender_id, gto_payer = payer, delay_until = until,
                   gto_expiration = until + sec_to_time (deferred_trx_expiration_window (config_of st)),
                   published = block_time_point env, gto_packed_trx = packed\<rparr>) in
      case find (\<lambda>g. gto_sender g = receiver c \<and> gto_sender_id g = sender_id) (generated_transactions (perms_of st)) of
        Some g \<Rightarrow>
          bes_assert replace_existing deferred_tx_duplicate (
          bes_assert (\<not> producing env) subjective_block_production_exception (
          on_chain (on_permissions (\<lambda>adb. Inr (adb\<lparr>generated_transactions :=
            map (\<lambda>h. if h = g then gto (gto_trx_id g) else h) (generated_transactions adb)\<rparr>))) c))
      | None \<Rightarrow>
          bindR (trx_id (trx_codec env) t) (\<lambda>tid. on_chain (on_permissions (create_generated (gto tid))) c))"

definition schedule_deferred_transaction :: "'e exec_env_scheme \<Rightarrow> nat \<Rightarrow> name \<Rightarrow> transaction \<Rightarrow> bool \<Rightarrow> apply_context \<Rightarrow> apply_context result" where
  "schedule_deferred_transaction env sender_id payer t replace_existing c =
     bes_assert (context_free_actions t = []) cfa_inside_generated_tx (
     let t = set_reference_block (head_id env) (t\<lparr>expiration := expiration_after (block_time_point env)\<rparr>) in
     bindR (validate_referenced_accounts t (chain c)) (\<lambda>_.
     bindR (add_net env (retirement_net_usage (config_of (chain c))) c) (\<lambda>c.
     bindR (check_deferred env payer t c) (\<lambda>c.
     bindR (pack_transaction t) (\<lambda>packed.
     bindR (store_generated env sender_id payer t packed replace_existing c) (\<lambda>c.
     bes_assert (is_ram_billing_in_notify_allowed env \<or> receiver c = act_account (act c) \<or> receiver c = payer \<or> ctx_privileged c)
       subjective_block_production_exception (
     bindR (on_chain (on_cdb (add_ram_usage payer (i64 (int (generated_transaction_object_size + u32 (length packed)))))) c) (\<lambda>c.
     Inr (count_reading c)))))))))"

definition cancel_deferred :: "nat \<Rightarrow> bool call" where
  "cancel_deferred sender_id c =
     bindR (on_chain (on_cdb (cancel_deferred_transaction sender_id (receiver c))) c) (\<lambda>c'.
     Inr (find (\<lambda>g. gto_sender g = receiver c \<and> gto_sender_id g = sender_id) (generated_transactions (perms_of (chain c))) \<noteq> None, c'))"

text \<open>The calls of privileged contracts.\<close>

definition set_resource_limits :: "name \<Rightarrow> int \<Rightarrow> int \<Rightarrow> int \<Rightarrow> apply_context \<Rightarrow> apply_context result" where
  "set_resource_limits account ram net cpu c =
     bes_assert (ram \<ge> -1) wasm_execution_error (
     bes_assert (net \<ge> -1) wasm_execution_error (
     bes_assert (cpu \<ge> -1) wasm_execution_error (
     on_chain (on_cdb (\<lambda>d.
       bindR (set_account_limits account ram net cpu (resources d)) (\<lambda>(decreased, r).
       Inr (d\<lparr>resources := r,
               validate_ram_usage := (if decreased \<and> account \<notin> set (validate_ram_usage d)
                                      then insort account (validate_ram_usage d) else validate_ram_usage d)\<rparr>)))) c)))"

definition set_proposed_producers :: "'e exec_env_scheme \<Rightarrow> producer_key list \<Rightarrow> chain_state \<Rightarrow> int \<times> chain_state" where
  "set_proposed_producers env ps st =
     (let g = gpo st; cur_block_num = u32 (head_num env + 1) in
      if (case proposed_schedule_block_num g of
            None \<Rightarrow> False
          | Some n \<Rightarrow> n \<noteq> cur_block_num \<or> ps = producers (proposed_schedule g))
      then (-1, st)
      else
        let current = (if producers (pending_producers env) = [] then active_producers env else pending_producers env) in
        if ps = producers current then (-1, st)
        else
          let sch = \<lparr>version = u32 (version current + 1), producers = ps\<rparr> in
          (int (version sch), st\<lparr>gpo := g\<lparr>proposed_schedule_block_num := Some cur_block_num, proposed_schedule := sch\<rparr>\<rparr>))"

definition propose_producers :: "'e exec_env_scheme \<Rightarrow> producer_key list \<Rightarrow> int call" where
  "propose_producers env ps c =
     bes_assert (length ps \<le> max_producers) wasm_execution_error (
     bindR (foldR (\<lambda>p _. bes_assert (find_account (producer_name p) (cdb (chain c)) \<noteq> None) wasm_execution_error
                     (bes_assert (key_valid env (block_signing_key p)) wasm_execution_error (Inr ()))) ps ()) (\<lambda>_.
     bes_assert (distinct (map producer_name ps)) wasm_execution_error (
     let (v, st) = set_proposed_producers env ps (chain c) in Inr (v, c\<lparr>chain := st\<rparr>))))"

text \<open>The authorization manager reads two parameters of the configuration; its state has copies of them.\<close>

definition configure :: "chain_config \<Rightarrow> chain_state \<Rightarrow> chain_state" where
  "configure cfg st =
     st\<lparr>gpo := (gpo st)\<lparr>configuration := cfg\<rparr>,
        cdb := (cdb st)\<lparr>auth_db := (perms_of st)\<lparr>max_transaction_delay := cfg_max_transaction_delay cfg,
                                                max_authority_depth := cfg_max_authority_depth cfg\<rparr>\<rparr>\<rparr>"

definition set_blockchain_parameters :: "chain_config \<Rightarrow> apply_context \<Rightarrow> apply_context result" where
  "set_blockchain_parameters cfg c = bindR (validate_config cfg) (\<lambda>_. Inr (c\<lparr>chain := configure cfg (chain c)\<rparr>))"

definition set_privileged :: "name \<Rightarrow> bool \<Rightarrow> apply_context \<Rightarrow> apply_context result" where
  "set_privileged n is_priv =
     on_chain (on_cdb (\<lambda>d. bindR (get_account n d) (\<lambda>(i, _).
       bindR (modify account_clash i (\<lambda>a. a\<lparr>privileged := is_priv\<rparr>) (accounts d)) (\<lambda>idx. Inr (d\<lparr>accounts := idx\<rparr>)))))"

section \<open>Contracts\<close>

datatype (plugins only: code) contract_run =
    Return
  | Abort chain_exception
  | Check_Time contract_run
  | Require_Auth name contract_run
  | Require_Auth_Level name name contract_run
  | Has_Auth name "bool \<Rightarrow> contract_run"
  | Is_Account name "bool \<Rightarrow> contract_run"
  | Require_Recipient name contract_run
  | Send_Inline action contract_run
  | Send_Context_Free_Inline action contract_run
  | Send_Deferred nat name transaction bool contract_run
  | Cancel_Deferred nat "bool \<Rightarrow> contract_run"
  | Current_Time "time_point \<Rightarrow> contract_run"
  | Get_Active_Producers "name list \<Rightarrow> contract_run"
  | Db_Store name name name word64 bytes "int \<Rightarrow> contract_run"
  | Db_Update int name bytes contract_run
  | Db_Remove int contract_run
  | Db_Get int "bytes \<Rightarrow> contract_run"
  | Db_Next int "int \<times> word64 option \<Rightarrow> contract_run"
  | Db_Previous int "int \<times> word64 option \<Rightarrow> contract_run"
  | Db_Find name name name word64 "int \<Rightarrow> contract_run"
  | Db_Lowerbound name name name word64 "int \<Rightarrow> contract_run"
  | Db_Upperbound name name name word64 "int \<Rightarrow> contract_run"
  | Db_End name name name "int \<Rightarrow> contract_run"
  | Set_Resource_Limits name int int int contract_run
  | Set_Proposed_Producers "producer_key list" "int \<Rightarrow> contract_run"
  | Set_Blockchain_Parameters chain_config contract_run
  | Set_Privileged name bool contract_run

text \<open>The constructors of the classes \<^verbatim>\<open>context_aware_api\<close> and \<^verbatim>\<open>privileged_api\<close>.\<close>

definition context_aware :: "apply_context \<Rightarrow> apply_context result" where
  "context_aware c = bes_assert (\<not> context_free c) unaccessible_api (Inr c)"

definition privileged_call :: "apply_context \<Rightarrow> apply_context result" where
  "privileged_call c = bindR (context_aware c) (\<lambda>c. bes_assert (ctx_privileged c) unaccessible_api (Inr c))"

definition send_inline :: "'e exec_env_scheme \<Rightarrow> action \<Rightarrow> apply_context \<Rightarrow> apply_context result" where
  "send_inline env a c =
     bindR (pack_action a) (\<lambda>data.
     bes_assert (length data < max_inline_action_size (config_of (chain c))) inline_action_too_big (execute_inline env a c))"

definition send_context_free_inline :: "action \<Rightarrow> apply_context \<Rightarrow> apply_context result" where
  "send_context_free_inline a c =
     bindR (pack_action a) (\<lambda>data.
     bes_assert (length data < max_inline_action_size (config_of (chain c))) inline_action_too_big (execute_context_free_inline a c))"

primrec run_contract :: "'e exec_env_scheme \<Rightarrow> contract_run \<Rightarrow> apply_context \<Rightarrow> apply_context result" where
  "run_contract env Return c = Inr c"
| "run_contract env (Abort e) c = Inl e"
| "run_contract env (Check_Time r) c =
     bindR (checktime env (trx_context c)) (\<lambda>tc. run_contract env r (c\<lparr>trx_context := tc\<rparr>))"
| "run_contract env (Require_Auth n r) c =
     bindR (context_aware c) (\<lambda>c. bindR (require_actor n c) (\<lambda>_. run_contract env r c))"
| "run_contract env (Require_Auth_Level n p r) c =
     bindR (context_aware c) (\<lambda>c. bindR (require_permission_level n p c) (\<lambda>_. run_contract env r c))"
| "run_contract env (Has_Auth n k) c =
     bindR (context_aware c) (\<lambda>c. run_contract env (k (n \<in> set (map actor (act_authorization (act c))))) c)"
| "run_contract env (Is_Account n k) c =
     bindR (context_aware c) (\<lambda>c. run_contract env (k (find_account n (cdb (chain c)) \<noteq> None)) c)"
| "run_contract env (Require_Recipient n r) c =
     bindR (context_aware c) (\<lambda>c. run_contract env r (require_recipient n c))"
| "run_contract env (Send_Inline a r) c =
     bindR (context_aware c) (\<lambda>c. bindR (send_inline env a c) (run_contract env r))"
| "run_contract env (Send_Context_Free_Inline a r) c =
     bindR (context_aware c) (\<lambda>c. bindR (send_context_free_inline a c) (run_contract env r))"
| "run_contract env (Send_Deferred i p t b r) c =
     bindR (context_aware c) (\<lambda>c. bindR (schedule_deferred_transaction env i p t b c) (run_contract env r))"
| "run_contract env (Cancel_Deferred i k) c =
     bindR (context_aware c) (\<lambda>c. bindR (cancel_deferred i c) (\<lambda>(b, c). run_contract env (k b) c))"
| "run_contract env (Current_Time k) c =
     bindR (context_aware c) (\<lambda>c. run_contract env (k (block_time_point env)) c)"
| "run_contract env (Get_Active_Producers k) c =
     bindR (context_aware c) (\<lambda>c. run_contract env (k (map producer_name (producers (active_producers env)))) c)"
| "run_contract env (Db_Store s t p i b k) c =
     bindR (context_aware c) (\<lambda>c. bindR (db_store_i64 env s t p i b c) (\<lambda>(j, c). run_contract env (k j) c))"
| "run_contract env (Db_Update i p b r) c =
     bindR (context_aware c) (\<lambda>c. bindR (db_update_i64 env i p b c) (run_contract env r))"
| "run_contract env (Db_Remove i r) c =
     bindR (context_aware c) (\<lambda>c. bindR (db_remove_i64 env i c) (run_contract env r))"
| "run_contract env (Db_Get i k) c =
     bindR (context_aware c) (\<lambda>c. bindR (db_get_i64 i c) (\<lambda>b. run_contract env (k b) c))"
| "run_contract env (Db_Next i k) c =
     bindR (context_aware c) (\<lambda>c. bindR (db_next_i64 i c) (\<lambda>(m, c). run_contract env (k m) c))"
| "run_contract env (Db_Previous i k) c =
     bindR (context_aware c) (\<lambda>c. bindR (db_previous_i64 i c) (\<lambda>(m, c). run_contract env (k m) c))"
| "run_contract env (Db_Find a s t i k) c =
     bindR (context_aware c) (\<lambda>c. case db_find_i64 a s t i c of (j, c) \<Rightarrow> run_contract env (k j) c)"
| "run_contract env (Db_Lowerbound a s t i k) c =
     bindR (context_aware c) (\<lambda>c. case db_lowerbound_i64 a s t i c of (j, c) \<Rightarrow> run_contract env (k j) c)"
| "run_contract env (Db_Upperbound a s t i k) c =
     bindR (context_aware c) (\<lambda>c. case db_upperbound_i64 a s t i c of (j, c) \<Rightarrow> run_contract env (k j) c)"
| "run_contract env (Db_End a s t k) c =
     bindR (context_aware c) (\<lambda>c. case db_end_i64 a s t c of (j, c) \<Rightarrow> run_contract env (k j) c)"
| "run_contract env (Set_Resource_Limits n ram net cpu r) c =
     bindR (privileged_call c) (\<lambda>c. bindR (set_resource_limits n ram net cpu c) (run_contract env r))"
| "run_contract env (Set_Proposed_Producers ps k) c =
     bindR (privileged_call c) (\<lambda>c. bindR (propose_producers env ps c) (\<lambda>(v, c). run_contract env (k v) c))"
| "run_contract env (Set_Blockchain_Parameters cfg r) c =
     bindR (privileged_call c) (\<lambda>c. bindR (set_blockchain_parameters cfg c) (run_contract env r))"
| "run_contract env (Set_Privileged n b r) c =
     bindR (privileged_call c) (\<lambda>c. bindR (set_privileged n b c) (run_contract env r))"

section \<open>Execution of actions\<close>

text \<open>\<open>wasm\<close> gives, for the hash of a code, the receiver and the action, the run of the contract.\<close>

record vm_env = exec_env +
  wasm :: "sha256 \<Rightarrow> name \<Rightarrow> action \<Rightarrow> contract_run"

definition has_apply_handler :: "name \<Rightarrow> action \<Rightarrow> bool" where
  "has_apply_handler r a \<longleftrightarrow> r = system_account_name \<and> act_account a = system_account_name
     \<and> act_name a \<in> {newaccount_name, setcode_name, setabi_name, updateauth_name, deleteauth_name, linkauth_name, unlinkauth_name,
                     canceldelay_name}"

definition check_lists :: "'e exec_env_scheme \<Rightarrow> apply_context \<Rightarrow> unit result" where
  "check_lists env c =
     (if can_subjectively_fail (trx_context c) \<and> producing env then
        bindR (check_contract_list (settings env) (receiver c)) (\<lambda>_.
        check_action_list (settings env) (act_account (act c)) (act_name (act c)))
      else Inr ())"

text \<open>The billing timer stands still while a code is compiled that is not in the cache of the node.\<close>

definition instantiate :: "'e exec_env_scheme \<Rightarrow> sha256 \<Rightarrow> apply_context \<Rightarrow> apply_context" where
  "instantiate env code_id c =
     (if instantiated env code_id then c
      else c\<lparr>trx_context := resume_billing_timer env (pause_billing_timer env (trx_context c))\<rparr>)"

definition apply_handler :: "vm_env \<Rightarrow> apply_context \<Rightarrow> apply_context result" where
  "apply_handler env c =
     (if has_apply_handler (receiver c) (act c) then
        bindR (check_lists env c) (\<lambda>_. on_chain (on_cdb (\<lambda>d. apply_native (contract env) d (act c))) c)
      else Inr c)"

definition apply_wasm :: "vm_env \<Rightarrow> account_object \<Rightarrow> apply_context \<Rightarrow> apply_context result" where
  "apply_wasm env a c =
     (if acct_code a \<noteq> [] \<and> \<not> (act_account (act c) = system_account_name \<and> act_name (act c) = setcode_name
                                \<and> receiver c = system_account_name) then
        bindR (check_lists env c) (\<lambda>_. run_contract env (wasm env (code_version a) (receiver c) (act c)) (instantiate env (code_version a) c))
      else Inr c)"

definition apply_code :: "vm_env \<Rightarrow> apply_context \<Rightarrow> apply_context result" where
  "apply_code env c =
     bindR (get_account (receiver c) (cdb (chain c))) (\<lambda>(_, a).
     bindR (apply_handler env (c\<lparr>ctx_privileged := privileged a\<rparr>)) (apply_wasm env a))"

definition next_global_sequence :: "chain_state \<Rightarrow> nat \<times> chain_state" where
  "next_global_sequence st = (let n = u64 (global_action_sequence st + 1) in (n, st\<lparr>global_action_sequence := n\<rparr>))"

definition count_sequence :: "name \<Rightarrow> (account_sequence_object \<Rightarrow> nat) \<Rightarrow> (account_sequence_object \<Rightarrow> account_sequence_object)
    \<Rightarrow> chain_state \<Rightarrow> (nat \<times> chain_state) result" where
  "count_sequence n field f st =
     bindR (get_account_sequence n (cdb st)) (\<lambda>(i, s).
     bindR (modify sequence_clash i f (account_sequences (cdb st))) (\<lambda>idx.
     Inr (field (f s), st\<lparr>cdb := (cdb st)\<lparr>account_sequences := idx\<rparr>\<rparr>)))"

definition next_recv_sequence :: "name \<Rightarrow> chain_state \<Rightarrow> (nat \<times> chain_state) result" where
  "next_recv_sequence n = count_sequence n recv_sequence (\<lambda>s. s\<lparr>recv_sequence := u64 (recv_sequence s + 1)\<rparr>)"

definition next_auth_sequence :: "name \<Rightarrow> chain_state \<Rightarrow> (nat \<times> chain_state) result" where
  "next_auth_sequence n = count_sequence n auth_sequence (\<lambda>s. s\<lparr>auth_sequence := u64 (auth_sequence s + 1)\<rparr>)"

definition count_authorization :: "permission_level \<Rightarrow> (name \<times> nat) list \<times> chain_state \<Rightarrow> ((name \<times> nat) list \<times> chain_state) result" where
  "count_authorization auth acc =
     (case acc of (m, st) \<Rightarrow> bindR (next_auth_sequence (actor auth) st) (\<lambda>(n, st). Inr (map_put (actor auth) n m, st)))"

text \<open>The receipt of an action.  \<open>used_authorizations\<close> belongs to the context of the action, which ends here.\<close>

definition record_action :: "vm_env \<Rightarrow> apply_context \<Rightarrow> apply_context result" where
  "record_action env c =
     bindR (pack_action (act c)) (\<lambda>packed.
     case next_global_sequence (chain c) of (gs, st) \<Rightarrow>
     bindR (next_recv_sequence (receiver c) st) (\<lambda>(rs, st).
     bindR (get_account_sequence (act_account (act c)) (cdb st)) (\<lambda>(_, account_sequence).
     bindR (foldR count_authorization (act_authorization (act c)) ([], st)) (\<lambda>(auths, st).
     let r = \<lparr>ar_receiver = receiver c, act_digest = hash_bytes (trx_codec env) packed, ar_global_sequence = gs, ar_recv_sequence = rs,
              ar_auth_sequence = auths, ar_code_sequence = u32 (code_sequence account_sequence),
              ar_abi_sequence = u32 (abi_sequence account_sequence)\<rparr>;
         tc = trx_context c
     in Inr (c\<lparr>chain := st\<lparr>cdb := (cdb st)\<lparr>used_authorizations := []\<rparr>\<rparr>,
               trx_context := tc\<lparr>executed_actions := executed_actions tc @ [r]\<rparr>\<rparr>)))))"

definition exec_one :: "vm_env \<Rightarrow> apply_context \<Rightarrow> apply_context result" where
  "exec_one env c = bindR (capture_and_rethrow (apply_code env c)) (record_action env)"

text \<open>
  The loop over the accounts that are notified: the list grows while it runs.  Its index is a 32-bit number; were there as many
  accounts, it would start over.
\<close>

function exec_notified :: "vm_env \<Rightarrow> nat \<Rightarrow> apply_context \<Rightarrow> apply_context result" where
  "exec_notified env i c =
     (if i < length (notified c) then
        if i + 1 < 2 ^ 32 then bindR (exec_one env (c\<lparr>receiver := notified c ! i\<rparr>)) (exec_notified env (i + 1))
        else Inl undefined_behaviour
      else Inr c)"
  by pat_completeness auto

termination
  by (relation "measure (\<lambda>(env, i, c). 2 ^ 32 - i)") auto

declare exec_notified.simps [simp del]

definition new_apply_context :: "nat \<Rightarrow> bool \<Rightarrow> name \<Rightarrow> action \<Rightarrow> chain_state \<times> transaction_context \<Rightarrow> apply_context" where
  "new_apply_context depth cf r a s =
     \<lparr>chain = fst s, trx_context = snd s, act = a, receiver = r, ctx_privileged = False, context_free = cf, recurse_depth = depth,
      notified = [r], inline_actions = [], cfa_inline_actions = [], keyval_cache = empty_cache\<rparr>"

lemma foldR_fundef_cong [fundef_cong]:
  "xs = ys \<Longrightarrow> s = t \<Longrightarrow> (\<And>x s. x \<in> set ys \<Longrightarrow> f x s = g x s) \<Longrightarrow> foldR f xs s = foldR g ys t"
  by (induction xs arbitrary: ys s t) (auto simp: bindR_def split: sum.splits)

text \<open>
  \<open>transaction_context::dispatch_action\<close> with \<open>apply_context::exec\<close>.  The limit of the depth is a 16-bit number, so the recursion ends whatever the
  configuration is.
\<close>

function dispatch_action :: "vm_env \<Rightarrow> nat \<Rightarrow> bool \<Rightarrow> name \<Rightarrow> action \<Rightarrow> chain_state \<times> transaction_context
    \<Rightarrow> (chain_state \<times> transaction_context) result" where
  "dispatch_action env depth cf r a s =
     bindR (exec_notified env 0 (new_apply_context depth cf r a s)) (\<lambda>c.
     let cfas = cfa_inline_actions c; inls = inline_actions c in
     if (cfas \<noteq> [] \<or> inls \<noteq> []) \<and> \<not> depth < u16 (max_inline_action_depth (config_of (chain c))) then Inl transaction_exception
     else
       bindR (foldR (\<lambda>b. dispatch_action env (depth + 1) True (act_account b) b) cfas (chain c, trx_context c))
       (\<lambda>(st, tc). foldR (\<lambda>b. dispatch_action env (depth + 1) False (act_account b) b) inls (st, tc)))"
  by pat_completeness auto

termination
  by (relation "measure (\<lambda>(env, depth, cf, r, a, s). 2 ^ 16 - depth)") (auto simp: u16_def)

declare dispatch_action.simps [simp del]

section \<open>Skipped checks\<close>

text \<open>The environment in which more checks are skipped.\<close>

definition relaxed :: "bool \<Rightarrow> bool \<Rightarrow> 'e exec_env_scheme \<Rightarrow> 'e exec_env_scheme" where
  "relaxed skip_auth skip_trx env = env\<lparr>skip_auth_check := skip_auth, skip_trx_checks := skip_trx\<rparr>"

definition relaxes :: "bool \<Rightarrow> bool \<Rightarrow> 'e exec_env_scheme \<Rightarrow> bool" where
  "relaxes skip_auth skip_trx env \<longleftrightarrow> (skip_auth_check env \<longrightarrow> skip_auth) \<and> (skip_trx_checks env \<longrightarrow> skip_trx)"

lemma relaxed_simps [simp]:
  "contract (relaxed a t env) = contract env" "trx_codec (relaxed a t env) = trx_codec env" "settings (relaxed a t env) = settings env"
  "chain_id (relaxed a t env) = chain_id env" "head_id (relaxed a t env) = head_id env" "head_num (relaxed a t env) = head_num env"
  "block_time (relaxed a t env) = block_time env" "active_producers (relaxed a t env) = active_producers env"
  "pending_producers (relaxed a t env) = pending_producers env" "key_valid (relaxed a t env) = key_valid env"
  "instantiated (relaxed a t env) = instantiated env" "clock (relaxed a t env) = clock env"
  "skip_auth_check (relaxed a t env) = a" "skip_trx_checks (relaxed a t env) = t"
  by (simp_all add: relaxed_def)

lemma relaxed_wasm [simp]: "wasm (relaxed a t env) = wasm env"
  by (simp add: relaxed_def)

lemma relaxed_same [simp]:
  "now (relaxed a t env) = now env"
  "pause_billing_timer (relaxed a t env) = pause_billing_timer env"
  "resume_billing_timer (relaxed a t env) = resume_billing_timer env"
  "account_can_pay (relaxed a t env) = account_can_pay env"
  "block_slot (relaxed a t env) = block_slot env"
  "validate_expiration (relaxed a t env) = validate_expiration env"
  by (simp_all add: fun_eq_iff now_def pause_billing_timer_def resume_billing_timer_def account_can_pay_def block_slot_def
      validate_expiration_def)

lemma relaxed_pay [simp]: "max_bandwidth_billed_accounts_can_pay (relaxed a t env) = max_bandwidth_billed_accounts_can_pay env"
  by (simp add: fun_eq_iff max_bandwidth_billed_accounts_can_pay_def)

lemma relaxed_db [simp]:
  "update_db_usage (relaxed a t env) = update_db_usage env"
  "is_ram_billing_in_notify_allowed (relaxed a t env) = is_ram_billing_in_notify_allowed env"
  by (simp_all add: fun_eq_iff update_db_usage_def is_ram_billing_in_notify_allowed_def)

lemma relaxed_calls [simp]:
  "find_or_create_table (relaxed a t env) = find_or_create_table env"
  "remove_table (relaxed a t env) = remove_table env"
  "db_update_i64 (relaxed a t env) = db_update_i64 env"
  "store_generated (relaxed a t env) = store_generated env"
  "set_proposed_producers (relaxed a t env) = set_proposed_producers env"
  "instantiate (relaxed a t env) = instantiate env"
  "check_lists (relaxed a t env) = check_lists env"
  unfolding find_or_create_table_def remove_table_def db_update_i64_def store_generated_def set_proposed_producers_def
    instantiate_def check_lists_def relaxed_simps relaxed_same relaxed_db by (rule refl)+

lemma relaxed_calls2 [simp]:
  "db_store_i64 (relaxed a t env) = db_store_i64 env"
  "db_remove_i64 (relaxed a t env) = db_remove_i64 env"
  "propose_producers (relaxed a t env) = propose_producers env"
  unfolding db_store_i64_def db_remove_i64_def propose_producers_def relaxed_simps relaxed_db relaxed_calls by (rule refl)+

lemma relaxed_net_usage [passing]: "relaxes a t env \<Longrightarrow> passes_to (check_net_usage env tc) (check_net_usage (relaxed a t env) tc)"
  by (auto simp: check_net_usage_def relaxes_def passes_to_def)

lemma relaxed_add_net_usage [passing]: "relaxes a t env \<Longrightarrow> passes_to (add_net_usage env u tc) (add_net_usage (relaxed a t env) u tc)"
  by (auto simp: add_net_usage_def intro!: passing)

lemma relaxed_checktime [passing]: "relaxes a t env \<Longrightarrow> passes_to (checktime env tc) (checktime (relaxed a t env) tc)"
  by (auto simp: checktime_def relaxes_def passes_to_def)

lemma relaxed_cpu_usage [passing]:
  "relaxes a t env \<Longrightarrow> passes_to (validate_cpu_usage_to_bill env u b st tc) (validate_cpu_usage_to_bill (relaxed a t env) u b st tc)"
  by (auto simp: validate_cpu_usage_to_bill_def relaxes_def passes_to_def)

lemma relaxed_init [passing]: "relaxes a t env \<Longrightarrow> passes_to (init env u s) (init (relaxed a t env) u s)"
  unfolding init_def init_check_def init_limits_def by (auto intro!: passing)

lemma relaxed_init_trx [passing]:
  "relaxes a t env \<Longrightarrow> passes_to (init_for_implicit_trx env u s) (init_for_implicit_trx (relaxed a t env) u s)"
  unfolding init_for_implicit_trx_def by (simp, intro passing)

lemma relaxed_finalize [passing]: "relaxes a t env \<Longrightarrow> passes_to (finalize env s) (finalize (relaxed a t env) s)"
  unfolding finalize_def by (simp, intro passing, assumption+)

lemma relaxed_schedule [passing]: "relaxes a t env \<Longrightarrow> passes_to (schedule_transaction env s) (schedule_transaction (relaxed a t env) s)"
  unfolding schedule_transaction_def by (simp, intro passing, assumption+)

lemma relaxed_input [passing]:
  "relaxes a t env \<Longrightarrow> passes_to (init_for_input_trx env u p sk s) (init_for_input_trx (relaxed a t env) u p sk s)"
  unfolding init_for_input_trx_def relaxed_simps relaxed_same
  by (intro passing) (auto simp: relaxes_def passes_to_def)

lemma passes_check_authorization [passing]:
  "(\<And>n. passes_to (f n) (g n)) \<Longrightarrow> passes_to (check_authorization nc f acts ks ps d u adb) (check_authorization nc g acts ks ps d u adb)"
  unfolding check_authorization_def collect_action_def collect_auth_def check_collected_def
  by (intro passing)

lemma relaxed_check_in_context [passing]:
  "relaxes a t env \<Longrightarrow> passes_to (check_in_context env acts d c) (check_in_context (relaxed a t env) acts d c)"
  unfolding check_in_context_def relaxed_simps
  by (intro passing) (auto simp: relaxes_def passes_to_def)

lemma relaxed_add_net [passing]: "relaxes a t env \<Longrightarrow> passes_to (add_net env u c) (add_net (relaxed a t env) u c)"
  unfolding add_net_def by (intro passing)

lemma check_in_context_same: "check_in_context env acts d c = Inr c' \<Longrightarrow> c' = c"
  by (auto simp: check_in_context_def Let_def bindR_eq_Inr)

lemma relaxed_optional_check [passing]:
  "relaxes a t env \<Longrightarrow> passes_to (if \<not> skip_auth_check env \<and> P then check_in_context env acts d c else Inr c)
     (if \<not> a \<and> P then check_in_context (relaxed a t env) acts d c else Inr c)"
  using relaxed_check_in_context [of a t env acts d c] by (cases a) (auto simp: passes_to_def relaxes_def dest: check_in_context_same)

lemma relaxed_inline [passing]: "relaxes a t env \<Longrightarrow> passes_to (send_inline env b c) (send_inline (relaxed a t env) b c)"
  unfolding send_inline_def execute_inline_def relaxed_simps by (intro passing) assumption+

lemma check_deferred_same: "check_deferred env p b c = Inr c' \<Longrightarrow> c' = c"
  by (auto simp: check_deferred_def bindR_eq_Inr split: if_splits dest: check_in_context_same)

lemma relaxed_check_deferred [passing]:
  assumes "relaxes a t env"
  shows "passes_to (check_deferred env p b c) (check_deferred (relaxed a t env) p b c)"
proof (cases a)
  case True
  then show ?thesis using check_deferred_same [of env p b c] by (auto simp: passes_to_def check_deferred_def [of "relaxed True t env"])
next
  case False
  then have same: "skip_auth_check env = a" using assms by (simp add: relaxes_def)
  show ?thesis unfolding check_deferred_def relaxed_simps same by (intro passing assms)
qed

lemma relaxed_deferred [passing]:
  "relaxes a t env \<Longrightarrow> passes_to (schedule_deferred_transaction env i p b r c) (schedule_deferred_transaction (relaxed a t env) i p b r c)"
  unfolding schedule_deferred_transaction_def relaxed_simps relaxed_db relaxed_calls by (intro passing) assumption+

lemma relaxed_run_contract [passing]: "relaxes a t env \<Longrightarrow> passes_to (run_contract env r c) (run_contract (relaxed a t env) r c)"
  by (induction r arbitrary: c) (simp_all, (intro passing | blast)+)

lemma passes_capture [passing]: "passes_to r r' \<Longrightarrow> passes_to (capture_and_rethrow r) (capture_and_rethrow r')"
  by (auto simp: passes_to_def capture_and_rethrow_def split: sum.splits)

lemma relaxed_exec_one [passing]: "relaxes a t env \<Longrightarrow> passes_to (exec_one env c) (exec_one (relaxed a t env) c)"
  unfolding exec_one_def apply_code_def apply_handler_def apply_wasm_def record_action_def relaxed_simps relaxed_calls relaxed_wasm
  by (intro passing) assumption+

lemma relaxed_notified [passing]: "relaxes a t env \<Longrightarrow> passes_to (exec_notified env i c) (exec_notified (relaxed a t env) i c)"
proof (induction env i c rule: exec_notified.induct)
  case (1 env i c)
  show ?case unfolding exec_notified.simps [of _ i] by (intro passing 1; simp?)
qed

lemma relaxed_dispatch [passing]: "relaxes a t env \<Longrightarrow> passes_to (dispatch_action env n cf r b s) (dispatch_action (relaxed a t env) n cf r b s)"
proof (induction env n cf r b s rule: dispatch_action.induct)
  case (1 env n cf r b s)
  show ?case unfolding dispatch_action.simps [of _ n] by (intro passing 1; simp?)
qed

section \<open>What contracts do to the chain\<close>

text \<open>
  One call of a contract.  Calls that do not change the database are all alike; privileged calls are made in privileged contexts only.
\<close>

inductive contract_step :: "'e exec_env_scheme \<Rightarrow> apply_context \<Rightarrow> apply_context \<Rightarrow> bool" for env where
  quiet: "chain c' = chain c \<Longrightarrow> receiver c' = receiver c \<Longrightarrow> act c' = act c \<Longrightarrow> ctx_privileged c' = ctx_privileged c \<Longrightarrow> contract_step env c c'"
| storing: "db_store_i64 env scope table payer pk b c = Inr (j, c') \<Longrightarrow> contract_step env c c'"
| updating: "db_update_i64 env itr payer b c = Inr c' \<Longrightarrow> contract_step env c c'"
| removing: "db_remove_i64 env itr c = Inr c' \<Longrightarrow> contract_step env c c'"
| deferring: "schedule_deferred_transaction env i payer t r c = Inr c' \<Longrightarrow> contract_step env c c'"
| cancelling: "cancel_deferred i c = Inr (b', c') \<Longrightarrow> contract_step env c c'"
| limiting: "ctx_privileged c \<Longrightarrow> set_resource_limits n ram net cpu c = Inr c' \<Longrightarrow> contract_step env c c'"
| proposing: "ctx_privileged c \<Longrightarrow> propose_producers env ps c = Inr (v, c') \<Longrightarrow> contract_step env c c'"
| configuring: "ctx_privileged c \<Longrightarrow> set_blockchain_parameters cfg c = Inr c' \<Longrightarrow> contract_step env c c'"
| privileging: "ctx_privileged c \<Longrightarrow> set_privileged n p c = Inr c' \<Longrightarrow> contract_step env c c'"

inductive_cases contract_stepE: "contract_step env c c'"

abbreviation contract_steps :: "'e exec_env_scheme \<Rightarrow> apply_context \<Rightarrow> apply_context \<Rightarrow> bool" where
  "contract_steps env \<equiv> (contract_step env)\<^sup>*\<^sup>*"

lemma context_aware_Inr [simp]: "context_aware c = Inr c' \<longleftrightarrow> c' = c \<and> \<not> context_free c"
  by (auto simp: context_aware_def bes_assert_eq_Inr)

lemma privileged_call_Inr [simp]: "privileged_call c = Inr c' \<longleftrightarrow> c' = c \<and> \<not> context_free c \<and> ctx_privileged c"
  by (auto simp: privileged_call_def bes_assert_eq_Inr bindR_eq_Inr)

lemma in_table_quiet: "in_table a s t f c = (j, c') \<Longrightarrow> contract_step env c c'"
  by (rule contract_step.quiet) (auto simp: in_table_def Let_def split: option.splits prod.splits)

definition only_cache :: "apply_context \<Rightarrow> 'a \<times> apply_context \<Rightarrow> bool" where
  "only_cache c r \<longleftrightarrow> (\<exists>k. snd r = c\<lparr>keyval_cache := k\<rparr>)"

lemma only_cache_refl: "only_cache c (m, c)"
  unfolding only_cache_def by (intro exI [of _ "keyval_cache c"]) simp

lemma moved_only_cache: "ensures (only_cache c) (moved c m)"
  by (auto simp: moved_def only_cache_def ensures_def split: prod.splits)

lemma moves_only_cache: "ensures (only_cache c) (db_next_i64 i c)" "ensures (only_cache c) (db_previous_i64 i c)"
  unfolding db_next_i64_def db_previous_i64_def by (intro ensures_intros moved_only_cache only_cache_refl)+

lemma moves_quiet:
  "db_next_i64 i c = Inr (m, c') \<Longrightarrow> contract_step env c c'" "db_previous_i64 i c = Inr (m, c') \<Longrightarrow> contract_step env c c'"
  using ensuresD [OF moves_only_cache(1), of i c "(m, c')"] ensuresD [OF moves_only_cache(2), of i c "(m, c')"]
  by (auto simp: only_cache_def intro: contract_step.quiet)

lemma inline_quiet:
  "send_inline env a c = Inr c' \<Longrightarrow> contract_step env c c'" "send_context_free_inline a c = Inr c' \<Longrightarrow> contract_step env c c'"
   apply (rule contract_step.quiet; auto simp: send_inline_def execute_inline_def result_simps count_reading_def split: if_splits dest: check_in_context_same)
  apply (rule contract_step.quiet; auto simp: send_context_free_inline_def execute_context_free_inline_def result_simps)
  done

lemma context_quiet: "contract_step env c (c\<lparr>trx_context := tc\<rparr>)" "contract_step env c (require_recipient n c)"
  by (rule contract_step.quiet; simp add: require_recipient_def)+

lemma lookups_quiet:
  "db_find_i64 a s t pk c = (j, c') \<Longrightarrow> contract_step env c c'" "db_lowerbound_i64 a s t pk c = (j, c') \<Longrightarrow> contract_step env c c'"
  "db_upperbound_i64 a s t pk c = (j, c') \<Longrightarrow> contract_step env c c'" "db_end_i64 a s t c = (j, c') \<Longrightarrow> contract_step env c c'"
  unfolding db_find_i64_def db_lowerbound_i64_def db_upperbound_i64_def db_end_i64_def by (rule in_table_quiet, assumption)+

lemmas contract_call_steps = context_quiet lookups_quiet moves_quiet inline_quiet contract_step.storing contract_step.updating
  contract_step.removing contract_step.deferring contract_step.cancelling contract_step.limiting contract_step.proposing
  contract_step.configuring contract_step.privileging

lemma run_contract_steps: "run_contract env r c = Inr c' \<Longrightarrow> contract_steps env c c'"
  by (induction r arbitrary: c c')
    (auto simp: bindR_eq_Inr split: prod.splits, (blast intro: contract_call_steps converse_rtranclp_into_rtranclp)+)

section \<open>Invariants of the chain database\<close>

text \<open>
  A property of the database that every call of a contract, every native action and the counting of actions keep is kept by the
  execution of an action with all that it notifies and sends.
\<close>

lemma ensures_seq: "ensures Q m \<Longrightarrow> (\<And>x. Q x \<Longrightarrow> ensures P (k x)) \<Longrightarrow> ensures P (bindR m k)"
  by (auto simp: ensures_def bindR_eq_Inr)

lemma ensures_foldR: "P s \<Longrightarrow> (\<And>x s. x \<in> set xs \<Longrightarrow> P s \<Longrightarrow> ensures P (f x s)) \<Longrightarrow> ensures P (foldR f xs s)"
  unfolding ensures_def using foldR_invariant [of f xs s _ P] by blast

locale action_invariant =
  fixes env :: vm_env and I :: "chain_state \<Rightarrow> bool"
  assumes call: "contract_step env c c' \<Longrightarrow> I (chain c) \<Longrightarrow> I (chain c')"
    and native: "apply_native (contract env) (cdb st) a = Inr d \<Longrightarrow> I st \<Longrightarrow> I (st\<lparr>cdb := d\<rparr>)"
    and sequences: "I st \<Longrightarrow> I (st\<lparr>cdb := (cdb st)\<lparr>account_sequences := q\<rparr>\<rparr>)"
    and numbered: "I st \<Longrightarrow> I (st\<lparr>global_action_sequence := n\<rparr>)"
    and flags: "I st \<Longrightarrow> I (st\<lparr>cdb := (cdb st)\<lparr>used_authorizations := u\<rparr>\<rparr>)"
begin

lemma calls_keep: "contract_steps env c c' \<Longrightarrow> I (chain c) \<Longrightarrow> I (chain c')"
  by (induction rule: rtranclp_induct) (auto intro: call)

lemma apply_code_keeps: "ensures (\<lambda>c'. I (chain c')) (apply_code env c)" if "I (chain c)"
proof -
  have i: "I (chain (instantiate env x d))" if "I (chain d)" for x d using that by (simp add: instantiate_def)
  have n: "ensures (\<lambda>c'. I (chain c')) (on_chain (on_cdb (\<lambda>d. apply_native (contract env) d a)) d)" if "I (chain d)" for a d
    using that by (auto simp: ensures_def on_chain_def on_cdb_def bindR_eq_Inr intro: native)
  have r: "ensures (\<lambda>c'. I (chain c')) (run_contract env x d)" if "I (chain d)" for x d
    using that by (auto simp: ensures_def dest: run_contract_steps calls_keep)
  have h: "ensures (\<lambda>c'. I (chain c')) (apply_handler env d)" if "I (chain d)" for d
    unfolding apply_handler_def using that by (auto intro!: ensures_intros n)
  have w: "ensures (\<lambda>c'. I (chain c')) (apply_wasm env a d)" if "I (chain d)" for a d
    unfolding apply_wasm_def using that by (auto intro!: ensures_intros r i)
  show ?thesis unfolding apply_code_def by (intro ensures_bindR ensures_prod ensures_seq [OF h w]) (simp add: that)
qed

lemma count_sequence_keeps: "ensures (\<lambda>(n, st'). I st') (count_sequence n f g st)" if "I st"
  using that unfolding count_sequence_def by (intro ensures_intros) (auto intro: sequences)

lemma count_authorization_keeps: "ensures (\<lambda>(m, st'). I st') (count_authorization p s)" if "I (snd s)"
  using that count_sequence_keeps [of "snd s"] unfolding count_authorization_def next_auth_sequence_def
  by (intro ensures_intros) (auto simp: ensures_def)

lemma record_action_keeps: "ensures (\<lambda>c'. I (chain c')) (record_action env c)" if "I (chain c)"
proof -
  have g: "I (snd (next_global_sequence (chain c)))" using that by (simp add: next_global_sequence_def Let_def numbered)
  have f: "I st'" if "foldR count_authorization as (m, st) = Inr (m', st')" "I st" for as m st m' st'
    using foldR_invariant [OF that(1), of "\<lambda>s. I (snd s)"] that(2) count_authorization_keeps by (fastforce simp: ensures_def)
  have q: "I st'" if "next_recv_sequence n st = Inr (m, st')" "I st" for n m st st'
    using ensuresD [OF count_sequence_keeps [OF that(2)] that(1) [unfolded next_recv_sequence_def]] by simp
  obtain gs st where s: "next_global_sequence (chain c) = (gs, st)" by fastforce
  show ?thesis unfolding record_action_def ensures_def s using g s by (auto simp: Let_def bindR_eq_Inr intro!: flags dest!: f q)
qed

lemma exec_one_keeps: "ensures (\<lambda>c'. I (chain c')) (exec_one env c)" if "I (chain c)"
  unfolding exec_one_def by (rule ensures_seq [OF ensures_capture [OF apply_code_keeps [OF that]] record_action_keeps])

lemma exec_notified_keeps: "I (chain c) \<Longrightarrow> ensures (\<lambda>c'. I (chain c')) (exec_notified env i c)"
proof (induction e \<equiv> env i c rule: exec_notified.induct)
  case (1 i c)
  have "ensures (\<lambda>c'. I (chain c')) (exec_one env (c\<lparr>receiver := notified c ! i\<rparr>))" by (rule exec_one_keeps) (simp add: 1)
  then show ?case unfolding exec_notified.simps [of _ i c]
    by (intro ensures_intros) (auto simp: ensures_def 1(2) intro: ensuresD [OF 1(1)])
qed

lemma dispatch_action_keeps: "I (fst s) \<Longrightarrow> ensures (\<lambda>s'. I (fst s')) (dispatch_action env n cf r a s)"
proof (induction e \<equiv> env n cf r a s rule: dispatch_action.induct)
  case (1 n cf r a s)
  have c: "ensures (\<lambda>c'. I (chain c')) (exec_notified env 0 (new_apply_context n cf r a s))"
    by (rule exec_notified_keeps) (simp add: new_apply_context_def 1)
  show ?case unfolding dispatch_action.simps [of _ n]
  proof (intro ensures_intros)
    fix c cfas inls p st tc
    assume h: "exec_notified env 0 (new_apply_context n cf r a s) = Inr c" "cfas = cfa_inline_actions c" "inls = inline_actions c"
      "\<not> ((cfas \<noteq> [] \<or> inls \<noteq> []) \<and> \<not> n < u16 (max_inline_action_depth (config_of (chain c))))"
      "foldR (\<lambda>b. dispatch_action env (n + 1) True (act_account b) b) cfas (chain c, trx_context c) = Inr p" "p = (st, tc)"
    have "I (chain c)" using ensuresD [OF c h(1)] .
    then have "ensures (\<lambda>s'. I (fst s')) (foldR (\<lambda>b. dispatch_action env (n + 1) True (act_account b) b) cfas (chain c, trx_context c))"
      by (intro ensures_foldR) (use 1(1) [OF h(2-4)] in auto)
    then have "I st" using h(5,6) by (simp add: ensures_def)
    then show "ensures (\<lambda>s'. I (fst s')) (foldR (\<lambda>b. dispatch_action env (n + 1) False (act_account b) b) inls (st, tc))"
      by (intro ensures_foldR) (use 1(2) [OF h(2-4)] in auto)
  qed
qed

end

section \<open>What contracts leave alone\<close>

definition undisturbed :: "chain_state \<Rightarrow> chain_state \<Rightarrow> bool" where
  "undisturbed st st' \<longleftrightarrow> input_transactions st' = input_transactions st \<and> permissions (perms_of st') = permissions (perms_of st)
     \<and> accounts (cdb st') = accounts (cdb st)"

abbreviation leaves :: "chain_state \<Rightarrow> apply_context result \<Rightarrow> bool" where
  "leaves st \<equiv> ensures (\<lambda>c. undisturbed st (chain c))"

lemma undisturbed_refl [simp]: "undisturbed st st"
  by (simp add: undisturbed_def)

lemma undisturbed_simps [simp]:
  "undisturbed st (st'\<lparr>table_ids := ts\<rparr>) = undisturbed st st'" "undisturbed st (st'\<lparr>key_values := vs\<rparr>) = undisturbed st st'"
  "undisturbed st (st'\<lparr>gpo := g\<rparr>) = undisturbed st st'"
  "undisturbed st (st'\<lparr>cdb := (cdb st')\<lparr>resources := r\<rparr>\<rparr>) = undisturbed st st'"
  "undisturbed st (st'\<lparr>cdb := (cdb st')\<lparr>resources := r, validate_ram_usage := vr\<rparr>\<rparr>) = undisturbed st st'"
  "undisturbed st (st'\<lparr>cdb := (cdb st')\<lparr>auth_db := (perms_of st')\<lparr>generated_transactions := gs\<rparr>\<rparr>\<rparr>) = undisturbed st st'"
  by (simp_all add: undisturbed_def)

lemma on_chain_leaves: "(\<And>st'. f (chain c) = Inr st' \<Longrightarrow> undisturbed st st') \<Longrightarrow> leaves st (on_chain f c)"
  by (auto simp: ensures_def on_chain_def bindR_eq_Inr)

lemma ram_leaves: "undisturbed st (chain c) \<Longrightarrow> leaves st (on_chain (on_cdb (add_ram_usage p d)) c)"
  by (rule on_chain_leaves) (auto simp: on_cdb_def bindR_eq_Inr undisturbed_def add_ram_usage_frame)

lemma usage_leaves: "undisturbed st (chain c) \<Longrightarrow> leaves st (update_db_usage env p d c)"
  unfolding update_db_usage_def by (rule ensures_bindR) (rule ram_leaves)

lemma rows_leave:
  "undisturbed st (chain c) \<Longrightarrow> leaves st (on_chain (\<lambda>st. bindR (f st) (\<lambda>idx. Inr (st\<lparr>key_values := idx\<rparr>))) c)"
  "undisturbed st (chain c) \<Longrightarrow> leaves st (on_chain (\<lambda>st. bindR (g st) (\<lambda>idx. Inr (st\<lparr>table_ids := idx\<rparr>))) c)"
  "undisturbed st (chain c) \<Longrightarrow> leaves st (on_chain (count_rows tid h) c)"
  by (rule on_chain_leaves; auto simp: bindR_eq_Inr count_rows_def)+

lemma remove_table_leaves: "undisturbed st (chain c) \<Longrightarrow> leaves st (remove_table env tid c)"
  unfolding remove_table_def by (intro ensures_bindR ensures_seq [OF usage_leaves] rows_leave)

lemma find_or_create_leaves: "ensures (\<lambda>(tid, c'). undisturbed (chain c) (chain c')) (find_or_create_table env code s t p c)"
  unfolding find_or_create_table_def
  by (intro ensures_option ensures_prod ensures_seq [OF usage_leaves] ensures_bindR ensures_Inr) simp_all

lemma store_leaves: "ensures (\<lambda>(j, c'). undisturbed (chain c) (chain c')) (db_store_i64 env s t p pk b c)"
  unfolding db_store_i64_def
  by (intro ensures_seq [OF find_or_create_leaves] ensures_prod ensures_bes_assert ensures_Let ensures_seq [OF rows_leave(1)]
      ensures_seq [OF rows_leave(3)] ensures_seq [OF usage_leaves] ensures_Inr) (auto split: prod.splits)

lemma update_leaves: "leaves (chain c) (db_update_i64 env j p b c)"
  unfolding db_update_i64_def
proof (intro ensures_bindR ensures_bes_assert ensures_Let, goal_cases)
  case (1 i v t o' n q c')
  have "leaves (chain c) (if kv_payer v \<noteq> q
              then bindR (update_db_usage env (kv_payer v) (i64 (- o')) c) (update_db_usage env q n)
              else if o' \<noteq> n then update_db_usage env (kv_payer v) (i64 (n - o')) c else Inr c)"
    by (intro ensures_if ensures_seq [OF usage_leaves] usage_leaves ensures_Inr) simp_all
  then show ?case using 1 by (auto intro!: rows_leave dest: ensuresD)
qed

lemma remove_leaves: "leaves (chain c) (db_remove_i64 env j c)"
proof -
  have "leaves st (if b then remove_table env tid c else Inr c)" if "undisturbed st (chain c)" for st b tid c
    by (intro ensures_if remove_table_leaves ensures_Inr that)
  then show ?thesis unfolding db_remove_i64_def
    by (intro ensures_bindR [of "cache_get _ _"] ensures_bindR [of "row_at _ _"] ensures_bindR [of "get_table _ _ _"] ensures_bes_assert
        ensures_seq [OF usage_leaves [of "chain c"]] ensures_seq [OF rows_leave(3) [of "chain c"]] ensures_seq [OF rows_leave(1) [of "chain c"]]
        ensures_bindR [of "table_at _ _"] ensures_seq [where Q = "\<lambda>c'. undisturbed (chain c) (chain c')"])
      (auto intro!: ensures_bindR ensures_Inr)
qed

lemma cancel_leaves: "ensures (\<lambda>(b, c'). undisturbed (chain c) (chain c')) (cancel_deferred i c)"
proof -
  have "ensures (\<lambda>d'. permissions (auth_db d') = permissions (auth_db d) \<and> accounts d' = accounts d) (cancel_deferred_transaction i n d)" for n d
    unfolding cancel_deferred_transaction_def
    by (auto intro!: ensures_intros simp: add_ram_usage_frame)
  then have "leaves (chain c) (on_chain (on_cdb (cancel_deferred_transaction i n)) c)" for n
    by (intro on_chain_leaves) (auto simp: on_cdb_def bindR_eq_Inr undisturbed_def ensures_def)
  then show ?thesis unfolding cancel_deferred_def by (rule ensures_seq) (auto intro: ensures_intros)
qed

lemma store_generated_leaves: "leaves (chain c) (store_generated env i p t b r c)"
proof -
  have "leaves (chain c) (on_chain (on_permissions (create_generated g)) c)" for g
    by (rule on_chain_leaves) (auto simp: on_permissions_def on_cdb_def create_generated_def bindR_eq_Inr split: if_splits)
  moreover have "leaves (chain c) (on_chain (on_permissions (\<lambda>adb. Inr (adb\<lparr>generated_transactions := f adb\<rparr>))) c)" for f
    by (rule on_chain_leaves) (auto simp: on_permissions_def on_cdb_def bindR_eq_Inr)
  ultimately show ?thesis unfolding store_generated_def by (intro ensures_intros)
qed

lemma defer_leaves: "leaves (chain c) (schedule_deferred_transaction env i p t r c)"
proof -
  have c: "chain c' = chain d" if "check_deferred env p t d = Inr c'" for p t c' d
    using that by (auto simp: check_deferred_def bindR_eq_Inr dest: check_in_context_same split: if_splits)
  show ?thesis unfolding schedule_deferred_transaction_def
    by (intro ensures_bes_assert ensures_Let ensures_bindR [of "validate_referenced_accounts _ _"] ensures_bindR [of "add_net _ _ _"]
        ensures_bindR [of "check_deferred _ _ _ _"] ensures_bindR [of "pack_transaction _"])
      (auto simp: add_net_def bindR_eq_Inr count_reading_def dest!: c intro!: ensures_Inr ensures_seq [OF store_generated_leaves] ensures_bes_assert
        ensures_seq [OF ram_leaves])
qed

text \<open>A contract changes no permission, and no account but in its privilege.\<close>

lemma contract_step_leaves:
  assumes "contract_step env c c'"
  shows "input_transactions (chain c') = input_transactions (chain c) \<and> permissions (perms_of (chain c')) = permissions (perms_of (chain c))
    \<and> (accounts (cdb (chain c')) = accounts (cdb (chain c))
       \<or> (\<exists>i p. modify account_clash i (\<lambda>a. a\<lparr>privileged := p\<rparr>) (accounts (cdb (chain c))) = Inr (accounts (cdb (chain c')))))"
proof -
  have limits: "leaves (chain c) (set_resource_limits n ram net cpu c)" for n ram net cpu c
    unfolding set_resource_limits_def
    by (intro ensures_bes_assert on_chain_leaves) (auto simp: on_cdb_def bindR_eq_Inr undisturbed_def)
  have producers: "ensures (\<lambda>(v, c'). undisturbed (chain c) (chain c')) (propose_producers env ps c)" for ps c
    unfolding propose_producers_def set_proposed_producers_def Let_def by (auto intro!: ensures_intros)
  have config: "leaves (chain c) (set_blockchain_parameters cfg c)" for cfg c
    unfolding set_blockchain_parameters_def configure_def by (auto intro!: ensures_intros simp: undisturbed_def)
  have "undisturbed (chain c) (chain c') \<or> (\<exists>n p. set_privileged n p c = Inr c')"
    using assms
    by cases (use limits producers config store_leaves update_leaves remove_leaves defer_leaves cancel_leaves in \<open>fastforce simp: ensures_def\<close>)+
  then show ?thesis
    by (auto simp: undisturbed_def set_privileged_def on_chain_def on_cdb_def bindR_eq_Inr)
qed

section \<open>Contracts write their own tables\<close>

text \<open>The tables of other contracts than \<open>n\<close>, and their rows.\<close>

definition foreign_table :: "name \<Rightarrow> chain_state \<Rightarrow> nat \<Rightarrow> (name \<times> name \<times> name) option" where
  "foreign_table n st tid = (case map_of (indices (table_ids st)) tid of
     None \<Rightarrow> None | Some t \<Rightarrow> if tab_code t = n then None else Some (table_key t))"

definition foreign_rows :: "name \<Rightarrow> chain_state \<Rightarrow> ((name \<times> name \<times> name) \<times> word64 \<times> name \<times> bytes) set" where
  "foreign_rows n st = {(k, primary_key v, kv_payer v, kv_value v) | i v k. map_of (indices (key_values st)) i = Some v \<and> foreign_table n st (kv_t_id v) = Some k}"

definition tables_indexed :: "chain_state \<Rightarrow> bool" where
  "tables_indexed st \<longleftrightarrow> index_base (table_ids st) \<and> index_base (key_values st)"

text \<open>What a call of a contract \<open>n\<close> keeps: the rows \<open>rows\<close> of the others.\<close>

definition confined :: "name \<Rightarrow> ((name \<times> name \<times> name) \<times> word64 \<times> name \<times> bytes) set \<Rightarrow> apply_context \<Rightarrow> bool" where
  "confined n rows c \<longleftrightarrow> receiver c = n \<and> tables_indexed (chain c) \<and> foreign_rows n (chain c) = rows"

lemma foreign_rows_cong:
  "table_ids st' = table_ids st \<Longrightarrow> key_values st' = key_values st \<Longrightarrow> foreign_rows n st' = foreign_rows n st"
  by (simp add: foreign_rows_def foreign_table_def)

lemma confined_cong:
  "confined n rows c \<Longrightarrow> receiver c' = receiver c \<Longrightarrow> table_ids (chain c') = table_ids (chain c) \<Longrightarrow> key_values (chain c') = key_values (chain c)
     \<Longrightarrow> confined n rows c'"
  using foreign_rows_cong [of "chain c'" "chain c"] by (simp add: confined_def tables_indexed_def)

lemma on_cdb_confined: "confined n rows c \<Longrightarrow> ensures (confined n rows) (on_chain (on_cdb f) c)"
  by (auto simp: ensures_def on_chain_def on_cdb_def bindR_eq_Inr intro: confined_cong)

lemma usage_confined: "confined n rows c \<Longrightarrow> ensures (confined n rows) (update_db_usage env p d c)"
  unfolding update_db_usage_def by (rule ensures_bindR) (rule on_cdb_confined)

lemma own_table_confined:
  assumes "confined n rows c" "index_base ts" "map_of (indices ts) = (map_of (indices (table_ids (chain c))))(tid := t')"
    and "foreign_table n (chain c) tid = None" "\<And>t. t' = Some t \<Longrightarrow> tab_code t = n"
  shows "confined n rows (c\<lparr>chain := (chain c)\<lparr>table_ids := ts\<rparr>\<rparr>)"
proof -
  have "foreign_table n ((chain c)\<lparr>table_ids := ts\<rparr>) = foreign_table n (chain c)"
    using assms(3-5) by (auto simp: fun_eq_iff foreign_table_def split: option.splits)
  then show ?thesis using assms(1,2) by (simp add: confined_def tables_indexed_def foreign_rows_def)
qed

lemma own_row_confined:
  assumes "confined n rows c" "index_base vs" "map_of (indices vs) = (map_of (indices (key_values (chain c))))(i := v')"
    and "\<And>v. map_of (indices (key_values (chain c))) i = Some v \<Longrightarrow> foreign_table n (chain c) (kv_t_id v) = None"
    and "\<And>v. v' = Some v \<Longrightarrow> foreign_table n (chain c) (kv_t_id v) = None"
  shows "confined n rows (c\<lparr>chain := (chain c)\<lparr>key_values := vs\<rparr>\<rparr>)"
proof -
  have "foreign_table n ((chain c)\<lparr>key_values := vs\<rparr>) = foreign_table n (chain c)" by (simp add: fun_eq_iff foreign_table_def)
  moreover have "(map_of (indices vs) j = Some v \<and> foreign_table n (chain c) (kv_t_id v) = Some k)
      = (map_of (indices (key_values (chain c))) j = Some v \<and> foreign_table n (chain c) (kv_t_id v) = Some k)" for j v k
    using assms(3-5) by (cases "j = i") auto
  ultimately show ?thesis using assms(1,2) by (simp add: confined_def tables_indexed_def foreign_rows_def)
qed

lemma table_at_own: "table_at tid st = Inr t \<Longrightarrow> tab_code t = n \<Longrightarrow> foreign_table n st tid = None"
  by (auto simp: table_at_def foreign_table_def find_object_def of_option_def split: option.splits)

lemma count_confined:
  assumes "confined n rows c" "foreign_table n (chain c) tid = None"
  shows "ensures (\<lambda>c'. confined n rows c' \<and> foreign_table n (chain c') tid = None \<and> key_values (chain c') = key_values (chain c)) (on_chain (count_rows tid f) c)"
proof -
  have "confined n rows (c\<lparr>chain := (chain c)\<lparr>table_ids := idx\<rparr>\<rparr>) \<and> foreign_table n ((chain c)\<lparr>table_ids := idx\<rparr>) tid = None"
    if m: "modify table_clash tid (\<lambda>t. t\<lparr>tab_count := f (tab_count t)\<rparr>) (table_ids (chain c)) = Inr idx" for idx
  proof -
    have "index_base (table_ids (chain c))" using assms(1) by (simp add: confined_def tables_indexed_def)
    then obtain t where t: "index_base idx" "map_of (indices (table_ids (chain c))) tid = Some t"
      "map_of (indices idx) = (map_of (indices (table_ids (chain c))))(tid \<mapsto> t\<lparr>tab_count := f (tab_count t)\<rparr>)"
      using index_base_modify [OF m] by metis
    have "tab_code t = n" using assms(2) t(2) by (simp add: foreign_table_def split: if_splits)
    then show ?thesis using own_table_confined [OF assms(1) t(1,3) assms(2)] t(3) by (simp add: foreign_table_def)
  qed
  then show ?thesis by (auto simp: ensures_def on_chain_def count_rows_def bindR_eq_Inr)
qed

lemma remove_table_confined:
  assumes "confined n rows c" "foreign_table n (chain c) tid = None"
  shows "ensures (confined n rows) (remove_table env tid c)"
proof -
  have u: "confined n rows c' \<and> foreign_table n (chain c') tid = None" if "update_db_usage env p d c = Inr c'" for p d c'
    using ensuresD [OF usage_confined [OF assms(1)] that] assms(2) that
    by (auto simp: update_db_usage_def on_chain_def on_cdb_def bindR_eq_Inr foreign_table_def)
  have "ensures (confined n rows) (on_chain (\<lambda>st. bindR (remove tid (table_ids st)) (\<lambda>idx. Inr (st\<lparr>table_ids := idx\<rparr>))) c')"
    if "confined n rows c' \<and> foreign_table n (chain c') tid = None" for c'
  proof -
    have b: "index_base (table_ids (chain c'))" using that by (simp add: confined_def tables_indexed_def)
    have "confined n rows (c'\<lparr>chain := (chain c')\<lparr>table_ids := idx\<rparr>\<rparr>)" if r: "remove tid (table_ids (chain c')) = Inr idx" for idx
      by (rule own_table_confined [OF _ index_base_remove [OF r b]]) (use \<open>confined n rows c' \<and> _\<close> in simp_all)
    then show ?thesis by (auto simp: ensures_def on_chain_def bindR_eq_Inr)
  qed
  then show ?thesis unfolding remove_table_def using u by (intro ensures_bindR) blast
qed

lemma usage_tables: "update_db_usage env p d c = Inr c' \<Longrightarrow> table_ids (chain c') = table_ids (chain c) \<and> key_values (chain c') = key_values (chain c)
    \<and> receiver c' = receiver c \<and> keyval_cache c' = keyval_cache c"
  by (auto simp: update_db_usage_def on_chain_def on_cdb_def bindR_eq_Inr)

lemma foreign_table_cong: "table_ids st' = table_ids st \<Longrightarrow> foreign_table n st' = foreign_table n st"
  by (simp add: fun_eq_iff foreign_table_def)

text \<open>A context in which the table \<open>tid\<close> is one of the contract itself.\<close>

abbreviation "confined_in n rows tid c \<equiv> confined n rows c \<and> foreign_table n (chain c) tid = None"

lemma usage_confined_in: "confined_in n rows tid c \<Longrightarrow> ensures (\<lambda>c'. confined_in n rows tid c' \<and> key_values (chain c') = key_values (chain c)) (update_db_usage env p d c)"
  unfolding ensures_def using ensuresD [OF usage_confined] usage_tables foreign_table_cong by metis

lemma find_or_create_confined:
  assumes "confined n rows c"
  shows "ensures (\<lambda>(tid, c'). confined_in n rows tid c') (find_or_create_table env n s t p c)"
proof -
  have ix: "index_base (table_ids (chain c))" using assms by (simp add: confined_def tables_indexed_def)
  have f: "foreign_table n (chain c) tid = None" if "find_table n s t (chain c) = Some (tid, x)" for tid x
    using find_by_Some [OF that [unfolded find_table_def] ix] by (auto simp: foreign_table_def)
  have new: "confined_in n rows (next_id (table_ids (chain c'))) (c'\<lparr>chain := (chain c')\<lparr>table_ids := idx\<rparr>\<rparr>)"
    if u: "update_db_usage env p d c = Inr c'" and e: "emplace table_clash v (table_ids (chain c')) = Inr idx" and v: "tab_code v = n" for d c' idx v
  proof -
    have c': "confined n rows c'" "index_base (table_ids (chain c'))"
      using ensuresD [OF usage_confined [OF assms] u] by (simp_all add: confined_def tables_indexed_def)
    note b = index_base_emplace [OF e c'(2)]
    have "foreign_table n (chain c') (next_id (table_ids (chain c'))) = None" using b(3) by (simp add: foreign_table_def)
    then show ?thesis using own_table_confined [OF c'(1) b(1,2)] v b(2) by (simp add: foreign_table_def)
  qed
  show ?thesis unfolding find_or_create_table_def
    using assms f new by (auto intro!: ensures_intros)
qed

lemma insert_confined:
  assumes "confined_in n rows (kv_t_id v) c"
  shows "ensures (confined_in n rows (kv_t_id v)) (on_chain (\<lambda>st. bindR (emplace key_value_clash v (key_values st)) (\<lambda>idx. Inr (st\<lparr>key_values := idx\<rparr>))) c)"
proof -
  have ix: "index_base (key_values (chain c))" using assms by (simp add: confined_def tables_indexed_def)
  have "confined n rows (c\<lparr>chain := (chain c)\<lparr>key_values := idx\<rparr>\<rparr>)" if e: "emplace key_value_clash v (key_values (chain c)) = Inr idx" for idx
    using own_row_confined [OF _ index_base_emplace(1,2) [OF e ix]] index_base_emplace(3) [OF e ix] assms by simp
  then show ?thesis using assms by (auto simp: ensures_def on_chain_def bindR_eq_Inr foreign_table_def)
qed

lemma store_confined: "confined n rows c \<Longrightarrow> ensures (\<lambda>(j, c'). confined n rows c') (db_store_i64 env s t p pk b c)"
proof -
  assume c: "confined n rows c"
  then have r: "receiver c = n" by (simp add: confined_def)
  show ?thesis unfolding db_store_i64_def r
  proof (rule ensures_seq [OF find_or_create_confined [OF c]], goal_cases)
    case (1 x)
    obtain tid c1 where x: "x = (tid, c1)" by fastforce
    let ?v = "\<lparr>kv_t_id = tid, primary_key = pk, kv_payer = p, kv_value = b\<rparr>"
    have i: "ensures (confined_in n rows tid) (on_chain (\<lambda>st. bindR (emplace key_value_clash ?v (key_values st)) (\<lambda>idx. Inr (st\<lparr>key_values := idx\<rparr>))) c1)"
      using insert_confined [where v = ?v and c = c1] 1 by (simp add: x)
    have k: "ensures (confined_in n rows tid) (on_chain (count_rows tid f) d)" if "confined_in n rows tid d" for f d
      using count_confined [of n rows d tid f] that by (simp add: ensures_def)
    show ?case unfolding x split_conv
      by (intro ensures_bes_assert ensures_Let ensures_seq [OF i] ensures_seq [OF k] ensures_seq [OF usage_confined])
        (auto intro!: ensures_intros simp: confined_def split: prod.splits)
  qed
qed

lemma own_row:
  assumes "get_table (kv_t_id v) cache st = Inr t" "tab_code t = n"
  shows "foreign_table n st (kv_t_id v) = None"
  using assms table_at_own by (auto simp: get_table_def bes_assert_eq_Inr split: if_splits)

lemma update_confined: "confined n rows c \<Longrightarrow> ensures (confined n rows) (db_update_i64 env j p b c)"
proof -
  assume c: "confined n rows c"
  then have r: "receiver c = n" by (simp add: confined_def)
  have w: "ensures (confined n rows) (on_chain (\<lambda>st. bindR (modify key_value_clash i (\<lambda>v. v\<lparr>kv_value := b, kv_payer := q\<rparr>) (key_values st)) (\<lambda>idx.
      Inr (st\<lparr>key_values := idx\<rparr>))) d)"
    if d: "confined_in n rows (kv_t_id v) d" "map_of (indices (key_values (chain d))) i = Some v" for i q d v
  proof -
    have ix: "index_base (key_values (chain d))" using d by (simp add: confined_def tables_indexed_def)
    have "confined n rows (d\<lparr>chain := (chain d)\<lparr>key_values := idx\<rparr>\<rparr>)"
      if m: "modify key_value_clash i (\<lambda>v. v\<lparr>kv_value := b, kv_payer := q\<rparr>) (key_values (chain d)) = Inr idx" for idx
    proof -
      obtain u where "index_base idx" "map_of (indices (key_values (chain d))) i = Some u"
        "map_of (indices idx) = (map_of (indices (key_values (chain d))))(i \<mapsto> u\<lparr>kv_value := b, kv_payer := q\<rparr>)"
        using index_base_modify [OF m ix] by metis
      with d own_row_confined [of n rows d idx i "Some (u\<lparr>kv_value := b, kv_payer := q\<rparr>)"] show ?thesis by auto
    qed
    then show ?thesis by (auto simp: ensures_def on_chain_def bindR_eq_Inr)
  qed
  show ?thesis unfolding db_update_i64_def r
  proof (intro ensures_bindR [of "cache_get _ _"] ensures_bindR [of "row_at _ _"] ensures_bindR [of "get_table _ _ _"] ensures_bes_assert ensures_Let, goal_cases)
    case (1 i v t old new q)
    have v: "map_of (indices (key_values (chain c))) i = Some v" using 1(2) by (simp add: row_at_def find_object_def of_option_def split: option.splits)
    let ?Q = "\<lambda>c'. confined_in n rows (kv_t_id v) c' \<and> key_values (chain c') = key_values (chain c)"
    have z: "?Q c" using c own_row [OF 1(3,4)] by simp
    have u: "ensures ?Q (update_db_usage env x y c')" if "?Q c'" for x y c'
      using usage_confined_in [of n rows c' "kv_t_id v" env x y] that by (simp add: ensures_def)
    have "ensures ?Q (if kv_payer v \<noteq> q then bindR (update_db_usage env (kv_payer v) (i64 (- old)) c) (update_db_usage env q new)
        else if old \<noteq> new then update_db_usage env (kv_payer v) (i64 (new - old)) c else Inr c)"
      by (intro ensures_if ensures_seq [OF u [OF z] u] u [OF z] ensures_Inr) (use z in simp_all)
    then show ?case by (rule ensures_seq) (rule w [where v = v], use v in simp_all)
  qed
qed

lemma remove_confined: "confined n rows c \<Longrightarrow> ensures (confined n rows) (db_remove_i64 env j c)"
proof -
  assume c: "confined n rows c"
  then have r: "receiver c = n" by (simp add: confined_def)
  have w: "ensures (confined_in n rows (kv_t_id v)) (on_chain (\<lambda>st. bindR (remove i (key_values st)) (\<lambda>idx. Inr (st\<lparr>key_values := idx\<rparr>))) d)"
    if d: "confined_in n rows (kv_t_id v) d" "map_of (indices (key_values (chain d))) i = Some v" for i d v
  proof -
    have ix: "index_base (key_values (chain d))" using d by (simp add: confined_def tables_indexed_def)
    have "confined n rows (d\<lparr>chain := (chain d)\<lparr>key_values := idx\<rparr>\<rparr>)" if m: "remove i (key_values (chain d)) = Inr idx" for idx
      using own_row_confined [OF _ index_base_remove [OF m ix], of n rows] d by auto
    then show ?thesis using d by (auto simp: ensures_def on_chain_def bindR_eq_Inr foreign_table_def)
  qed
  show ?thesis unfolding db_remove_i64_def r
  proof (intro ensures_bindR [of "cache_get _ _"] ensures_bindR [of "row_at _ _"] ensures_bindR [of "get_table _ _ _"] ensures_bes_assert, goal_cases)
    case (1 i v t)
    have v: "map_of (indices (key_values (chain c))) i = Some v" using 1(2) by (simp add: row_at_def find_object_def of_option_def split: option.splits)
    let ?Q = "\<lambda>c'. confined_in n rows (kv_t_id v) c' \<and> key_values (chain c') = key_values (chain c)"
    have q: "?Q c" using c own_row [OF 1(3,4)] by simp
    have u: "ensures ?Q (update_db_usage env x y c)" for x y using usage_confined_in [of n rows c "kv_t_id v" env x y] q by (simp add: ensures_def)
    have k: "ensures ?Q (on_chain (count_rows (kv_t_id v) f) d)" if "?Q d" for f d
      using count_confined [of n rows d "kv_t_id v" f] that by (simp add: ensures_def)
    have m: "ensures (confined_in n rows (kv_t_id v)) (on_chain (\<lambda>st. bindR (remove i (key_values st)) (\<lambda>idx. Inr (st\<lparr>key_values := idx\<rparr>))) d)"
      if "?Q d" for d using w that v by simp
    show ?case
      by (intro ensures_seq [OF u] ensures_seq [OF k] ensures_seq [OF m] ensures_bindR [of "table_at _ _"]
          ensures_seq [where Q = "confined n rows"] ensures_if)
        (auto intro!: ensures_bindR ensures_Inr remove_table_confined elim: confined_cong)
  qed
qed

lemma defer_confined: "confined n rows c \<Longrightarrow> ensures (confined n rows) (schedule_deferred_transaction env i p t r c)"
proof -
  assume c: "confined n rows c"
  have k: "confined n rows c'" if "check_deferred env p t d = Inr c'" "confined n rows d" for p t c' d
    using that by (auto simp: check_deferred_def bindR_eq_Inr dest: check_in_context_same split: if_splits intro: confined_cong)
  have a: "confined n rows c'" if "add_net env u c = Inr c'" for u c' using that c by (auto simp: add_net_def bindR_eq_Inr intro: confined_cong)
  have g: "ensures (confined n rows) (store_generated env i p t b r d)" if "confined n rows d" for p t b r d
    unfolding store_generated_def on_permissions_def by (intro ensures_intros on_cdb_confined that)
  show ?thesis unfolding schedule_deferred_transaction_def
  proof (intro ensures_bes_assert ensures_Let ensures_bindR [of "validate_referenced_accounts _ _"] ensures_bindR [of "add_net _ _ _"]
        ensures_bindR [of "check_deferred _ _ _ _"] ensures_bindR [of "pack_transaction _"], goal_cases)
    case (1 t' u c1 c2 packed)
    have c2: "confined n rows c2" using k [OF 1(5) a [OF 1(4)]] .
    show ?case
      by (intro ensures_seq [OF g [OF c2]] ensures_bes_assert ensures_seq [OF on_cdb_confined] ensures_Inr)
        (auto simp: count_reading_def elim: confined_cong)
  qed
qed

lemma contract_step_confined: "contract_step env c c' \<Longrightarrow> confined n rows c \<Longrightarrow> confined n rows c'"
proof (induction rule: contract_step.cases)
  case (limiting c n' ram net cpu c')
  then show ?case using on_cdb_confined [of n rows c] by (auto simp: set_resource_limits_def bes_assert_eq_Inr ensures_def)
next
  case (proposing c ps v c')
  then show ?case by (auto simp: propose_producers_def set_proposed_producers_def Let_def bes_assert_eq_Inr bindR_eq_Inr elim!: confined_cong split: if_splits option.splits)
next
  case (cancelling i c b' c')
  then show ?case using on_cdb_confined [of n rows c] by (auto simp: cancel_deferred_def bindR_eq_Inr ensures_def)
next
  case (configuring c cfg c')
  then show ?case by (auto simp: set_blockchain_parameters_def configure_def bindR_eq_Inr elim!: confined_cong)
next
  case (privileging c n' p c')
  then show ?case using on_cdb_confined [of n rows c] by (auto simp: set_privileged_def ensures_def)
qed (use store_confined update_confined remove_confined defer_confined in \<open>fastforce simp: ensures_def elim: confined_cong\<close>)+

text \<open>
  C4. A contract writes its own tables only.  Whatever calls a contract makes while it handles an action, also in a privileged context, and with
  iterators that it got from the tables of other contracts: when it returns, the rows of all tables of other contracts are
  the ones from before, with their primary keys, payers and values.
\<close>

theorem contract_writes_own_tables:
  assumes "run_contract env r c = Inr c'" "index_base (table_ids (chain c))" "index_base (key_values (chain c))"
  shows "foreign_rows (receiver c) (chain c') = foreign_rows (receiver c) (chain c)"
proof -
  have "contract_steps env c c'" using assms(1) by (rule run_contract_steps)
  then have "confined (receiver c) (foreign_rows (receiver c) (chain c)) c'"
    by (induction rule: rtranclp_induct) (use assms(2,3) in \<open>auto simp: confined_def tables_indexed_def dest: contract_step_confined [unfolded confined_def tables_indexed_def]\<close>)
  then show ?thesis by (simp add: confined_def)
qed

section \<open>Rows that were stored\<close>

lemma find_by_new:
  assumes "emplace (key_clash [key]) v idx = Inr idx'" "index_base idx"
  shows "find_by key (key v) idx' = Some (next_id idx, v)"
proof (rule find_by_emplace [OF assms(1)])
  have "k \<noteq> next_id idx" if "(k, w) \<in> set (indices idx)" for k w
    using that index_base_emplace(3) [OF assms] by (force simp: map_of_eq_None_iff)
  then have "\<not> key_clash [key] v w" if "(k, w) \<in> set (indices idx)" for k w
    using assms(1) that by (auto simp: emplace_def clashes_def list_ex_iff Let_def split: if_splits)
  then show "find_by key (key v) idx = None" by (force simp: find_by_def find_None_iff key_clash_def)
qed

lemma cache_add_get: "cache_add i k = (j, k') \<Longrightarrow> cache_get j k' = Inr i"
  by (auto simp: cache_add_def cache_get_def iterator_slot_def bes_assert_def of_option_def nth_append find_index_Some split: option.splits)

lemma find_index_append: "find_index x xs = None \<Longrightarrow> find_index x (xs @ [x]) = Some (length xs)"
  by (induction x xs rule: find_index.induct) (auto split: if_splits)

lemma cache_add_again: "cache_add i k = (j, k') \<Longrightarrow> cache_add i k' = (j, k')"
  by (auto simp: cache_add_def find_index_append split: option.splits)

lemma map_of_map_put_same: "map_of (map_put k v m) k = Some v"
  by (induction k v m rule: map_put.induct) auto

lemma cache_add_tables: "cache_add i k = (j, k') \<Longrightarrow> table_cache k' = table_cache k"
  by (auto simp: cache_add_def split: option.splits)

lemma cache_table_known: "cache_table tid k = (e, k') \<Longrightarrow> \<exists>x. map_of (table_cache k') tid = Some x"
  by (auto simp: cache_table_def Let_def map_emplace_def map_of_map_put_same split: option.splits)

lemma find_table_counted:
  assumes "modify table_clash tid (\<lambda>t. t\<lparr>tab_count := f (tab_count t)\<rparr>) ts = Inr ts'" "find_by table_key k ts = Some (tid, x)" "index_base ts"
  shows "\<exists>y. find_by table_key k ts' = Some (tid, y)"
  using find_by_modify [OF assms(1,2) _ assms(3)] find_by_Some [OF assms(2,3)] by auto

lemma find_or_create_finds:
  assumes "find_or_create_table env n s t p c = Inr (tid, c')" "index_base (table_ids (chain c))" "index_base (key_values (chain c))"
  shows "\<exists>x. find_by table_key (n, s, t) (table_ids (chain c')) = Some (tid, x)" "index_base (table_ids (chain c'))" "index_base (key_values (chain c'))"
    "receiver c' = receiver c"
proof -
  have *: "(\<exists>x. find_by table_key (n, s, t) (table_ids (chain c')) = Some (tid, x)) \<and> index_base (table_ids (chain c')) \<and> index_base (key_values (chain c'))
    \<and> receiver c' = receiver c"
  proof (cases "find_table n s t (chain c)")
    case None
    let ?v = "\<lparr>tab_code = n, tab_scope = s, tab_table = t, tab_payer = p, tab_count = 0\<rparr>"
    obtain c1 idx where u: "update_db_usage env p (int table_id_object_size) c = Inr c1" "emplace table_clash ?v (table_ids (chain c1)) = Inr idx"
      "tid = next_id (table_ids (chain c1))" "c' = c1\<lparr>chain := (chain c1)\<lparr>table_ids := idx\<rparr>\<rparr>"
      using assms(1) None by (auto simp: find_or_create_table_def bindR_eq_Inr)
    have b: "index_base (table_ids (chain c1))" "key_values (chain c1) = key_values (chain c)" "receiver c1 = receiver c"
      using usage_tables [OF u(1)] assms(2) by simp_all
    show ?thesis using find_by_new [OF u(2) [unfolded table_clash_def] b(1)] index_base_emplace(1) [OF u(2) b(1)] b(2,3) assms(3)
      by (simp add: u(3,4))
  next
    case (Some r)
    then show ?thesis using assms by (cases r) (auto simp: find_or_create_table_def find_table_def)
  qed
  then show "\<exists>x. find_by table_key (n, s, t) (table_ids (chain c')) = Some (tid, x)" "index_base (table_ids (chain c'))" "index_base (key_values (chain c'))"
    "receiver c' = receiver c" by simp_all
qed

text \<open>The steps of \<open>db_store_i64\<close>.\<close>

lemma db_store_steps:
  assumes "db_store_i64 env scope table payer pk buffer c = Inr (j, c')"
  obtains tid c1 c2 c3 c4 where "find_or_create_table env (receiver c) scope table payer c = Inr (tid, c1)"
    "on_chain (\<lambda>st. bindR (emplace key_value_clash \<lparr>kv_t_id = tid, primary_key = pk, kv_payer = payer, kv_value = buffer\<rparr>
      (key_values st)) (\<lambda>idx. Inr (st\<lparr>key_values := idx\<rparr>))) c1 = Inr c2"
    "on_chain (count_rows tid (\<lambda>n. u32 (n + 1))) c2 = Inr c3"
    "update_db_usage env payer (i64 (int (length buffer + key_value_object_size))) c3 = Inr c4"
    "(let (_, cache) = cache_table tid (keyval_cache c4); (itr, cache) = cache_add (next_id (key_values (chain c1))) cache
      in Inr (itr, c4\<lparr>keyval_cache := cache\<rparr>)) = (Inr (j, c') :: (int \<times> apply_context) result)"
proof -
  obtain tid c1 where f: "find_or_create_table env (receiver c) scope table payer c = Inr (tid, c1)"
    using assms by (fastforce simp: db_store_i64_def bindR_eq_Inr)
  obtain c2 where r: "on_chain (\<lambda>st. bindR (emplace key_value_clash \<lparr>kv_t_id = tid, primary_key = pk, kv_payer = payer, kv_value = buffer\<rparr>
                (key_values st)) (\<lambda>idx. Inr (st\<lparr>key_values := idx\<rparr>))) c1 = Inr c2"
    and c2: "bindR (on_chain (count_rows tid (\<lambda>n. u32 (n + 1))) c2) (\<lambda>c.
      bindR (update_db_usage env payer (i64 (int (length buffer + key_value_object_size))) c) (\<lambda>c.
      let (_, cache) = cache_table tid (keyval_cache c); (itr, cache) = cache_add (next_id (key_values (chain c1))) cache
      in Inr (itr, c\<lparr>keyval_cache := cache\<rparr>))) = Inr (j, c')"
    using assms unfolding db_store_i64_def f bindR_Inr prod.case bes_assert_eq_Inr Let_def [of "next_id _"]
    by (elim conjE) (erule bindR_InrE, rule that)
  obtain c3 where n: "on_chain (count_rows tid (\<lambda>n. u32 (n + 1))) c2 = Inr c3"
    and c3: "bindR (update_db_usage env payer (i64 (int (length buffer + key_value_object_size))) c3) (\<lambda>c.
      let (_, cache) = cache_table tid (keyval_cache c); (itr, cache) = cache_add (next_id (key_values (chain c1))) cache
      in Inr (itr, c\<lparr>keyval_cache := cache\<rparr>)) = Inr (j, c')"
    using c2 by (rule bindR_InrE) (rule that)
  obtain c4 where u: "update_db_usage env payer (i64 (int (length buffer + key_value_object_size))) c3 = Inr c4"
    and q: "(let (_, cache) = cache_table tid (keyval_cache c4); (itr, cache) = cache_add (next_id (key_values (chain c1))) cache
      in Inr (itr, c4\<lparr>keyval_cache := cache\<rparr>)) = (Inr (j, c') :: (int \<times> apply_context) result)"
    using c3 by (rule bindR_InrE) (rule that)
  show thesis by (rule that [OF f r n u q])
qed

text \<open>
  C39. What was stored is found.  When \<open>db_store_i64\<close> returns an iterator, reading through it gives the bytes that were stored, and looking the
  primary key up in the table, under the code of the contract, gives the same iterator.
\<close>

theorem stored_row_is_found:
  assumes "db_store_i64 env scope table payer pk buffer c = Inr (j, c')" "index_base (table_ids (chain c))" "index_base (key_values (chain c))"
  shows "db_get_i64 j c' = Inr buffer \<and> db_find_i64 (receiver c) scope table pk c' = (j, c')"
proof -
  let ?n = "receiver c"
  obtain tid c1 c2 c3 c4 where f: "find_or_create_table env ?n scope table payer c = Inr (tid, c1)"
    and r: "on_chain (\<lambda>st. bindR (emplace key_value_clash \<lparr>kv_t_id = tid, primary_key = pk, kv_payer = payer, kv_value = buffer\<rparr>
      (key_values st)) (\<lambda>idx. Inr (st\<lparr>key_values := idx\<rparr>))) c1 = Inr c2"
    and n: "on_chain (count_rows tid (\<lambda>n. u32 (n + 1))) c2 = Inr c3"
    and u: "update_db_usage env payer (i64 (int (length buffer + key_value_object_size))) c3 = Inr c4"
    and q: "(let (_, cache) = cache_table tid (keyval_cache c4); (itr, cache) = cache_add (next_id (key_values (chain c1))) cache
      in Inr (itr, c4\<lparr>keyval_cache := cache\<rparr>)) = (Inr (j, c') :: (int \<times> apply_context) result)"
    using assms(1) by (rule db_store_steps)
  obtain e k1 where k1: "cache_table tid (keyval_cache c4) = (e, k1)" by fastforce
  obtain k2 where k2: "cache_add (next_id (key_values (chain c1))) k1 = (j, k2)" "c' = c4\<lparr>keyval_cache := k2\<rparr>"
    using q by (auto simp: k1 Let_def split: prod.splits)
  note k = k1 k2
  let ?i = "next_id (key_values (chain c1))" and ?v = "\<lparr>kv_t_id = tid, primary_key = pk, kv_payer = payer, kv_value = buffer\<rparr>"
  note t = find_or_create_finds [OF f assms(2,3)]
  obtain vs where e: "emplace key_value_clash ?v (key_values (chain c1)) = Inr vs" "c2 = c1\<lparr>chain := (chain c1)\<lparr>key_values := vs\<rparr>\<rparr>"
    using r by (auto simp: on_chain_def bindR_eq_Inr)
  obtain ts where m: "modify table_clash tid (\<lambda>t. t\<lparr>tab_count := u32 (tab_count t + 1)\<rparr>) (table_ids (chain c1)) = Inr ts"
    "c3 = c2\<lparr>chain := (chain c2)\<lparr>table_ids := ts\<rparr>\<rparr>"
    using n e(2) by (auto simp: on_chain_def count_rows_def bindR_eq_Inr)
  have s: "table_ids (chain c') = ts" "key_values (chain c') = vs" using usage_tables [OF u] by (simp_all add: k(3) m(2) e(2))
  obtain y where y: "find_table ?n scope table (chain c') = Some (tid, y)"
    using find_table_counted [OF m(1) _ t(2)] t(1) unfolding find_table_def s by blast
  have v: "find_by row_key (tid, pk) vs = Some (?i, ?v)" using find_by_new [OF e(1) [unfolded key_value_clash_def] t(3)] by simp
  have "map_of (indices vs) ?i = Some ?v" using index_base_emplace(2) [OF e(1) t(3)] by simp
  then have "db_get_i64 j c' = Inr buffer" using cache_add_get [OF k(2)] s(2) by (simp add: db_get_i64_def row_at_def find_object_def of_option_def k(3))
  moreover obtain x where "map_of (table_cache k2) tid = Some x" using cache_table_known [OF k(1)] cache_add_tables [OF k(2)] by auto
  then have "cache_table tid k2 = (x, k2)" by (simp add: cache_table_def)
  then have "db_find_i64 ?n scope table pk c' = (j, c')"
    using cache_add_again [OF k(2)] y v s(2) by (simp add: db_find_i64_def in_table_def iterator_of_def k(3))
  ultimately show ?thesis by blast
qed

end
