(* ===== verification/BlockExecution.thy ===== *)
theory BlockExecution
  imports ApplyContext
begin

text \<open>
  The execution of transactions and blocks: \<^verbatim>\<open>push_transaction\<close>, \<^verbatim>\<open>push_scheduled_transaction\<close>, \<^verbatim>\<open>start_block\<close>, \<^verbatim>\<open>finalize_block\<close> and the body of
  \<^verbatim>\<open>apply_block\<close> of \<^verbatim>\<open>libraries/chain/controller.cpp\<close>, and \<^verbatim>\<open>transaction_context::exec\<close>.

  A transaction runs in an undo session: when it throws, the state of the database before it is used again.  The trace of a transaction is the
  exception that it holds, if any; an exception that leaves the function is the left value of the result.
\<close>

section \<open>The node and its pending block\<close>

record chain_params =
  cp_crypto :: chain_crypto
  cp_contract :: contract_env
  cp_trx :: trx_env
  cp_settings :: node_settings
  cp_chain_id :: sha256
  cp_force_all_checks :: bool
  cp_disable_replay_opts :: bool
  cp_replaying :: bool
  replay_head_time :: "time_point option"
  pack_header :: "block_header \<Rightarrow> bytes"
  cp_key_valid :: "public_key_type \<Rightarrow> bool"
  cp_instantiated :: "sha256 \<Rightarrow> bool"
  cp_wasm :: "sha256 \<Rightarrow> name \<Rightarrow> action \<Rightarrow> contract_run"
  clocks :: "nat \<Rightarrow> nat \<Rightarrow> nat \<Rightarrow> nat \<Rightarrow> int"

text \<open>
  \<open>attempts\<close> counts the transactions that were pushed: it selects the readings of the clock.
\<close>

record pending_block =
  pb_transactions :: "transaction_receipt list"
  pb_actions :: "action_receipt list"
  attempts :: nat

type_synonym block_work = "pending_block \<times> chain_state"

definition light_validation_allowed :: "chain_params \<Rightarrow> block_status \<Rightarrow> bool \<Rightarrow> bool" where
  "light_validation_allowed cp s replay_opts_disabled_by_policy \<longleftrightarrow>
     (s = Irreversible \<or> s = Validated) \<and> \<not> replay_opts_disabled_by_policy
     \<or> s = Complete \<and> light_validation (cp_settings cp)"

text \<open>What transactions see of the node; with \<open>requiring_checks\<close> nothing is skipped.\<close>

definition block_env :: "chain_params \<Rightarrow> block_header_state \<Rightarrow> block_header_state \<Rightarrow> block_status \<Rightarrow> bool \<Rightarrow> vm_env" where
  "block_env cp head p s requiring_checks =
     \<lparr>contract = (cp_contract cp)\<lparr>is_producing_block := (s = Incomplete)\<rparr>, trx_codec = cp_trx cp, settings = cp_settings cp,
      chain_id = cp_chain_id cp,
      skip_auth_check = \<not> requiring_checks \<and> light_validation_allowed cp s (cp_force_all_checks cp),
      skip_trx_checks = \<not> requiring_checks \<and> light_validation_allowed cp s (cp_disable_replay_opts cp),
      head_id = block_id head, head_num = block_num head, block_time = timestamp (header p), active_producers = active_schedule p,
      pending_producers = pending_schedule p, key_valid = cp_key_valid cp, instantiated = cp_instantiated cp, clock = (\<lambda>_ _. 0), wasm = cp_wasm cp\<rparr>"

definition at_clock :: "chain_params \<Rightarrow> nat \<Rightarrow> nat \<Rightarrow> vm_env \<Rightarrow> vm_env" where
  "at_clock cp n level env = env\<lparr>clock := clocks cp n level\<rparr>"

section \<open>Transactions\<close>

record transaction_metadata =
  md_id :: sha256
  md_trx :: signed_transaction
  md_packed :: packed_transaction
  md_implicit :: bool

definition metadata_of_signed :: "trx_env \<Rightarrow> bool \<Rightarrow> signed_transaction \<Rightarrow> transaction_metadata result" where
  "metadata_of_signed env implicit t =
     bindR (packed_of_signed env t 0) (\<lambda>p.
     bindR (trx_id env (transaction.truncate t)) (\<lambda>i.
     Inr \<lparr>md_id = i, md_trx = t, md_packed = p, md_implicit = implicit\<rparr>))"

definition metadata_of_packed :: "trx_env \<Rightarrow> packed_transaction \<Rightarrow> transaction_metadata result" where
  "metadata_of_packed env p =
     bindR (get_signed_transaction env p) (\<lambda>(t, p).
     bindR (trx_id env (transaction.truncate t)) (\<lambda>i.
     Inr \<lparr>md_id = i, md_trx = t, md_packed = p, md_implicit = False\<rparr>))"

definition unsigned_transaction :: "vm_env \<Rightarrow> action \<Rightarrow> signed_transaction" where
  "unsigned_transaction env a =
     set_reference_block (head_id env)
       \<lparr>expiration = expiration_after (block_time_point env), ref_block_num = 0, ref_block_prefix = 0, max_net_usage_words = 0,
        max_cpu_usage_ms = 0, delay_sec = 0, context_free_actions = [], actions = [a], transaction_extensions = [],
        signatures = [], context_free_data = []\<rparr>"

definition get_on_block_transaction :: "vm_env \<Rightarrow> bytes \<Rightarrow> signed_transaction" where
  "get_on_block_transaction env head_header =
     unsigned_transaction env \<lparr>act_account = system_account_name, act_name = string_to_name ''onblock'',
       act_authorization = [Permission_Level system_account_name active_name], act_data = head_header\<rparr>"

definition get_on_upramusage_transaction :: "vm_env \<Rightarrow> name \<Rightarrow> signed_transaction result" where
  "get_on_upramusage_transaction env n =
     bindR (pack_name n) (\<lambda>data.
     Inr (unsigned_transaction env \<lparr>act_account = system_account_name, act_name = string_to_name ''onramusage'',
       act_authorization = [Permission_Level n active_name], act_data = data\<rparr>))"

definition is_fc_exception :: "chain_exception \<Rightarrow> bool" where
  "is_fc_exception e \<longleftrightarrow> e \<notin> {out_of_range, logic_error, undefined_behaviour}"

definition failure_is_subjective :: "chain_exception \<Rightarrow> bool" where
  "failure_is_subjective e \<longleftrightarrow> e \<in> {subjective_block_production_exception, block_net_usage_exceeded, greylist_net_usage_exceeded,
     block_cpu_usage_exceeded, greylist_cpu_usage_exceeded, deadline_exception, leeway_deadline_exception, actor_whitelist_exception,
     actor_blacklist_exception, contract_whitelist_exception, contract_blacklist_exception, action_blacklist_exception,
     key_blacklist_exception}"

definition scheduled_failure_is_subjective :: "chain_exception \<Rightarrow> bool" where
  "scheduled_failure_is_subjective e \<longleftrightarrow> e = tx_cpu_usage_exceeded \<or> failure_is_subjective e"

definition push_receipt :: "sha256 + packed_transaction \<Rightarrow> status_enum \<Rightarrow> nat \<Rightarrow> nat \<Rightarrow> pending_block \<Rightarrow> pending_block result" where
  "push_receipt t s cpu_us net pb =
     (let words = net div 8 in
      bes_assert (words * 8 = net) transaction_exception
        (Inr (pb\<lparr>pb_transactions := pb_transactions pb @
           [\<lparr>status = s, cpu_usage_us = u32 cpu_us, net_usage_words = u32 words, receipt_trx = t\<rparr>]\<rparr>)))"

definition append_actions :: "action_receipt list \<Rightarrow> pending_block \<Rightarrow> pending_block" where
  "append_actions as pb = pb\<lparr>pb_actions := pb_actions pb @ as\<rparr>"

text \<open>\<open>transaction_context::exec\<close>.\<close>

definition trx_exec :: "vm_env \<Rightarrow> chain_state \<times> transaction_context \<Rightarrow> (chain_state \<times> transaction_context) result" where
  "trx_exec env s =
     (let tc = snd s; t = tc_trx tc in
      bes_assert (is_initialized tc) transaction_exception (
      bindR (if apply_context_free tc
             then foldR (\<lambda>a. dispatch_action env 0 True (act_account a) a) (context_free_actions t) s else Inr s) (\<lambda>s.
      if tc_delay tc = 0 then foldR (\<lambda>a. dispatch_action env 0 False (act_account a) a) (actions t) s
      else schedule_transaction env s)))"

text \<open>The set of accounts whose memory is verified belongs to the context of the transaction.\<close>

definition fresh_context :: "chain_state \<Rightarrow> chain_state" where
  "fresh_context st = st\<lparr>cdb := (cdb st)\<lparr>validate_ram_usage := []\<rparr>\<rparr>"

definition configure_context :: "time_point \<Rightarrow> nat \<Rightarrow> bool \<Rightarrow> transaction_context \<Rightarrow> transaction_context" where
  "configure_context dl billed explicit tc = tc\<lparr>deadline := dl, billed_cpu_time_us := int billed, explicit_billed_cpu_time := explicit\<rparr>"

text \<open>Up to the check of the authorization.\<close>

definition begin_transaction :: "chain_params \<Rightarrow> vm_env \<Rightarrow> transaction_metadata \<Rightarrow> chain_state \<times> transaction_context
    \<Rightarrow> (chain_state \<times> transaction_context) result" where
  "begin_transaction cp env md s =
     bindR (if md_implicit md
            then bindR (init_for_implicit_trx env 0 s) (\<lambda>(st, tc). Inr (st, tc\<lparr>can_subjectively_fail := False\<rparr>))
            else
              let skip_recording = (case replay_head_time cp of None \<Rightarrow> False | Some t \<Rightarrow> sec_to_time (expiration (md_trx md)) \<le> t) in
              bindR (get_unprunable_size (md_packed md)) (\<lambda>unprunable.
              bindR (get_prunable_size (md_packed md)) (\<lambda>prunable.
              init_for_input_trx env unprunable prunable skip_recording s))) (\<lambda>(st, tc).
     bindR (if can_subjectively_fail tc \<and> producing env then check_actor_list (settings env) (bill_to_accounts tc) else Inr ()) (\<lambda>_.
     Inr (st, tc\<lparr>tc_delay := sec_to_time (delay_sec (md_trx md))\<rparr>)))"

text \<open>The keys that signed a transaction.  The cache of recovered keys is transparent, as theory \<open>Transactions\<close> shows.\<close>

definition signing_keys :: "vm_env \<Rightarrow> signed_transaction \<Rightarrow> public_key_type list result" where
  "signing_keys env t =
     fst (get_signature_keys (trx_codec env) (transaction.truncate t) (signatures t) (chain_id env) (context_free_data t) False True [])"

definition authorize_transaction :: "vm_env \<Rightarrow> signed_transaction \<Rightarrow> chain_state \<times> transaction_context \<Rightarrow> unit result" where
  "authorize_transaction env t s =
     bindR (signing_keys env t) (\<lambda>keys.
     check_authorization (native_codec.truncate (ce_codec (contract env))) (\<lambda>_. Inr ()) (actions t) keys [] (tc_delay (snd s)) False
       (perms_of (fst s)))"

definition complete_transaction :: "vm_env \<Rightarrow> transaction_metadata \<Rightarrow> transaction_context \<Rightarrow> pending_block \<Rightarrow> pending_block result" where
  "complete_transaction env md tc pb =
     bindR (if md_implicit md then Inr pb
            else push_receipt (Inr (md_packed md)) (if tc_delay tc = 0 then executed else delayed)
                   (to_u64 (billed_cpu_time_us tc)) (trx_net_usage tc) pb) (\<lambda>pb.
     Inr (append_actions (executed_actions tc) pb))"

text \<open>
  The action that the transaction for \<open>onramusage\<close> is built from; \<^verbatim>\<open>operator[]\<close> does not check its index.
\<close>

definition first_actor :: "signed_transaction \<Rightarrow> name result" where
  "first_actor t = (case actions t of a # _ \<Rightarrow> (case act_authorization a of p # _ \<Rightarrow> Inr (actor p) | [] \<Rightarrow> Inl undefined_behaviour)
                                   | [] \<Rightarrow> Inl undefined_behaviour)"

text \<open>
  \<open>push_transaction\<close> calls itself, with an unsigned transaction, when a transaction is authorized.  The arguments of that call are in the
  wrong order: the time to be billed is \<^verbatim>\<open>true\<close>.  That the inner transaction fails has no effect.
\<close>

type_synonym pushing = "transaction_metadata \<Rightarrow> block_work \<Rightarrow> (chain_exception option \<times> block_work) result"

definition notify_ram_usage :: "vm_env \<Rightarrow> pushing \<Rightarrow> signed_transaction \<Rightarrow> block_work \<Rightarrow> block_work result" where
  "notify_ram_usage env push t w =
     bindR (first_actor t) (\<lambda>n.
     bindR (get_on_upramusage_transaction env n) (\<lambda>t.
     bindR (metadata_of_signed (trx_codec env) False t) (\<lambda>m.
     bindR (push m w) (\<lambda>(_, w). Inr w))))"

definition apply_transaction :: "chain_params \<Rightarrow> vm_env \<Rightarrow> pushing \<Rightarrow> transaction_metadata \<Rightarrow> transaction_context \<Rightarrow> block_work \<Rightarrow> block_work result" where
  "apply_transaction cp env push md tc w =
     (case w of (pb, st) \<Rightarrow>
        bindR (begin_transaction cp env md (fresh_context st, tc)) (\<lambda>(st', tc).
        bindR (if skip_auth_check env \<or> md_implicit md then Inr (pb, st')
               else bindR (authorize_transaction env (md_trx md) (st', tc)) (\<lambda>_. notify_ram_usage env push (md_trx md) (pb, st'))) (\<lambda>(pb', st').
        bindR (trx_exec env (st', tc)) (\<lambda>s.
        bindR (finalize env s) (\<lambda>(st', tc).
        bindR (complete_transaction env md tc pb') (\<lambda>pb'.
        Inr (if \<not> speculative (settings env) \<and> producing env then w else (pb', fresh_context st'))))))))"

definition trace_of :: "block_work \<Rightarrow> block_work result \<Rightarrow> (chain_exception option \<times> block_work) result" where
  "trace_of w r =
     (case w of (pb, st) \<Rightarrow>
        case r of
          Inr (pb', st') \<Rightarrow> Inr (None, pb'\<lparr>attempts := attempts pb + 1\<rparr>, st')
        | Inl e \<Rightarrow> if is_fc_exception e then Inr (Some e, pb\<lparr>attempts := attempts pb + 1\<rparr>, st) else Inl e)"

definition input_context :: "vm_env \<Rightarrow> transaction_metadata \<Rightarrow> time_point \<Rightarrow> nat \<Rightarrow> bool \<Rightarrow> transaction_context result" where
  "input_context env md dl billed explicit =
     bindR (new_transaction_context (md_trx md) (md_id md) (i64 (clock env 0 0)) 1) (\<lambda>tc.
     let tc = (case subjective_cpu_leeway (settings env) of Some l \<Rightarrow> if producing env then tc\<lparr>leeway := l\<rparr> else tc | None \<Rightarrow> tc)
     in Inr (configure_context dl billed explicit tc))"

text \<open>
  The first argument limits the depth of the calls.  Two are enough, since the unsigned transaction does not pass the check of its authorization
  (theorem \<open>ram_usage_notification_refused\<close>).
\<close>

primrec push_transaction :: "nat \<Rightarrow> chain_params \<Rightarrow> vm_env \<Rightarrow> time_point \<Rightarrow> nat \<Rightarrow> bool \<Rightarrow> pushing" where
  "push_transaction 0 cp env dl billed explicit md w = Inl undefined_behaviour"
| "push_transaction (Suc level) cp env dl billed explicit md w =
     bes_assert (dl \<noteq> 0) transaction_exception (
     capture_and_rethrow (
     let env = at_clock cp (attempts (fst w)) level env in
     bindR (input_context env md dl billed explicit) (\<lambda>tc.
     trace_of w (apply_transaction cp env (push_transaction level cp env time_maximum 1 True) md tc w))))"

section \<open>Scheduled transactions\<close>

definition find_scheduled :: "sha256 \<Rightarrow> chain_state \<Rightarrow> generated_transaction_object option" where
  "find_scheduled tid st = find (\<lambda>g. gto_trx_id g = tid) (generated_transactions (perms_of st))"

definition remove_scheduled_transaction :: "generated_transaction_object \<Rightarrow> chain_state \<Rightarrow> chain_state result" where
  "remove_scheduled_transaction g st =
     bindR (on_resources (add_pending_ram_usage (gto_payer g)
              (i64 (- int (generated_transaction_object_size + length (gto_packed_trx g))))) st)
       (on_permissions (\<lambda>adb. Inr (adb\<lparr>generated_transactions := remove1 g (generated_transactions adb)\<rparr>)))"

text \<open>The fields of the context that are read when \<open>init\<close> or what follows it has thrown.\<close>

definition context_after_failure :: "vm_env \<Rightarrow> chain_state \<Rightarrow> transaction_context \<Rightarrow> transaction_context" where
  "context_after_failure env st tc =
     (let tc' = initial_limits st tc in if is_ok (init_check env st tc) then init_accounts tc' else tc')"

definition pack_onerror :: "nat \<Rightarrow> bytes \<Rightarrow> bytes result" where
  "pack_onerror sender_id sent_trx = bindR (pack_uint 16 sender_id) (\<lambda>i. bindR (pack_bytes sent_trx) (\<lambda>b. Inr (i @ b)))"

text \<open>
  \<open>apply_onerror\<close>: the second value is the exception and the time to be billed, when the handler failed.  The clock is read once more
  after an exception; \<open>at_catch\<close> is that reading.
\<close>

definition at_catch :: "chain_params \<Rightarrow> nat \<Rightarrow> nat \<Rightarrow> time_point" where
  "at_catch cp n level = i64 (clocks cp n level 0 1)"

definition apply_onerror :: "chain_params \<Rightarrow> vm_env \<Rightarrow> generated_transaction_object \<Rightarrow> time_point \<Rightarrow> time_point \<Rightarrow> nat \<Rightarrow> bool \<Rightarrow> block_work
    \<Rightarrow> (block_work + chain_exception \<times> nat) result" where
  "apply_onerror cp env g dl start billed explicit w =
     (case w of (pb, st) \<Rightarrow>
        let env = at_clock cp (attempts pb) 1 env in
        bindR (pack_onerror (gto_sender_id g) (gto_packed_trx g)) (\<lambda>data.
        let a = \<lparr>act_account = system_account_name, act_name = string_to_name ''onerror'',
                 act_authorization = [Permission_Level (gto_sender g) active_name], act_data = data\<rparr>;
            etrx = unsigned_transaction env a in
        bindR (trx_id (trx_codec env) (transaction.truncate etrx)) (\<lambda>eid.
        bindR (new_transaction_context etrx eid start 1) (\<lambda>tc.
        let tc = configure_context dl billed explicit tc in
        case
          bindR (init_for_implicit_trx env 0 (fresh_context st, tc)) (\<lambda>(st, tc).
          bindR (dispatch_action env 0 False (gto_sender g) a (st, tc\<lparr>tc_published := published g\<rparr>)) (\<lambda>s.
          bindR (finalize env s) (\<lambda>(st, tc).
          bindR (push_receipt (Inl (gto_trx_id g)) soft_fail (to_u64 (billed_cpu_time_us tc)) (trx_net_usage tc) pb) (\<lambda>pb.
          Inr (append_actions (executed_actions tc) pb, fresh_context st)))))
        of
          Inr w \<Rightarrow> Inr (Inl w)
        | Inl e \<Rightarrow>
            if is_fc_exception e
            then Inr (Inr (e, snd (update_billed_cpu_time (at_catch cp (attempts pb) 1) st (context_after_failure env st tc))))
            else Inl e))))"

definition hard_failure_cpu :: "vm_env \<Rightarrow> bool \<Rightarrow> nat \<Rightarrow> transaction_context \<Rightarrow> chain_state \<Rightarrow> (nat \<times> chain_state) result" where
  "hard_failure_cpu env explicit cpu tc st =
     (if explicit then Inr (cpu, st)
      else
        bindR (on_resources (update_account_usage (bill_to_accounts tc) (block_slot env)) st) (\<lambda>st.
        bindR (max_bandwidth_billed_accounts_can_pay env True (bill_to_accounts tc) st) (\<lambda>(_, account_cpu_limit, _, _).
        Inr (nat (min (min (int cpu) account_cpu_limit) (initial_objective_duration_limit tc) mod 2 ^ 32), st))))"

definition retire_failed :: "vm_env \<Rightarrow> generated_transaction_object \<Rightarrow> bool \<Rightarrow> nat \<Rightarrow> transaction_context \<Rightarrow> block_work \<Rightarrow> block_work result" where
  "retire_failed env g explicit cpu tc w =
     (case w of (pb, st) \<Rightarrow>
        bindR (hard_failure_cpu env explicit cpu tc st) (\<lambda>(cpu, st).
        bindR (on_resources (add_transaction_usage (bill_to_accounts tc) cpu 0 (block_slot env)) st) (\<lambda>st.
        bindR (push_receipt (Inl (gto_trx_id g)) hard_fail cpu 0 pb) (\<lambda>pb. Inr (pb, st)))))"

text \<open>
  What follows a failure: the handler of the sender, and then the failure itself is recorded, unless it is subjective.  No state is returned when
  the session is not squashed.
\<close>

definition after_failure :: "chain_params \<Rightarrow> vm_env \<Rightarrow> generated_transaction_object \<Rightarrow> time_point \<Rightarrow> nat \<Rightarrow> bool \<Rightarrow> transaction_context
    \<Rightarrow> chain_exception \<Rightarrow> block_work \<Rightarrow> (chain_exception option \<times> block_work option) result" where
  "after_failure cp env g dl billed explicit tc e w =
     (case w of (pb, st) \<Rightarrow>
        let cpu = snd (update_billed_cpu_time (at_catch cp (attempts pb) 0) st tc) in
        bindR (if gto_sender g \<noteq> 0 \<and> \<not> failure_is_subjective e then apply_onerror cp env g dl (pseudo_start tc) billed explicit w
               else Inr (Inr (e, cpu))) (\<lambda>r.
        case r of
          Inl w \<Rightarrow> Inr (None, Some w)
        | Inr (e, cpu) \<Rightarrow>
            if (if explicit then failure_is_subjective e else scheduled_failure_is_subjective e) then Inr (Some e, None)
            else bindR (retire_failed env g explicit cpu tc w) (\<lambda>w. Inr (Some e, Some w))))"

definition run_scheduled :: "chain_params \<Rightarrow> vm_env \<Rightarrow> generated_transaction_object \<Rightarrow> signed_transaction \<Rightarrow> time_point \<Rightarrow> nat \<Rightarrow> bool \<Rightarrow> block_work
    \<Rightarrow> (chain_exception option \<times> block_work option) result" where
  "run_scheduled cp env g t dl billed explicit w =
     (case w of (pb, st) \<Rightarrow>
        let env = at_clock cp (attempts pb) 0 env in
        bindR (new_transaction_context t (gto_trx_id g) (i64 (clock env 0 0)) 1) (\<lambda>tc.
        let tc = configure_context dl billed explicit (tc\<lparr>leeway := 0\<rparr>) in
        case
          bindR (init_for_deferred_trx env (published g) (fresh_context st, tc)) (\<lambda>s.
          bindR (trx_exec env s) (\<lambda>s.
          bindR (finalize env s) (\<lambda>(st, tc).
          bindR (push_receipt (Inl (gto_trx_id g)) executed (to_u64 (billed_cpu_time_us tc)) (trx_net_usage tc) pb) (\<lambda>pb.
          Inr (append_actions (executed_actions tc) pb, fresh_context st)))))
        of
          Inr w \<Rightarrow> Inr (None, Some w)
        | Inl e \<Rightarrow>
            if is_fc_exception e then after_failure cp env g dl billed explicit (context_after_failure env st tc) e (pb, st)
            else Inl e))"

text \<open>A subjective failure leaves the transaction in the table.\<close>

definition push_scheduled_transaction :: "chain_params \<Rightarrow> vm_env \<Rightarrow> sha256 \<Rightarrow> time_point \<Rightarrow> nat \<Rightarrow> bool \<Rightarrow> block_work
    \<Rightarrow> (chain_exception option \<times> block_work) result" where
  "push_scheduled_transaction cp env tid dl billed explicit w =
     (case w of (pb, st) \<Rightarrow>
        case find_scheduled tid st of
          None \<Rightarrow> Inl unknown_transaction_exception
        | Some g \<Rightarrow>
            capture_and_rethrow (
            bindR (remove_scheduled_transaction g st) (\<lambda>st'.
            bes_assert (delay_until g \<le> block_time_point env) transaction_exception (
            bindR (unpack_transaction (gto_packed_trx g)) (\<lambda>(t, _).
            let next = attempts pb + 1 in
            if gto_expiration g < block_time_point env then
              bindR (push_receipt (Inl (gto_trx_id g)) expired billed 0 pb) (\<lambda>pb. Inr (None, pb\<lparr>attempts := next\<rparr>, st'))
            else
              bindR (run_scheduled cp (env\<lparr>skip_auth_check := False, skip_trx_checks := False\<rparr>) g
                       (transaction.extend t \<lparr>signatures = [], context_free_data = []\<rparr>) dl billed explicit (pb, st')) (\<lambda>(e, r).
              case r of
                Some (pb, st) \<Rightarrow> Inr (e, pb\<lparr>attempts := next\<rparr>, st)
              | None \<Rightarrow> Inr (e, pb\<lparr>attempts := next\<rparr>, st)))))))"

section \<open>Blocks\<close>

definition promote_proposed :: "chain_crypto \<Rightarrow> bool \<Rightarrow> block_header_state \<times> chain_state \<Rightarrow> (block_header_state \<times> chain_state) result" where
  "promote_proposed cr was_pending_promoted w =
     (case w of (p, st) \<Rightarrow>
        if (case proposed_schedule_block_num (gpo st) of None \<Rightarrow> False | Some n \<Rightarrow> n \<le> dpos_irreversible_blocknum p)
           \<and> length (producers (pending_schedule p)) = 0 \<and> \<not> was_pending_promoted
        then bindR (set_new_producers cr (proposed_schedule (gpo st)) p) (\<lambda>p.
          Inr (p, st\<lparr>gpo := (gpo st)\<lparr>proposed_schedule_block_num := None, proposed_schedule := empty_schedule\<rparr>\<rparr>))
        else Inr (p, st))"

definition clear_expired_input_transactions :: "time_point \<Rightarrow> chain_state \<Rightarrow> chain_state result" where
  "clear_expired_input_transactions t st =
     bindR (foldR (\<lambda>(i, _). remove i)
              (takeWhile (\<lambda>(_, v). t > sec_to_time (to_expiration v)) (sort_key (\<lambda>(_, v). to_expiration v) (indices (input_transactions st))))
              (input_transactions st)) (\<lambda>idx.
     Inr (st\<lparr>input_transactions := idx\<rparr>))"

definition producers_account_name :: name where
  "producers_account_name = string_to_name ''besio.prods''"

definition majority_producers_permission_name :: name where
  "majority_producers_permission_name = string_to_name ''prod.major''"

definition minority_producers_permission_name :: name where
  "minority_producers_permission_name = string_to_name ''prod.minor''"

definition producers_authority :: "producer_key list \<Rightarrow> nat \<Rightarrow> nat \<Rightarrow> authority" where
  "producers_authority ps num den =
     \<lparr>threshold = u32 (u32 (length ps * num) div den + 1), auth_keys = [],
      auth_accounts = map (\<lambda>p. \<lparr>plw_permission = Permission_Level (producer_name p) active_name, plw_weight = 1\<rparr>) ps, auth_waits = []\<rparr>"

definition update_producers_permission :: "producer_key list \<Rightarrow> name \<times> nat \<times> nat \<Rightarrow> authorization_db \<Rightarrow> authorization_db result" where
  "update_producers_permission ps row adb =
     (case row of (perm, num, den) \<Rightarrow>
        bindR (get_permission (Permission_Level producers_account_name perm) adb) (\<lambda>(i, p).
        let auth = producers_authority ps num den in
        if perm_auth p \<noteq> auth
        then bindR (modify permission_clash i (\<lambda>p. p\<lparr>perm_auth := auth\<rparr>) (permissions adb)) (\<lambda>idx. Inr (adb\<lparr>permissions := idx\<rparr>))
        else Inr adb))"

definition update_producers_authority :: "producer_key list \<Rightarrow> chain_state \<Rightarrow> chain_state result" where
  "update_producers_authority ps =
     on_permissions (foldR (update_producers_permission ps)
       [(active_name, 2, 3), (majority_producers_permission_name, 1, 2), (minority_producers_permission_name, 1, 3)])"

text \<open>The state of the authorization manager has the time of the pending block and its copies of the configuration.\<close>

definition enter_block :: "block_timestamp_type \<Rightarrow> chain_state \<Rightarrow> chain_state" where
  "enter_block when st =
     configure (config_of st) (st\<lparr>cdb := (cdb st)\<lparr>auth_db := (perms_of st)\<lparr>pending_block_time := to_time_point when\<rparr>\<rparr>\<rparr>)"

definition empty_block :: pending_block where
  "empty_block = \<lparr>pb_transactions = [], pb_actions = [], attempts = 0\<rparr>"

text \<open>The transaction \<open>onblock\<close>; that it throws is logged and has no other effect.\<close>

definition push_onblock :: "chain_params \<Rightarrow> vm_env \<Rightarrow> block_header_state \<Rightarrow> block_work \<Rightarrow> block_work result" where
  "push_onblock cp env head w =
     (case
        bindR (metadata_of_signed (cp_trx cp) True (get_on_block_transaction env (pack_header cp (block_header.truncate (header head))))) (\<lambda>md.
        push_transaction 2 cp env time_maximum (min_transaction_cpu_usage (config_of (snd w))) True md w)
      of
        Inr (_, w) \<Rightarrow> Inr w
      | Inl e \<Rightarrow> if e = undefined_behaviour then Inl e else Inr w)"

definition start_block :: "chain_params \<Rightarrow> block_header_state \<Rightarrow> block_timestamp_type \<Rightarrow> nat \<Rightarrow> block_status \<Rightarrow> chain_state
    \<Rightarrow> (block_header_state \<times> block_work) result" where
  "start_block cp head when confirm_block_count s st =
     bindR (generate_next (cp_crypto cp) head when) (\<lambda>p.
     let (was_pending_promoted, p) = maybe_promote_pending (set_confirmed confirm_block_count p);
         st = enter_block (timestamp (header p)) st in
     if speculative (cp_settings cp) \<or> s \<noteq> Incomplete then
       bindR (promote_proposed (cp_crypto cp) was_pending_promoted (p, st)) (\<lambda>(p, st).
       bindR (push_onblock cp (block_env cp head p s True) head (empty_block, st)) (\<lambda>(pb, st).
       bindR (clear_expired_input_transactions (to_time_point (timestamp (header p))) st) (\<lambda>st.
       bindR (update_producers_authority (producers (active_schedule p)) st) (\<lambda>st.
       Inr (p, pb, st)))))
     else Inr (p, empty_block, st))"

definition push_block_receipt :: "chain_params \<Rightarrow> vm_env \<Rightarrow> transaction_receipt \<Rightarrow> block_work \<Rightarrow> block_work result" where
  "push_block_receipt cp env receipt w =
     bindR (case receipt_trx receipt of
              Inr pt \<Rightarrow> bindR (metadata_of_packed (cp_trx cp) pt) (\<lambda>md. push_transaction 2 cp env time_maximum (cpu_usage_us receipt) True md w)
            | Inl tid \<Rightarrow> push_scheduled_transaction cp env tid time_maximum (cpu_usage_us receipt) True w) (\<lambda>(except, w').
     case (case except of Some e \<Rightarrow> if status receipt = hard_fail \<and> isl (receipt_trx receipt) then None else Some e | None \<Rightarrow> None) of
       Some e \<Rightarrow> Inl e
     | None \<Rightarrow>
         let rs = pb_transactions (fst w') in
         bes_assert (length rs > 0) block_validate_exception (
         bes_assert (length rs = length (pb_transactions (fst w)) + 1) block_validate_exception (
         bes_assert (transaction_receipt_header.truncate (last rs) = transaction_receipt_header.truncate receipt) block_validate_exception (
         Inr w'))))"

definition create_block_summary :: "sha256 \<Rightarrow> chain_state \<Rightarrow> chain_state" where
  "create_block_summary i st = st\<lparr>block_summaries := (block_summaries st)(u16 (num_from_id i) := i)\<rparr>"

definition block_limit :: "nat \<Rightarrow> nat \<Rightarrow> nat \<Rightarrow> elastic_limit_parameters" where
  "block_limit usage pct window_ms =
     \<lparr>target = bes_percent usage pct, max_usage = usage, periods = window_ms div block_interval_ms, max_multiplier = 1000,
      contract_rate = \<lparr>numerator = 99, denominator = 100\<rparr>, expand_rate = \<lparr>numerator = 1000, denominator = 999\<rparr>\<rparr>"

definition block_cpu_usage_average_window_ms :: nat where
  "block_cpu_usage_average_window_ms = 60 * 1000"

definition block_size_average_window_ms :: nat where
  "block_size_average_window_ms = 60 * 1000"

definition update_block_limits :: "chain_config \<Rightarrow> nat \<Rightarrow> resource_db \<Rightarrow> resource_db result" where
  "update_block_limits cfg num rl =
     bindR (process_account_limit_updates rl) (\<lambda>rl.
     bindR (set_block_parameters
              (block_limit (max_block_cpu_usage cfg) (target_block_cpu_usage_pct cfg) block_cpu_usage_average_window_ms)
              (block_limit (max_block_net_usage cfg) (target_block_net_usage_pct cfg) block_size_average_window_ms) rl)
       (process_block_usage num))"

definition finalize_block :: "chain_params \<Rightarrow> block_header_state \<Rightarrow> block_work \<Rightarrow> (block_header_state \<times> chain_state) result" where
  "finalize_block cp p w =
     (case w of (pb, st) \<Rightarrow>
        capture_and_rethrow (
        bindR (on_resources (update_block_limits (config_of st) (block_num p)) st) (\<lambda>st.
        bindR (mapR (action_receipt_digest (cp_trx cp)) (pb_actions pb)) (\<lambda>action_digests.
        bindR (mapR (receipt_digest (cp_trx cp)) (pb_transactions pb)) (\<lambda>trx_digests.
        let h = (header p)\<lparr>action_mroot := merkle (hash_pair (cp_crypto cp)) action_digests,
                           transaction_mroot := merkle (hash_pair (cp_crypto cp)) trx_digests\<rparr>;
            i = header_id (cp_crypto cp) h
        in Inr (p\<lparr>header := h, block_id := i\<rparr>, create_block_summary i st))))))"

text \<open>The body of \<open>apply_block\<close>: the block as it is stored, and the contents of the database.\<close>

definition execute_block :: "chain_params \<Rightarrow> block_header_state \<Rightarrow> signed_block \<Rightarrow> block_status \<Rightarrow> chain_state \<Rightarrow> (signed_block \<times> chain_state) result" where
  "execute_block cp head b s st =
     bes_assert (block_extensions b = []) block_validate_exception (
     bindR (start_block cp head (timestamp b) (confirmed b) s st) (\<lambda>(p, w).
     bindR (foldR (push_block_receipt cp (block_env cp head p s False)) (transactions b) w) (\<lambda>w.
     bindR (finalize_block cp p w) (\<lambda>(p, st).
     bes_assert (header_id (cp_crypto cp) b = header_id (cp_crypto cp) (header p)) block_validate_exception (
     Inr (signed_block_header.extend ((header p)\<lparr>producer_signature := producer_signature b\<rparr>)
            \<lparr>transactions = pb_transactions (fst w), block_extensions = []\<rparr>, st))))))"

definition chain_node :: "chain_params \<Rightarrow> chain_state node" where
  "chain_node cp = \<lparr>crypto = cp_crypto cp, run_block = execute_block cp, force_all_checks = cp_force_all_checks cp,
     disable_replay_opts = cp_disable_replay_opts cp, replaying = cp_replaying cp\<rparr>"

section \<open>Blocks that were validated\<close>

lemma at_clock_relaxed [simp]: "at_clock cp n l (relaxed a t env) = relaxed a t (at_clock cp n l env)"
  by (simp add: at_clock_def relaxed_def)

lemma relaxes_at_clock [simp]: "relaxes a t (at_clock cp n l env) = relaxes a t env"
  by (simp add: at_clock_def relaxes_def)

lemma at_clock_simps [simp]:
  "producing (at_clock cp n l env) = producing env" "settings (at_clock cp n l env) = settings env"
  "skip_auth_check (at_clock cp n l env) = skip_auth_check env" "skip_trx_checks (at_clock cp n l env) = skip_trx_checks env"
  by (simp_all add: at_clock_def)

lemma relaxed_trx_exec [passing]: "relaxes a t env \<Longrightarrow> passes_to (trx_exec env s) (trx_exec (relaxed a t env) s)"
  unfolding trx_exec_def by (intro passing) assumption+

lemma relaxed_begin [passing]: "relaxes a t env \<Longrightarrow> passes_to (begin_transaction cp env md s) (begin_transaction cp (relaxed a t env) md s)"
  unfolding begin_transaction_def relaxed_simps by (intro passing) assumption+

lemma relaxed_context [simp]: "input_context (relaxed a t env) md dl b e = input_context env md dl b e"
  unfolding input_context_def relaxed_simps by (rule refl)

lemma relaxed_complete [simp]: "complete_transaction (relaxed a t env) = complete_transaction env"
  unfolding complete_transaction_def by (rule refl)

lemma push_receipt_length: "push_receipt r s c n pb = Inr pb' \<Longrightarrow> length (pb_transactions pb') = length (pb_transactions pb) + 1"
  by (auto simp: push_receipt_def Let_def bes_assert_def split: if_splits)

lemma complete_length:
  "complete_transaction env md tc pb = Inr pb' \<Longrightarrow>
     length (pb_transactions pb') = length (pb_transactions pb) + (if md_implicit md then 0 else 1)"
  by (auto simp: complete_transaction_def append_actions_def bindR_eq_Inr dest: push_receipt_length split: if_splits)

lemma complete_attempts:
  "complete_transaction env md tc (pb\<lparr>attempts := n\<rparr>) = bindR (complete_transaction env md tc pb) (\<lambda>pb. Inr (pb\<lparr>attempts := n\<rparr>))"
  by (auto simp: complete_transaction_def push_receipt_def append_actions_def Let_def bes_assert_def)

text \<open>A call for which the number of receipts does not go down, and goes up unless there is an exception.\<close>

definition counts_receipts :: "pushing \<Rightarrow> bool" where
  "counts_receipts push \<longleftrightarrow> (\<forall>md w e w'. push md w = Inr (e, w') \<longrightarrow>
     length (pb_transactions (fst w')) \<ge> length (pb_transactions (fst w))
     \<and> (case e of
          None \<Rightarrow> \<not> md_implicit md \<longrightarrow> length (pb_transactions (fst w')) > length (pb_transactions (fst w))
        | Some _ \<Rightarrow> w' = ((fst w)\<lparr>attempts := attempts (fst w) + 1\<rparr>, snd w)))"

lemma notify_ok:
  assumes "counts_receipts push" "notify_ram_usage env push t w = Inr w'"
  shows "length (pb_transactions (fst w')) > length (pb_transactions (fst w)) \<or> w' = ((fst w)\<lparr>attempts := attempts (fst w) + 1\<rparr>, snd w)"
proof -
  from assms(2) obtain n t' m e where m: "metadata_of_signed (trx_codec env) False t' = Inr m" "push m w = Inr (e, w')"
    by (auto simp: notify_ram_usage_def bindR_eq_Inr)
  from m(1) have "\<not> md_implicit m" by (auto simp: metadata_of_signed_def bindR_eq_Inr)
  moreover note assms(1) [unfolded counts_receipts_def, rule_format, OF m(2)]
  ultimately show ?thesis by (cases e) simp_all
qed

lemma apply_transaction_counts:
  assumes "counts_receipts push" "\<not> producing env" "apply_transaction cp env push md tc w = Inr w'"
  shows "length (pb_transactions (fst w')) \<ge> length (pb_transactions (fst w)) + (if md_implicit md then 0 else 1)"
proof -
  obtain pb st where w: "w = (pb, st)" by fastforce
  from assms(3) obtain st1 tc1 w1 s st2 tc2 pb2 where
    auth: "(if skip_auth_check env \<or> md_implicit md then Inr (pb, st1)
       else bindR (authorize_transaction env (md_trx md) (st1, tc1)) (\<lambda>_. notify_ram_usage env push (md_trx md) (pb, st1))) = Inr w1"
    and fin: "complete_transaction env md tc2 (fst w1) = Inr pb2" "w' = (pb2, fresh_context st2)"
    using assms(2) by (auto simp: apply_transaction_def w bindR_eq_Inr)
  have "length (pb_transactions (fst w1)) \<ge> length (pb_transactions pb)"
    using auth notify_ok [OF assms(1), of env "md_trx md" "(pb, st1)" w1] by (auto simp: bindR_eq_Inr split: if_splits)
  then show ?thesis using complete_length [OF fin(1)] fin(2) w by simp
qed

lemma trace_of_eq_Inr:
  "trace_of w r = Inr (e, w') \<longleftrightarrow>
     (\<exists>pb st. r = Inr (pb, st) \<and> e = None \<and> w' = (pb\<lparr>attempts := attempts (fst w) + 1\<rparr>, st))
     \<or> (\<exists>x. r = Inl x \<and> is_fc_exception x \<and> e = Some x \<and> w' = ((fst w)\<lparr>attempts := attempts (fst w) + 1\<rparr>, snd w))"
  by (auto simp: trace_of_def split: sum.splits prod.splits)

lemma push_transaction_Inr:
  "push_transaction (Suc l) cp env dl b ex md w = Inr (e, w') \<longleftrightarrow>
     dl \<noteq> 0 \<and> (let env = at_clock cp (attempts (fst w)) l env in \<exists>tc. input_context env md dl b ex = Inr tc
       \<and> trace_of w (apply_transaction cp env (push_transaction l cp env time_maximum 1 True) md tc w) = Inr (e, w'))"
  by (auto simp: bes_assert_eq_Inr capture_eq_Inr Let_def bindR_eq_Inr)

lemma push_transaction_counts: "\<not> producing env \<Longrightarrow> counts_receipts (push_transaction l cp env dl b ex)"
proof (induction l arbitrary: env dl b ex)
  case 0
  then show ?case by (simp add: counts_receipts_def)
next
  case (Suc l)
  show ?case unfolding counts_receipts_def
  proof (intro allI impI)
    fix md e and w w' :: block_work
    let ?env = "at_clock cp (attempts (fst w)) l env"
    assume "push_transaction (Suc l) cp env dl b ex md w = Inr (e, w')"
    then obtain tc where t: "trace_of w (apply_transaction cp ?env (push_transaction l cp ?env time_maximum 1 True) md tc w) = Inr (e, w')"
      unfolding push_transaction_Inr by (auto simp: Let_def)
    have "counts_receipts (push_transaction l cp ?env time_maximum 1 True)" by (rule Suc.IH) (simp add: Suc.prems)
    then show "length (pb_transactions (fst w')) \<ge> length (pb_transactions (fst w))
       \<and> (case e of
            None \<Rightarrow> \<not> md_implicit md \<longrightarrow> length (pb_transactions (fst w')) > length (pb_transactions (fst w))
          | Some _ \<Rightarrow> w' = ((fst w)\<lparr>attempts := attempts (fst w) + 1\<rparr>, snd w))"
      using t apply_transaction_counts [of "push_transaction l cp ?env time_maximum 1 True" ?env cp md tc w] Suc.prems
      by (fastforce simp: trace_of_eq_Inr)
  qed
qed

declare push_transaction.simps [simp del]

text \<open>An input transaction that is applied with one receipt is applied in the same way when authorizations are not checked.\<close>

lemma apply_transaction_relaxed:
  assumes "relaxes True t env" "counts_receipts push" "\<not> producing env" "\<not> md_implicit md"
    and "apply_transaction cp env push md tc w = Inr w'" "length (pb_transactions (fst w')) = length (pb_transactions (fst w)) + 1"
  shows "\<exists>n. apply_transaction cp (relaxed True t env) push' md tc w = Inr ((fst w')\<lparr>attempts := n\<rparr>, snd w')"
proof -
  obtain pb st where w: "w = (pb, st)" by fastforce
  from assms(3,5) obtain st1 tc1 pb1 st1' s st2 tc2 pb2 where
    b: "begin_transaction cp env md (fresh_context st, tc) = Inr (st1, tc1)"
    and auth: "(if skip_auth_check env \<or> md_implicit md then Inr (pb, st1)
       else bindR (authorize_transaction env (md_trx md) (st1, tc1)) (\<lambda>_. notify_ram_usage env push (md_trx md) (pb, st1))) = Inr (pb1, st1')"
    and ex: "trx_exec env (st1', tc1) = Inr s" "finalize env s = Inr (st2, tc2)"
    and fin: "complete_transaction env md tc2 pb1 = Inr pb2" "w' = (pb2, fresh_context st2)"
    by (auto simp: apply_transaction_def w bindR_eq_Inr)
  have n: "pb1 = pb\<lparr>attempts := attempts pb1\<rparr>" "st1' = st1"
    using auth notify_ok [OF assms(2), of env "md_trx md" "(pb, st1)" "(pb1, st1')"] complete_length [OF fin(1)] fin(2) assms(6) w
    by (auto simp: bindR_eq_Inr split: if_splits)
  have "pb = pb1\<lparr>attempts := attempts pb\<rparr>" using n(1) by (metis pending_block.surjective pending_block.update_convs(3))
  then have "complete_transaction env md tc2 pb = Inr (pb2\<lparr>attempts := attempts pb\<rparr>)"
    using fin(1) complete_attempts [of env md tc2 "attempts pb" pb1] by simp
  then show ?thesis
    using passes_toD [OF relaxed_begin b] passes_toD [OF relaxed_trx_exec ex(1)] passes_toD [OF relaxed_finalize ex(2)] assms(1,3)
    by (auto simp: apply_transaction_def w fin(2) n(2))
qed

lemma scheduled_relaxed [simp]: "push_scheduled_transaction cp (relaxed a t env) = push_scheduled_transaction cp env"
proof -
  have e: "(relaxed a t env)\<lparr>skip_auth_check := False, skip_trx_checks := False\<rparr> = env\<lparr>skip_auth_check := False, skip_trx_checks := False\<rparr>"
    by (simp add: relaxed_def)
  show ?thesis unfolding push_scheduled_transaction_def relaxed_simps e by (rule refl)
qed

lemma push_transaction_relaxed:
  assumes "relaxes True t env" "\<not> producing env" "\<not> md_implicit md" "push_transaction (Suc l) cp env dl b ex md w = Inr (None, w')"
    and "length (pb_transactions (fst w')) = length (pb_transactions (fst w)) + 1"
  shows "push_transaction (Suc l) cp (relaxed True t env) dl b ex md w = Inr (None, w')"
proof -
  let ?env = "at_clock cp (attempts (fst w)) l env"
  let ?push = "push_transaction l cp ?env time_maximum 1 True"
  let ?push' = "push_transaction l cp (relaxed True t ?env) time_maximum 1 True"
  from assms(4) obtain tc pb st where t: "dl \<noteq> 0" "input_context ?env md dl b ex = Inr tc"
    "apply_transaction cp ?env ?push md tc w = Inr (pb, st)" "w' = (pb\<lparr>attempts := attempts (fst w) + 1\<rparr>, st)"
    by (auto simp: push_transaction_Inr Let_def trace_of_eq_Inr)
  have c: "counts_receipts ?push" by (rule push_transaction_counts) (simp add: assms(2))
  have "\<exists>n. apply_transaction cp (relaxed True t ?env) ?push' md tc w = Inr (pb\<lparr>attempts := n\<rparr>, st)"
    using apply_transaction_relaxed [OF _ c _ assms(3) t(3), of t ?push'] assms(1,2,5) t(4) by simp
  then obtain n where "apply_transaction cp (relaxed True t ?env) ?push' md tc w = Inr (pb\<lparr>attempts := n\<rparr>, st)" ..
  then show ?thesis using t(1,2,4) by (simp add: push_transaction_Inr Let_def trace_of_eq_Inr)
qed

lemma receipt_relaxed [passing]:
  assumes "relaxes True t env" "\<not> producing env"
  shows "passes_to (push_block_receipt cp env r w) (push_block_receipt cp (relaxed True t env) r w)"
proof (cases "receipt_trx r")
  case (Inl tid)
  then show ?thesis unfolding push_block_receipt_def by (simp add: passes_refl)
next
  case (Inr pt)
  show ?thesis unfolding passes_to_def
  proof (intro allI impI)
    fix w' assume a: "push_block_receipt cp env r w = Inr w'"
    then obtain md e w1 where m: "metadata_of_packed (cp_trx cp) pt = Inr md"
      "push_transaction 2 cp env time_maximum (cpu_usage_us r) True md w = Inr (e, w1)"
      by (auto simp: push_block_receipt_def Inr bindR_eq_Inr)
    have e: "e = None" "length (pb_transactions (fst w1)) = length (pb_transactions (fst w)) + 1"
      using a by (auto simp: push_block_receipt_def Inr m bes_assert_eq_Inr Let_def split: option.splits if_splits)
    have "\<not> md_implicit md" using m(1) by (auto simp: metadata_of_packed_def bindR_eq_Inr)
    then have "push_transaction 2 cp (relaxed True t env) time_maximum (cpu_usage_us r) True md w = Inr (e, w1)"
      using push_transaction_relaxed [OF assms, of md 1] m(2) e by (simp add: numeral_2_eq_2)
    then show "push_block_receipt cp (relaxed True t env) r w = Inr w'"
      using a by (simp add: push_block_receipt_def Inr m)
  qed
qed

section \<open>Fork switching relies on the execution of blocks\<close>

text \<open>
  A node that does not trust the signatures of producers instead of checks, and whose options do not force the check of authorizations while other checks are
  skipped.
\<close>

definition fully_validating :: "chain_params \<Rightarrow> chain_params" where
  "fully_validating cp = cp\<lparr>cp_disable_replay_opts := cp_disable_replay_opts cp \<or> cp_force_all_checks cp,
     cp_settings := (cp_settings cp)\<lparr>light_validation := False\<rparr>\<rparr>"

lemma fully_validating_simps [simp]:
  "light_validation (cp_settings (fully_validating cp)) = False"
  "cp_force_all_checks (fully_validating cp) \<Longrightarrow> cp_disable_replay_opts (fully_validating cp)"
  by (simp_all add: fully_validating_def)

lemma block_env_status:
  "s \<noteq> Incomplete \<Longrightarrow> block_env cp h p s True = block_env cp h p Validated True"
  by (simp add: block_env_def)

lemma start_block_status:
  assumes "s \<noteq> Incomplete"
  shows "start_block cp h t n s st = start_block cp h t n Validated st"
  unfolding start_block_def block_env_status [OF assms] using assms by simp

lemma receipts_revalidated:
  assumes "\<not> light_validation (cp_settings cp)" "cp_force_all_checks cp \<longrightarrow> cp_disable_replay_opts cp" "s \<noteq> Incomplete"
  shows "passes_to (foldR (push_block_receipt cp (block_env cp h p s False)) rs w) (foldR (push_block_receipt cp (block_env cp h p Validated False)) rs w)"
proof (cases "s = Complete \<and> \<not> cp_force_all_checks cp")
  case True
  let ?t = "\<not> cp_disable_replay_opts cp"
  have "block_env cp h p Validated False = relaxed True ?t (block_env cp h p s False)"
    using True by (simp add: block_env_def relaxed_def light_validation_allowed_def)
  moreover have "relaxes True ?t (block_env cp h p s False)" "\<not> producing (block_env cp h p s False)"
    using True assms(1) by (simp_all add: relaxes_def block_env_def light_validation_allowed_def)
  ultimately show ?thesis by (auto intro: passing)
next
  case False
  then have "block_env cp h p Validated False = block_env cp h p s False"
    using assms by (cases s) (auto simp: block_env_def light_validation_allowed_def)
  then show ?thesis by (simp add: passes_refl)
qed

lemma block_rerun:
  assumes "\<not> light_validation (cp_settings cp)" "cp_force_all_checks cp \<longrightarrow> cp_disable_replay_opts cp" "s \<noteq> Incomplete"
  shows "passes_to (execute_block cp h b s d) (execute_block cp h b Validated d)"
  unfolding execute_block_def start_block_status [OF assms(3)] by (intro passing receipts_revalidated [OF assms])

text \<open>The confirmations of the head and the block numbers that they imply are not used.\<close>

definition with_bft :: "nat \<Rightarrow> block_header_state \<Rightarrow> block_header_state" where
  "with_bft x p = p\<lparr>bft_irreversible_blocknum := x\<rparr>"

lemma with_bft_simps [simp]:
  "header (with_bft x p) = header p" "block_num (with_bft x p) = block_num p" "active_schedule (with_bft x p) = active_schedule p"
  "pending_schedule (with_bft x p) = pending_schedule p" "dpos_irreversible_blocknum (with_bft x p) = dpos_irreversible_blocknum p"
  "confirm_count (with_bft x p) = confirm_count p"
  by (simp_all add: with_bft_def)

lemma with_bft_update [simp]:
  "(with_bft x p)\<lparr>confirm_count := c\<rparr> = with_bft x (p\<lparr>confirm_count := c\<rparr>)" "(with_bft x p)\<lparr>header := h\<rparr> = with_bft x (p\<lparr>header := h\<rparr>)"
  "(with_bft x p)\<lparr>dpos_proposed_irreversible_blocknum := n\<rparr> = with_bft x (p\<lparr>dpos_proposed_irreversible_blocknum := n\<rparr>)"
  by (simp_all add: with_bft_def)

lemma generate_next_core:
  "generate_next cr (h\<lparr>bft_irreversible_blocknum := x, confirmations := y\<rparr>) t = bindR (generate_next cr h t) (\<lambda>p. Inr (with_bft x p))"
  by (simp add: generate_next_def get_scheduled_producer_def calc_dpos_last_irreversible_def with_bft_def Let_def bindR_def bes_assert_def
      split: sum.splits)

lemma set_confirmed_loop_core: "set_confirmed_loop (with_bft x p) i n = with_bft x (set_confirmed_loop p i n)"
proof (induction p i n rule: set_confirmed_loop.induct)
  case (2 s i n)
  show ?case using 2 by (auto simp: Let_def)
qed simp

lemma set_confirmed_core: "set_confirmed n (with_bft x p) = with_bft x (set_confirmed n p)"
  by (simp add: set_confirmed_def Let_def set_confirmed_loop_core)

lemma maybe_promote_core: "maybe_promote_pending (with_bft x p) = apsnd (with_bft x) (maybe_promote_pending p)"
  by (simp add: maybe_promote_pending_def with_bft_def Let_def)

lemma promote_proposed_core: "promote_proposed cr b (with_bft x p, st) = bindR (promote_proposed cr b (p, st)) (\<lambda>(p, st). Inr (with_bft x p, st))"
  by (auto simp: promote_proposed_def set_new_producers_def with_bft_def bes_assert_def split: option.splits)

lemma block_env_core: "block_env cp (h\<lparr>bft_irreversible_blocknum := x, confirmations := y\<rparr>) (with_bft x p) = block_env cp h p"
  by (simp add: fun_eq_iff block_env_def)

lemma push_onblock_core: "push_onblock cp env (h\<lparr>bft_irreversible_blocknum := x, confirmations := y\<rparr>) w = push_onblock cp env h w"
  by (simp add: push_onblock_def)

lemma start_block_core:
  "start_block cp (h\<lparr>bft_irreversible_blocknum := x, confirmations := y\<rparr>) t n s st
     = bindR (start_block cp h t n s st) (\<lambda>(p, w). Inr (with_bft x p, w))"
proof (cases "generate_next (cp_crypto cp) h t")
  case (Inl e)
  then show ?thesis by (simp add: start_block_def generate_next_core)
next
  case (Inr p)
  obtain b q where q: "maybe_promote_pending (set_confirmed n p) = (b, q)" by fastforce
  show ?thesis
  proof (cases "promote_proposed (cp_crypto cp) b (q, enter_block (timestamp (header q)) st)")
    case (Inl e)
    then show ?thesis by (simp add: start_block_def generate_next_core Inr set_confirmed_core maybe_promote_core q promote_proposed_core Let_def)
  next
    case (Inr r)
    then show ?thesis
      by (cases r) (simp add: start_block_def generate_next_core \<open>generate_next _ _ _ = _\<close> set_confirmed_core maybe_promote_core q promote_proposed_core
          block_env_core push_onblock_core case_prod_unfold Let_def bindR_assoc)
  qed
qed

lemma finalize_block_core: "finalize_block cp (with_bft x p) w = bindR (finalize_block cp p w) (\<lambda>(p, st). Inr (with_bft x p, st))"
  by (auto simp: finalize_block_def with_bft_def Let_def bindR_def capture_and_rethrow_def split: sum.splits prod.splits)

lemma block_core: "execute_block cp (h\<lparr>bft_irreversible_blocknum := x, confirmations := y\<rparr>) b s d = execute_block cp h b s d"
  by (simp add: execute_block_def start_block_core block_env_core finalize_block_core case_prod_unfold bindR_assoc)

lemma chain_node_runner:
  assumes "\<not> light_validation (cp_settings cp)" "cp_force_all_checks cp \<longrightarrow> cp_disable_replay_opts cp"
  shows "block_runner (chain_node cp)"
proof
  fix s h b d r
  assume "s \<noteq> Incomplete" "run_block (chain_node cp) h b s d = Inr r"
  then show "run_block (chain_node cp) h b Validated d = Inr r"
    using passes_toD [OF block_rerun [OF assms]] by (simp add: chain_node_def)
next
  show "run_block (chain_node cp) (h\<lparr>bft_irreversible_blocknum := x, confirmations := y\<rparr>) b s d = run_block (chain_node cp) h b s d" for h x y b s d
    by (simp add: chain_node_def block_core)
qed

interpretation full_node: block_runner "chain_node (fully_validating cp)" for cp
  by (rule chain_node_runner) simp_all

end
