(* ===== verification/BlockInvariants.thy ===== *)
theory BlockInvariants
  imports BlockExecution
begin

text \<open>
  What the execution of transactions and blocks keeps: the rules are in the locales \<open>transaction_invariant\<close> and \<open>block_invariant\<close>, which
  extend those of actions.  They are interpreted for the record of input transactions, and for accounts and permissions.
\<close>

section \<open>Invariants of transactions\<close>

locale transaction_invariant = action_invariant +
  assumes usage: "update_account_usage as t (resources (cdb st)) = Inr r \<Longrightarrow> I st \<Longrightarrow> I (st\<lparr>cdb := (cdb st)\<lparr>resources := r\<rparr>\<rparr>)"
    and billing: "add_transaction_usage as cpu net t (resources (cdb st)) = Inr r \<Longrightarrow> I st \<Longrightarrow> I (st\<lparr>cdb := (cdb st)\<lparr>resources := r\<rparr>\<rparr>)"
    and refund: "add_pending_ram_usage n ram (resources (cdb st)) = Inr r \<Longrightarrow> I st \<Longrightarrow> I (st\<lparr>cdb := (cdb st)\<lparr>resources := r\<rparr>\<rparr>)"
    and memory: "add_ram_usage n ram (cdb st) = Inr d \<Longrightarrow> I st \<Longrightarrow> I (st\<lparr>cdb := d\<rparr>)"
    and generated: "I st \<Longrightarrow> I (st\<lparr>cdb := (cdb st)\<lparr>auth_db := (perms_of st)\<lparr>generated_transactions := gs\<rparr>\<rparr>\<rparr>)"
    and touched: "I st \<Longrightarrow> I (st\<lparr>cdb := (cdb st)\<lparr>auth_db := (perms_of st)\<lparr>permission_usages := us\<rparr>\<rparr>\<rparr>)"
    and verified: "I st \<Longrightarrow> I (st\<lparr>cdb := (cdb st)\<lparr>validate_ram_usage := vs\<rparr>\<rparr>)"
    and recorded: "record_transaction tid e st = Inr st' \<Longrightarrow> I st \<Longrightarrow> I st'"
begin

lemma init_keeps: "I (fst s) \<Longrightarrow> ensures (\<lambda>s'. I (fst s')) (init env u s)"
  unfolding init_def init_limits_def
  by (intro ensures_intros) (auto simp: on_resources_def on_cdb_def bindR_eq_Inr intro: usage)

lemma init_for_input_keeps: "I (fst s) \<Longrightarrow> ensures (\<lambda>s'. I (fst s')) (init_for_input_trx env u p sk s)"
proof -
  assume i: "I (fst s)"
  have j: "I st'" if "init env n (st, tc) = Inr (st', tc')" "I st" for n st tc st' tc' using ensuresD [OF init_keeps that(1)] that(2) by simp
  show ?thesis using i unfolding init_for_input_trx_def by (intro ensures_intros) (auto dest: j intro: recorded)
qed

lemma init_implicit_keeps: "I (fst s) \<Longrightarrow> ensures (\<lambda>s'. I (fst s')) (init_for_implicit_trx env n s)"
  unfolding init_for_implicit_trx_def using init_keeps by (intro ensures_intros) auto

lemma init_deferred_keeps: "I (fst s) \<Longrightarrow> ensures (\<lambda>s'. I (fst s')) (init_for_deferred_trx env p s)"
  unfolding init_for_deferred_trx_def by (intro ensures_intros init_keeps) simp

lemma begin_keeps: "I (fst s) \<Longrightarrow> ensures (\<lambda>s'. I (fst s')) (begin_transaction cp env md s)"
proof -
  assume i: "I (fst s)"
  show ?thesis unfolding begin_transaction_def
    by (rule ensures_seq [where Q = "\<lambda>s'. I (fst s')"])
      (auto intro!: ensures_intros ensures_seq [OF init_implicit_keeps [OF i]] init_for_input_keeps [OF i])
qed

lemma schedule_keeps: "I (fst s) \<Longrightarrow> ensures (\<lambda>s'. I (fst s')) (schedule_transaction env s)"
  unfolding schedule_transaction_def
  by (intro ensures_intros) (auto simp: on_permissions_def on_cdb_def create_generated_def bindR_eq_Inr intro!: memory generated split: if_splits)

lemma dispatch_keeps: "I (fst s) \<Longrightarrow> ensures (\<lambda>s'. I (fst s')) (dispatch_action env n cf r a s)"
  by (rule dispatch_action_keeps)

lemma trx_exec_keeps: "I (fst s) \<Longrightarrow> ensures (\<lambda>s'. I (fst s')) (trx_exec env s)"
  unfolding trx_exec_def
  by (intro ensures_Let ensures_bes_assert ensures_seq [where Q = "\<lambda>s'. I (fst s')"])
    (auto intro!: ensures_intros ensures_foldR dispatch_action_keeps schedule_keeps)

lemma touch_keeps: "I st \<Longrightarrow> ensures I (touch_permission p st)"
  unfolding touch_permission_def
  by (intro ensures_intros) (auto simp: ensures_def on_cdb_def update_permission_usage_def bindR_eq_Inr intro!: touched)

lemma finalize_keeps: "I (fst s) \<Longrightarrow> ensures (\<lambda>s'. I (fst s')) (finalize env s)"
  unfolding finalize_def
  by (intro ensures_prod ensures_bes_assert ensures_seq [where Q = I])
    (auto intro!: ensures_intros ensures_foldR touch_keeps simp: on_resources_def on_cdb_def bindR_eq_Inr billing)

lemma fresh_keeps: "I st \<Longrightarrow> I (fresh_context st)"
  by (simp add: fresh_context_def verified)

end

section \<open>Invariants of blocks\<close>

text \<open>
  A property that every transaction keeps in any environment, and that what blocks do besides keeps; old input transactions are
  forgotten at the times \<open>due\<close> without harm.
\<close>

locale block_invariant =
  fixes I :: "chain_state \<Rightarrow> bool" and due :: "time_point \<Rightarrow> bool"
  assumes transacting: "transaction_invariant env I"
    and entering: "I st \<Longrightarrow> I (enter_block slot st)"
    and promoting: "I st \<Longrightarrow> I (st\<lparr>gpo := g\<rparr>)"
    and authorizing: "update_producers_authority ps st = Inr st' \<Longrightarrow> I st \<Longrightarrow> I st'"
    and adjusting: "update_block_limits cfg n (resources (cdb st)) = Inr r \<Longrightarrow> I st \<Longrightarrow> I (st\<lparr>cdb := (cdb st)\<lparr>resources := r\<rparr>\<rparr>)"
    and summarizing: "I st \<Longrightarrow> I (st\<lparr>block_summaries := bs\<rparr>)"
    and clearing: "clear_expired_input_transactions t st = Inr st' \<Longrightarrow> due t \<Longrightarrow> I st \<Longrightarrow> I st'"
begin

lemmas inits_keep = transaction_invariant.init_keeps [OF transacting] transaction_invariant.begin_keeps [OF transacting]

lemmas runs_keep = transaction_invariant.trx_exec_keeps [OF transacting] transaction_invariant.finalize_keeps [OF transacting]

lemmas fresh_keep = transaction_invariant.fresh_keeps [OF transacting]

lemma notification_keeps:
  assumes "\<And>md w. I (snd w) \<Longrightarrow> ensures (\<lambda>(e, w'). I (snd w')) (push md w)" "I (snd w)"
  shows "ensures (\<lambda>w'. I (snd w')) (notify_ram_usage env push t w)"
  unfolding notify_ram_usage_def using assms(1) [OF assms(2)] by (intro ensures_intros) (auto simp: ensures_def)

lemma apply_transaction_keeps:
  assumes p: "\<And>md w. I (snd w) \<Longrightarrow> ensures (\<lambda>(e, w'). I (snd w')) (push md w)" and i: "I (snd w)"
  shows "ensures (\<lambda>w'. I (snd w')) (apply_transaction cp env push md tc w)"
proof -
  note n = notification_keeps [OF p]
  obtain pb st where w: "w = (pb, st)" by fastforce
  show ?thesis unfolding apply_transaction_def w split_conv
  proof (rule ensures_seq [OF inits_keep(2)], goal_cases)
    case 1 show ?case using i by (simp add: w fresh_keep)
  next
    case (2 s)
    obtain st' tc' where s: "s = (st', tc')" by fastforce
    show ?case unfolding s split_conv
    proof (rule ensures_seq [where Q = "\<lambda>w'. I (snd w')"], goal_cases)
      case 1 show ?case using 2 n by (intro ensures_intros) (auto simp: s intro: ensures_intros)
    next
      case (2 w')
      then show ?case using i
        by (intro ensures_prod ensures_seq [OF runs_keep(1)] ensures_seq [OF runs_keep(2)])
          (auto simp: w intro!: ensures_intros fresh_keep)
    qed
  qed
qed

lemma push_transaction_keeps: "I (snd w) \<Longrightarrow> ensures (\<lambda>(e, w'). I (snd w')) (push_transaction n cp env dl b ex md w)"
proof (induction n arbitrary: env dl b ex md w)
  case 0
  show ?case by (simp add: push_transaction.simps ensures_def)
next
  case (Suc n)
  have t: "ensures (\<lambda>(e, w'). I (snd w')) (trace_of w r)" if "ensures (\<lambda>w'. I (snd w')) r" for r
    using that Suc(2) by (auto simp: trace_of_def ensures_def split: sum.splits prod.splits if_splits)
  show ?case unfolding push_transaction.simps
    by (intro ensures_intros t apply_transaction_keeps Suc)
qed

lemma notify_keeps:
  "I (snd w) \<Longrightarrow> ensures (\<lambda>w'. I (snd w')) (notify_ram_usage env (push_transaction n cp env' dl b ex) t w)"
  by (rule notification_keeps [OF push_transaction_keeps])

lemma push_onblock_keeps: "I (snd w) \<Longrightarrow> ensures (\<lambda>w'. I (snd w')) (push_onblock cp env h w)"
proof -
  assume i: "I (snd w)"
  have "I (snd w')" if "push_transaction n cp env dl b ex md w = Inr (e, w')" for n dl b ex md e w'
    using ensuresD [OF push_transaction_keeps [OF i] that] by simp
  then show ?thesis using i
    by (auto simp: push_onblock_def ensures_def bindR_eq_Inr split: sum.splits if_splits)
qed

end

context block_invariant
begin

lemma resources_keep:
  assumes "I st"
  shows "ensures I (on_resources (update_account_usage as t) st)" "ensures I (on_resources (add_transaction_usage as cpu net t) st)"
    "ensures I (on_resources (add_pending_ram_usage n ram) st)"
  using assms transaction_invariant.usage [OF transacting] transaction_invariant.billing [OF transacting]
    transaction_invariant.refund [OF transacting]
  by (auto simp: ensures_def on_resources_def on_cdb_def bindR_eq_Inr)

lemma remove_scheduled_keeps: "I st \<Longrightarrow> ensures I (remove_scheduled_transaction g st)"
  unfolding remove_scheduled_transaction_def
  by (rule ensures_seq [OF resources_keep(3)])
    (auto simp: ensures_def on_permissions_def on_cdb_def bindR_eq_Inr intro!: transaction_invariant.generated [OF transacting])

lemma onerror_keeps:
  assumes "I (snd w)"
  shows "ensures (\<lambda>r. case r of Inl w' \<Rightarrow> I (snd w') | Inr _ \<Rightarrow> True) (apply_onerror cp env g dl start b ex w)"
proof -
  obtain pb st where w: "w = (pb, st)" by fastforce
  let ?env = "at_clock cp (attempts pb) 1 env"
  have "ensures (\<lambda>w'. I (snd w'))
         (bindR (init_for_implicit_trx ?env 0 (fresh_context st, tc)) (\<lambda>(st, tc).
          bindR (dispatch_action ?env 0 False (gto_sender g) a (st, tc\<lparr>tc_published := published g\<rparr>)) (\<lambda>s.
          bindR (finalize ?env s) (\<lambda>(st, tc).
          bindR (push_receipt (Inl (gto_trx_id g)) soft_fail (to_u64 (billed_cpu_time_us tc)) (trx_net_usage tc) pb) (\<lambda>pb.
          Inr (append_actions (executed_actions tc) pb, fresh_context st))))))" for a tc
    by (intro ensures_prod ensures_seq [OF transaction_invariant.init_implicit_keeps [OF transacting]]
        ensures_seq [OF transaction_invariant.dispatch_keeps [OF transacting]] ensures_seq [OF runs_keep(2)])
      (use assms in \<open>auto simp: w intro!: ensures_intros fresh_keep\<close>)
  then show ?thesis
    unfolding apply_onerror_def w split_conv
    by (intro ensures_intros) (auto simp: ensures_def split: sum.splits if_splits)
qed

lemma retire_keeps: "I (snd w) \<Longrightarrow> ensures (\<lambda>w'. I (snd w')) (retire_failed env g ex cpu tc w)"
proof -
  assume i: "I (snd w)"
  obtain pb st where w: "w = (pb, st)" by fastforce
  have h: "ensures (\<lambda>(c, st'). I st') (hard_failure_cpu env ex cpu tc st)"
    unfolding hard_failure_cpu_def using i
    by (intro ensures_if ensures_Inr ensures_seq [OF resources_keep(1)]) (auto simp: w intro!: ensures_intros)
  show ?thesis unfolding retire_failed_def w split_conv
    by (intro ensures_seq [OF h] ensures_prod ensures_seq [OF resources_keep(2)]) (auto intro!: ensures_intros)
qed

lemma after_failure_keeps:
  assumes "I (snd w)"
  shows "ensures (\<lambda>(e', r). \<forall>w'. r = Some w' \<longrightarrow> I (snd w')) (after_failure cp env g dl b ex tc e w)"
proof -
  obtain pb st where w: "w = (pb, st)" by fastforce
  show ?thesis unfolding after_failure_def w split_conv Let_def
  proof (rule ensures_seq [where Q = "\<lambda>r. case r of Inl w' \<Rightarrow> I (snd w') | Inr _ \<Rightarrow> True"], goal_cases)
    case 1
    show ?case using onerror_keeps [OF assms] by (intro ensures_if ensures_Inr) (simp_all add: w)
  next
    case (2 r)
    have "ensures (\<lambda>(e', r). \<forall>w'. r = Some w' \<longrightarrow> I (snd w')) (bindR (retire_failed env g ex c tc (pb, st)) (\<lambda>w. Inr (Some x, Some w)))" for c x
      by (rule ensures_seq [OF retire_keeps]) (use assms in \<open>auto simp: w intro: ensures_intros\<close>)
    with 2 show ?case by (auto simp: ensures_Inr simp del: split_paired_All split: sum.splits)
  qed
qed

lemma run_scheduled_keeps:
  assumes "I (snd w)"
  shows "ensures (\<lambda>(e', r). \<forall>w'. r = Some w' \<longrightarrow> I (snd w')) (run_scheduled cp env g t dl b ex w)"
proof -
  obtain pb st where w: "w = (pb, st)" by fastforce
  let ?env = "at_clock cp (attempts pb) 0 env"
  have r: "ensures (\<lambda>w'. I (snd w'))
         (bindR (init_for_deferred_trx ?env p (fresh_context st, tc)) (\<lambda>s.
          bindR (trx_exec ?env s) (\<lambda>s.
          bindR (finalize ?env s) (\<lambda>(st, tc).
          bindR (push_receipt (Inl (gto_trx_id g)) executed (to_u64 (billed_cpu_time_us tc)) (trx_net_usage tc) pb) (\<lambda>pb.
          Inr (append_actions (executed_actions tc) pb, fresh_context st))))))" for p tc
    by (intro ensures_prod ensures_seq [OF transaction_invariant.init_deferred_keeps [OF transacting]]
        ensures_seq [OF runs_keep(1)] ensures_seq [OF runs_keep(2)])
      (use assms in \<open>auto simp: w intro!: ensures_intros fresh_keep\<close>)
  have f: "ensures (\<lambda>(e', r). \<forall>w'. r = Some w' \<longrightarrow> I (snd w')) (after_failure cp ?env g dl b ex tc e (pb, st))" for tc e
    by (rule after_failure_keeps) (use assms in \<open>simp add: w\<close>)
  show ?thesis
    unfolding run_scheduled_def w split_conv Let_def
    by (rule ensures_bindR) (use r f in \<open>auto simp: ensures_def split: sum.splits\<close>)
qed

lemma push_scheduled_keeps:
  assumes "I (snd w)"
  shows "ensures (\<lambda>(e, w'). I (snd w')) (push_scheduled_transaction cp env tid dl b ex w)"
proof -
  obtain pb st where w: "w = (pb, st)" by fastforce
  have r: "I st'" if "remove_scheduled_transaction g st = Inr st'" for g st'
    using ensuresD [OF remove_scheduled_keeps that] assms by (simp add: w)
  show ?thesis unfolding push_scheduled_transaction_def w split_conv
    using r assms run_scheduled_keeps
    by (intro ensures_intros) (fastforce simp: ensures_def w)+
qed

end

lemma set_confirmed_loop_header [simp]: "header (set_confirmed_loop p i n) = header p"
  by (induction p i n rule: set_confirmed_loop.induct) (simp_all add: Let_def)

lemma started_time:
  assumes "generate_next cr h t = Inr p" "maybe_promote_pending (set_confirmed n p) = (b, q)" "t \<noteq> 0"
  shows "timestamp (header q) = t" "timestamp (header h) < t"
proof -
  have "header q = header (set_confirmed n p)" using maybe_promote_simps(2) [of "set_confirmed n p"] assms(2) by simp
  moreover have "timestamp (header (set_confirmed n p)) = timestamp (header p)" by (simp add: set_confirmed_def Let_def)
  moreover have "timestamp (header p) = t \<and> timestamp (header h) < t" by (rule generate_nextE [OF assms(1,3)]) simp
  ultimately show "timestamp (header q) = t" "timestamp (header h) < t" by simp_all
qed

lemma set_new_producers_header: "set_new_producers cr ps p = Inr q \<Longrightarrow> timestamp (header q) = timestamp (header p)"
  by (auto simp: set_new_producers_def bes_assert_eq_Inr)

context block_invariant
begin

lemma push_block_receipt_keeps: "I (snd w) \<Longrightarrow> ensures (\<lambda>w'. I (snd w')) (push_block_receipt cp env r w)"
  unfolding push_block_receipt_def
proof (rule ensures_seq [where Q = "\<lambda>(e, w'). I (snd w')"], goal_cases)
  case 1
  show ?case
    by (cases "receipt_trx r") (auto intro!: ensures_intros push_transaction_keeps push_scheduled_keeps 1)
next
  case (2 x)
  then show ?case by (auto intro!: ensures_intros)
qed

lemma promote_proposed_keeps: "I st \<Longrightarrow> ensures (\<lambda>(p', st'). I st') (promote_proposed cr b (p, st))"
  unfolding promote_proposed_def by (auto intro!: ensures_intros promoting)

lemma start_block_keeps:
  assumes "I st" "when \<noteq> 0" "due (to_time_point when)"
  shows "ensures (\<lambda>(p, w). I (snd w)) (start_block cp h when n s st)"
  unfolding start_block_def
proof (intro ensures_bindR ensures_Let ensures_prod, goal_cases)
  case (1 p x b q st1)
  have i: "I st1" using assms(1) 1 by (simp add: entering)
  have t: "due (to_time_point (timestamp (header q)))" using started_time(1) [OF 1(1) _ assms(2), of n b q] 1(2,3) assms(3) by simp
  have pr: "ensures (\<lambda>(p', st'). I st' \<and> timestamp (header p') = timestamp (header q)) (promote_proposed (cp_crypto cp) b (q, st1))"
    using promote_proposed_keeps [OF i, of "cp_crypto cp" b q]
    by (auto simp: ensures_def promote_proposed_def bindR_eq_Inr dest: set_new_producers_header split: if_splits)
  show ?case
    by (intro ensures_if ensures_Inr ensures_seq [OF pr] ensures_prod ensures_seq [OF push_onblock_keeps] ensures_bindR)
      (use i t in \<open>auto intro: clearing authorizing\<close>)
qed

lemma finalize_block_keeps: "I (snd w) \<Longrightarrow> ensures (\<lambda>(p', st'). I st') (finalize_block cp p w)"
  unfolding finalize_block_def create_block_summary_def
  by (intro ensures_intros) (auto simp: on_resources_def on_cdb_def bindR_eq_Inr intro!: summarizing adjusting)

lemma receipts_keep: "I (snd w) \<Longrightarrow> ensures (\<lambda>w'. I (snd w')) (foldR (push_block_receipt cp env) rs w)"
  by (rule ensures_foldR) (auto intro: push_block_receipt_keeps)

lemma execute_block_keeps:
  assumes "I st" "timestamp b \<noteq> 0" "due (to_time_point (timestamp b))"
  shows "ensures (\<lambda>(b', st'). I st') (execute_block cp h b s st)"
  unfolding execute_block_def
  by (intro ensures_bes_assert ensures_prod ensures_seq [OF start_block_keeps [OF assms]] ensures_seq [OF receipts_keep]
      ensures_seq [OF finalize_block_keeps]) (auto intro: ensures_intros)

end

section \<open>Input transactions are recorded\<close>

definition recorded :: "sha256 \<Rightarrow> nat \<Rightarrow> chain_state \<Rightarrow> bool" where
  "recorded i e st \<longleftrightarrow> index_base (input_transactions st)
     \<and> (\<exists>k. map_of (indices (input_transactions st)) k = Some \<lparr>to_expiration = e, to_trx_id = i\<rparr>)"

lemma recorded_simps [simp]:
  "recorded i e (st\<lparr>cdb := d\<rparr>) = recorded i e st" "recorded i e (st\<lparr>gpo := g\<rparr>) = recorded i e st"
  "recorded i e (st\<lparr>global_action_sequence := n\<rparr>) = recorded i e st" "recorded i e (st\<lparr>block_summaries := bs\<rparr>) = recorded i e st"
  by (simp_all add: recorded_def)

lemma record_transaction_recorded:
  assumes "record_transaction tid x st = Inr st'" "index_base (input_transactions st)"
  shows "recorded tid x st'" "\<not> recorded tid e st" "recorded i e st \<Longrightarrow> recorded i e st'"
proof -
  let ?v = "\<lparr>to_expiration = x, to_trx_id = tid\<rparr>"
  obtain idx where e: "emplace transaction_clash ?v (input_transactions st) = Inr idx" "st' = st\<lparr>input_transactions := idx\<rparr>"
    using assms(1) by (auto simp: record_transaction_def split: sum.splits)
  note b = index_base_emplace [OF e(1) assms(2)]
  have "\<not> transaction_clash ?v w" if "(k, w) \<in> set (indices (input_transactions st))" for k w
  proof -
    have "k \<noteq> next_id (input_transactions st)" using that b(3) by (force simp: map_of_eq_None_iff)
    then show ?thesis using e(1) that by (auto simp: emplace_def clashes_def list_ex_iff Let_def split: if_splits)
  qed
  then show "\<not> recorded tid e st"
    unfolding recorded_def transaction_clash_def key_clash_def using map_of_SomeD by fastforce
  show "recorded tid x st'" using b by (auto simp: recorded_def e(2))
  show "recorded i e st'" if "recorded i e st" using that b by (auto simp: recorded_def e(2)) (metis option.distinct(1))
qed

text \<open>What is removed at a time has expired before it.\<close>

lemma clear_expired_keeps:
  assumes "clear_expired_input_transactions t st = Inr st'" "t \<le> sec_to_time e" "recorded i e st"
  shows "recorded i e st'"
proof -
  let ?v = "\<lparr>to_expiration = e, to_trx_id = i\<rparr>" and ?idx = "input_transactions st"
  obtain k where k: "index_base ?idx" "map_of (indices ?idx) k = Some ?v" using assms(3) by (auto simp: recorded_def)
  let ?old = "takeWhile (\<lambda>(_, v). t > sec_to_time (to_expiration v)) (sort_key (\<lambda>(_, v). to_expiration v) (indices ?idx))"
  have other: "fst x \<noteq> k" if "x \<in> set ?old" for x
  proof
    assume f: "fst x = k"
    have "x \<in> set (indices ?idx)" "sec_to_time (to_expiration (snd x)) < t" using set_takeWhileD [OF that] by auto
    then have "map_of (indices ?idx) k = Some (snd x)" using k(1) f by (metis index_base_def sorted_keys_distinct map_of_eq_Some_iff prod.collapse)
    with k(2) \<open>_ < t\<close> assms(2) show False by simp
  qed
  obtain idx' where f: "foldR (\<lambda>(i, _). remove i) ?old ?idx = Inr idx'" "st' = st\<lparr>input_transactions := idx'\<rparr>"
    using assms(1) by (auto simp: clear_expired_input_transactions_def bindR_eq_Inr)
  have "index_base idx' \<and> map_of (indices idx') k = Some ?v"
    by (rule foldR_invariant [OF f(1)]) (use k other in \<open>force simp: index_base_remove\<close>)+
  then show ?thesis by (auto simp: recorded_def f(2))
qed

lemma update_producers_inputs: "update_producers_authority ps st = Inr st' \<Longrightarrow> input_transactions st' = input_transactions st"
  by (auto simp: update_producers_authority_def on_permissions_def on_cdb_def bindR_eq_Inr)

interpretation recording: block_invariant "recorded i e" "\<lambda>t. t \<le> sec_to_time e" for i e
proof (unfold_locales, goal_cases)
  case (1 env c c') then show ?case using contract_step_leaves [OF 1(1)] by (simp add: recorded_def)
next
  case (13 env tid x st st') 
  then show ?case by (metis record_transaction_recorded(3) recorded_def)
qed (simp_all add: clear_expired_keeps, (simp_all add: recorded_def update_producers_inputs enter_block_def configure_def)?)

lemma add_net_usage_id: "add_net_usage env n tc = Inr tc' \<Longrightarrow> tc_id tc' = tc_id tc"
  by (auto simp: add_net_usage_def bindR_eq_Inr Let_def)

lemma checktime_id: "checktime env tc = Inr tc' \<Longrightarrow> tc_id tc' = tc_id tc"
  by (auto simp: checktime_def next_reading_def bindR_eq_Inr bes_assert_eq_Inr Let_def split: if_splits)

lemma limits_id [simp]: "tc_id (limit_by_accounts st p tc) = tc_id tc" "tc_id (initial_limits st tc) = tc_id tc"
  by (auto simp: limit_by_accounts_def initial_limits_def Let_def split: prod.splits)

lemma init_inputs:
  assumes "init env n (st, tc) = Inr (st', tc')"
  shows "input_transactions st' = input_transactions st" "tc_id tc' = tc_id tc"
  using assms
  by (auto simp: init_def init_limits_def init_accounts_def on_resources_def on_cdb_def bindR_eq_Inr Let_def
      dest!: add_net_usage_id checktime_id split: if_splits)

text \<open>An input transaction is recorded when it begins, and only when it was not recorded and has not expired.\<close>

lemma begin_records:
  assumes "begin_transaction cp env md (st, tc) = Inr (st', tc')" "\<not> md_implicit md" "replay_head_time cp = None" "\<not> skip_trx_checks env"
    and "index_base (input_transactions st)"
  shows "recorded (tc_id tc) (expiration (tc_trx tc)) st'" "\<not> recorded (tc_id tc) x st"
    "block_time_point env \<le> sec_to_time (expiration (tc_trx tc))"
proof -
  obtain u p tc1 where b: "init_for_input_trx env u p False (st, tc) = Inr (st', tc1)"
    using assms(1-3) by (auto simp: begin_transaction_def bindR_eq_Inr)
  then obtain n tc2 st2 tc3 where i: "init env n (st, tc2) = Inr (st2, tc3)" "tc_id tc2 = tc_id tc"
    "record_transaction (tc_id tc3) (expiration (tc_trx tc)) st2 = Inr st'" "block_time_point env \<le> sec_to_time (expiration (tc_trx tc))"
    using assms(4) by (auto simp: init_for_input_trx_def validate_expiration_def bes_assert_eq_Inr bindR_eq_Inr Let_def)
  note s = init_inputs [OF i(1)]
  have "index_base (input_transactions st2)" "recorded (tc_id tc) x st2 = recorded (tc_id tc) x st" using assms(5) s by (simp_all add: recorded_def)
  with record_transaction_recorded [OF i(3)] i(2,4) s(2)
  show "recorded (tc_id tc) (expiration (tc_trx tc)) st'" "\<not> recorded (tc_id tc) x st"
    "block_time_point env \<le> sec_to_time (expiration (tc_trx tc))" by auto
qed

lemma input_context_fields: "input_context env md dl b ex = Inr tc \<Longrightarrow> tc_id tc = md_id md \<and> tc_trx tc = md_trx md"
  by (auto simp: input_context_def new_transaction_context_def configure_context_def bindR_eq_Inr bes_assert_eq_Inr Let_def split: option.splits)

lemma fresh_inputs [simp]: "input_transactions (fresh_context st) = input_transactions st"
  by (simp add: fresh_context_def)

lemma at_clock_time [simp]: "block_time (at_clock cp n l env) = block_time env"
  by (simp add: at_clock_def)

lemma apply_transactionE:
  assumes "apply_transaction cp env push md tc w = Inr w'" "\<not> producing env"
  obtains st1 tc1 w2 s3 st4 tc4 where "begin_transaction cp env md (fresh_context (snd w), tc) = Inr (st1, tc1)"
    "w2 = (fst w, st1) \<or> notify_ram_usage env push (md_trx md) (fst w, st1) = Inr w2"
    "trx_exec env (snd w2, tc1) = Inr s3" "finalize env s3 = Inr (st4, tc4)" "snd w' = fresh_context st4"
  using assms unfolding apply_transaction_def by (cases w) (fastforce simp: bindR_eq_Inr split: if_splits)

lemma push_transaction_records:
  assumes "push_transaction (Suc l) cp env dl b ex md w = Inr (None, w')" "\<not> md_implicit md" "\<not> producing env" "replay_head_time cp = None"
    and "\<not> skip_trx_checks env" "index_base (input_transactions (snd w))"
  shows "recorded (md_id md) (expiration (md_trx md)) (snd w')" "\<not> recorded (md_id md) x (snd w)"
    "block_time_point env \<le> sec_to_time (expiration (md_trx md))"
proof -
  let ?env = "at_clock cp (attempts (fst w)) l env" and ?i = "md_id md" and ?e = "expiration (md_trx md)"
  let ?push = "push_transaction l cp ?env time_maximum 1 True"
  from assms(1) obtain tc pb st where t: "input_context ?env md dl b ex = Inr tc"
    "apply_transaction cp ?env ?push md tc w = Inr (pb, st)" "snd w' = st"
    by (auto simp: push_transaction_Inr Let_def trace_of_eq_Inr)
  obtain st1 tc1 w2 s3 st4 tc4 where
    a: "begin_transaction cp ?env md (fresh_context (snd w), tc) = Inr (st1, tc1)"
    "w2 = (fst w, st1) \<or> notify_ram_usage ?env ?push (md_trx md) (fst w, st1) = Inr w2"
    "trx_exec ?env (snd w2, tc1) = Inr s3" "finalize ?env s3 = Inr (st4, tc4)" "st = fresh_context st4"
    using apply_transactionE [OF t(2)] assms(3) by simp metis
  note r = begin_records [OF a(1) assms(2,4)]
  have i: "recorded ?i ?e st1" "\<not> recorded ?i x (snd w)" "block_time_point env \<le> sec_to_time ?e"
    using r assms(5,6) input_context_fields [OF t(1)] by (auto simp: recorded_def)
  have "recorded ?i ?e (snd w2)"
    using a(2) i(1) recording.notify_keeps [of ?i ?e "(fst w, st1)"] by (cases w2) (auto simp: ensures_def)
  then have "recorded ?i ?e (fst s3)" using ensuresD [OF recording.runs_keep(1) a(3)] by simp
  then have "recorded ?i ?e st4" using ensuresD [OF recording.runs_keep(2) a(4)] by simp
  then show "recorded ?i ?e (snd w')" using a(5) t(3) by (simp add: recorded_def)
  show "\<not> recorded ?i x (snd w)" "block_time_point env \<le> sec_to_time ?e" by (fact i)+
qed

text \<open>The index of input transactions stays an index.\<close>

definition inputs_indexed :: "chain_state \<Rightarrow> bool" where
  "inputs_indexed st \<longleftrightarrow> index_base (input_transactions st)"

lemma clear_expired_indexed: "clear_expired_input_transactions t st = Inr st' \<Longrightarrow> inputs_indexed st \<Longrightarrow> inputs_indexed st'"
  by (auto simp: inputs_indexed_def clear_expired_input_transactions_def bindR_eq_Inr elim!: foldR_invariant dest: index_base_remove)

interpretation indexing: block_invariant inputs_indexed "\<lambda>_. True"
proof (unfold_locales, goal_cases)
  case (1 env c c') then show ?case using contract_step_leaves [OF 1(1)] by (simp add: inputs_indexed_def)
next
  case (13 env tid x st st')
  then show ?case by (metis inputs_indexed_def record_transaction_recorded(1) recorded_def)
qed (simp_all add: clear_expired_indexed, (simp_all add: inputs_indexed_def update_producers_inputs enter_block_def configure_def)?)

text \<open>The input transactions of a receipt: the id and the expiration.\<close>

definition input_of :: "chain_params \<Rightarrow> transaction_receipt \<Rightarrow> (sha256 \<times> nat) list" where
  "input_of cp r = (case receipt_trx r of
     Inl _ \<Rightarrow> []
   | Inr pt \<Rightarrow> (case metadata_of_packed (cp_trx cp) pt of Inl _ \<Rightarrow> [] | Inr md \<Rightarrow> [(md_id md, expiration (md_trx md))]))"

definition inputs_of_block :: "chain_params \<Rightarrow> signed_block \<Rightarrow> (sha256 \<times> nat) list" where
  "inputs_of_block cp b = concat (map (input_of cp) (transactions b))"

text \<open>An environment in which transactions are checked and recorded.\<close>

definition checks_inputs :: "chain_params \<Rightarrow> vm_env \<Rightarrow> bool" where
  "checks_inputs cp env \<longleftrightarrow> \<not> producing env \<and> \<not> skip_trx_checks env \<and> replay_head_time cp = None"

lemma push_receipt_records:
  assumes "push_block_receipt cp env r w = Inr w'" "inputs_indexed (snd w)" "checks_inputs cp env" "(i, e) \<in> set (input_of cp r)"
  shows "recorded i e (snd w')" "\<not> recorded i e (snd w)" "block_time_point env \<le> sec_to_time e"
proof -
  from assms(4) obtain pt md where m: "receipt_trx r = Inr pt" "metadata_of_packed (cp_trx cp) pt = Inr md" "i = md_id md" "e = expiration (md_trx md)"
    by (cases "receipt_trx r"; cases "metadata_of_packed (cp_trx cp) (projr (receipt_trx r))") (auto simp: input_of_def)
  have n: "\<not> md_implicit md" using m(2) by (auto simp: metadata_of_packed_def bindR_eq_Inr)
  have p: "push_transaction (Suc 1) cp env time_maximum (cpu_usage_us r) True md w = Inr (None, w')"
    using assms(1) m(1,2)
    by (auto simp: push_block_receipt_def bindR_eq_Inr Let_def bes_assert_eq_Inr numeral_2_eq_2 split: option.splits if_splits)
  show "recorded i e (snd w')" "\<not> recorded i e (snd w)" "block_time_point env \<le> sec_to_time e"
    using push_transaction_records [OF p n] assms(2,3) by (auto simp: checks_inputs_def inputs_indexed_def m(3,4))
qed

lemma receipts_record:
  assumes "foldR (push_block_receipt cp env) rs w = Inr w'" "inputs_indexed (snd w)" "checks_inputs cp env"
  shows "distinct (concat (map (input_of cp) rs))
    \<and> (\<forall>(i, e) \<in> set (concat (map (input_of cp) rs)). recorded i e (snd w') \<and> \<not> recorded i e (snd w) \<and> block_time_point env \<le> sec_to_time e)"
  using assms
proof (induction rs arbitrary: w)
  case (Cons r rs)
  from Cons.prems(1) obtain w1 where w1: "push_block_receipt cp env r w = Inr w1" "foldR (push_block_receipt cp env) rs w1 = Inr w'"
    by (auto simp: bindR_eq_Inr)
  have x: "inputs_indexed (snd w1)" using ensuresD [OF indexing.push_block_receipt_keeps w1(1)] Cons.prems(2) by simp
  note ih = Cons.IH [OF w1(2) x Cons.prems(3)] and h = push_receipt_records [OF w1(1) Cons.prems(2,3)]
  have "distinct (input_of cp r)" by (simp add: input_of_def split: sum.splits)
  moreover have "recorded i e (snd w')" if "recorded i e (snd w1)" for i e using ensuresD [OF recording.receipts_keep w1(2)] that by simp
  moreover have "recorded i e (snd w1)" if "recorded i e (snd w)" for i e
    using ensuresD [OF recording.push_block_receipt_keeps w1(1)] that by simp
  ultimately show ?case using ih h by fastforce
qed simp

text \<open>A list of blocks with the head that each is built on and its status.\<close>

type_synonym block_run = "block_header_state \<times> signed_block \<times> block_status"

definition execute_chain :: "chain_params \<Rightarrow> block_run list \<Rightarrow> chain_state \<Rightarrow> chain_state result" where
  "execute_chain cp = foldR (\<lambda>(head, b, s) st. bindR (execute_block cp head b s st) (\<lambda>(_, st). Inr st))"

text \<open>Each block was received, has a 32-bit time, and is built on the one before it.\<close>

fun successive :: "block_timestamp_type \<Rightarrow> block_run list \<Rightarrow> bool" where
  "successive t [] \<longleftrightarrow> True"
| "successive t ((head, b, s) # bs) \<longleftrightarrow> timestamp (header head) = t \<and> timestamp b \<noteq> 0 \<and> timestamp b < 2 ^ 32
     \<and> s = Complete \<and> successive (timestamp b) bs"

definition inputs_of_chain :: "chain_params \<Rightarrow> block_run list \<Rightarrow> (sha256 \<times> nat) list" where
  "inputs_of_chain cp bs = concat (map (\<lambda>(_, b, _). inputs_of_block cp b) bs)"

lemma promote_proposed_time: "ensures (\<lambda>(p', _). timestamp (header p') = timestamp (header r)) (promote_proposed cr x (r, st))"
  by (auto simp: ensures_def promote_proposed_def bindR_eq_Inr dest: set_new_producers_header split: if_splits)

lemma start_block_time:
  assumes "t \<noteq> 0"
  shows "ensures (\<lambda>(p, w). timestamp (header p) = t \<and> timestamp (header head) < t) (start_block cp head t n s st)"
  unfolding start_block_def
proof (intro ensures_bindR ensures_Let ensures_prod, goal_cases)
  case (1 q x b r st1)
  have t: "timestamp (header r) = t" "timestamp (header head) < t" using started_time [OF 1(1) _ assms, of n b r] 1(2,3) by simp_all
  show ?case
    by (intro ensures_if ensures_seq [OF promote_proposed_time] ensures_prod ensures_bindR ensures_Inr) (use t in auto)
qed

lemma block_records:
  assumes "execute_block cp head b Complete st = Inr (b', st')" "timestamp b \<noteq> 0" "inputs_indexed st" "replay_head_time cp = None"
    and "\<not> light_validation (cp_settings cp)"
  shows "timestamp (header head) < timestamp b \<and> inputs_indexed st' \<and> distinct (inputs_of_block cp b)
    \<and> (\<forall>(i, e) \<in> set (inputs_of_block cp b). recorded i e st' \<and> \<not> recorded i e st \<and> to_time_point (timestamp b) \<le> sec_to_time e)"
proof -
  from assms(1) obtain p w w' p' where x: "start_block cp head (timestamp b) (confirmed b) Complete st = Inr (p, w)"
    "foldR (push_block_receipt cp (block_env cp head p Complete False)) (transactions b) w = Inr w'"
    "finalize_block cp p w' = Inr (p', st')"
    by (auto simp: execute_block_def bes_assert_eq_Inr bindR_eq_Inr)
  let ?env = "block_env cp head p Complete False"
  have t: "timestamp (header p) = timestamp b" "timestamp (header head) < timestamp b" using ensuresD [OF start_block_time x(1)] assms(2) by simp_all
  have env: "checks_inputs cp ?env" "block_time_point ?env = to_time_point (timestamp b)"
    using assms(4,5) t(1) by (simp_all add: checks_inputs_def block_env_def light_validation_allowed_def)
  have w: "inputs_indexed (snd w)" using ensuresD [OF indexing.start_block_keeps x(1)] assms(2,3) by simp
  note r = receipts_record [OF x(2) w env(1)]
  have "recorded i e st'" if "recorded i e (snd w')" for i e using ensuresD [OF recording.finalize_block_keeps x(3)] that by simp
  moreover have "recorded i e (snd w)" if "recorded i e st" "to_time_point (timestamp b) \<le> sec_to_time e" for i e
    using ensuresD [OF recording.start_block_keeps x(1)] that assms(2) by simp
  moreover have "inputs_indexed st'" using ensuresD [OF indexing.execute_block_keeps assms(1)] assms(2,3) by simp
  ultimately show ?thesis using r t(2) env(2) unfolding inputs_of_block_def by fastforce
qed

text \<open>No transaction of a chain has expired before the first block.\<close>

lemma inputs_not_expired:
  assumes "execute_chain cp bs st = Inr st'" "successive t bs" "inputs_indexed st" "replay_head_time cp = None" "\<not> light_validation (cp_settings cp)"
    and "(i, e) \<in> set (inputs_of_chain cp bs)"
  shows "to_time_point t \<le> sec_to_time e"
  using assms
proof (induction bs arbitrary: st t)
  case (Cons x bs)
  obtain h b s where x: "x = (h, b, s)" by (cases x)
  from Cons.prems(1,2) obtain b' st1 where b: "execute_block cp h b Complete st = Inr (b', st1)" "execute_chain cp bs st1 = Inr st'"
    "timestamp b \<noteq> 0" "successive (timestamp b) bs" "timestamp (header h) = t" "timestamp b < 2 ^ 32"
    by (auto simp: execute_chain_def x bindR_eq_Inr)
  note r = block_records [OF b(1,3) Cons.prems(3-5)]
  have "to_time_point t \<le> to_time_point (timestamp b)" using r b(5,6) by (simp add: to_time_point_eq)
  moreover have "to_time_point (timestamp b) \<le> sec_to_time e"
  proof (cases "(i, e) \<in> set (inputs_of_block cp b)")
    case True
    then show ?thesis using r by fastforce
  next
    case False
    then have "(i, e) \<in> set (inputs_of_chain cp bs)" using Cons.prems(6) by (simp add: inputs_of_chain_def x)
    then show ?thesis using Cons.IH [OF b(2,4)] r Cons.prems(4,5) by simp
  qed
  ultimately show ?case by simp
qed (simp add: inputs_of_chain_def)

lemma recorded_not_again:
  assumes "execute_chain cp bs st = Inr st'" "successive t bs" "inputs_indexed st" "replay_head_time cp = None" "\<not> light_validation (cp_settings cp)"
    and "recorded i e st"
  shows "(i, e) \<notin> set (inputs_of_chain cp bs)"
  using assms
proof (induction bs arbitrary: st t)
  case (Cons x bs)
  obtain h b s where x: "x = (h, b, s)" by (cases x)
  from Cons.prems(1,2) obtain b' st1 where b: "execute_block cp h b Complete st = Inr (b', st1)" "execute_chain cp bs st1 = Inr st'"
    "timestamp b \<noteq> 0" "successive (timestamp b) bs"
    by (auto simp: execute_chain_def x bindR_eq_Inr)
  note r = block_records [OF b(1,3) Cons.prems(3-5)]
  have "(i, e) \<notin> set (inputs_of_block cp b)" using r Cons.prems(6) by fastforce
  moreover have "(i, e) \<notin> set (inputs_of_chain cp bs)"
  proof (cases "to_time_point (timestamp b) \<le> sec_to_time e")
    case True
    then have "recorded i e st1" using ensuresD [OF recording.execute_block_keeps b(1)] Cons.prems(6) b(3) by simp
    with Cons.IH [OF b(2,4)] r Cons.prems(4,5) show ?thesis by simp
  next
    case False
    show ?thesis using inputs_not_expired [OF b(2,4)] r Cons.prems(4,5) False by fastforce
  qed
  ultimately show ?case by (simp add: inputs_of_chain_def x)
qed (simp add: inputs_of_chain_def)

section \<open>Accounts and permissions stay consistent\<close>

definition permissions_ok :: "chain_state \<Rightarrow> bool" where
  "permissions_ok st \<longleftrightarrow> contract_ok (cdb st)"

lemma permissions_ok_cong:
  "permissions_ok st \<Longrightarrow> permissions (perms_of st') = permissions (perms_of st) \<Longrightarrow> accounts (cdb st') = accounts (cdb st) \<Longrightarrow> permissions_ok st'"
  unfolding permissions_ok_def by (rule contract_ok_cong)

lemma contract_step_permissions:
  assumes "contract_step env c c'" "permissions_ok (chain c)"
  shows "permissions_ok (chain c')"
proof -
  note l = contract_step_leaves [OF assms(1)]
  have "permissions_ok (chain c')"
    if "modify account_clash i (\<lambda>a. a\<lparr>privileged := p\<rparr>) (accounts (cdb (chain c))) = Inr (accounts (cdb (chain c')))" for i p
  proof -
    let ?d = "(cdb (chain c))\<lparr>accounts := accounts (cdb (chain c'))\<rparr>"
    have "contract_ok ?d"
      by (rule contract_ok_accounts [OF assms(2) [unfolded permissions_ok_def] that]) simp_all
    then show ?thesis unfolding permissions_ok_def by (rule contract_ok_cong) (use l in simp_all)
  qed
  with l show ?thesis using permissions_ok_cong [OF assms(2)] by blast
qed

text \<open>The authority of the producers is changed in its keys and accounts only.\<close>

lemma producers_permission_ok:
  assumes "update_producers_permission ps row (auth_db d) = Inr adb" "contract_ok d"
  shows "contract_ok (d\<lparr>auth_db := adb\<rparr>)"
proof (cases "adb = auth_db d")
  case False
  let ?f = "\<lambda>p. p\<lparr>perm_auth := producers_authority ps (fst (snd row)) (snd (snd row))\<rparr>"
  obtain i idx where m: "modify permission_clash i ?f (permissions (auth_db d)) = Inr idx" "adb = (auth_db d)\<lparr>permissions := idx\<rparr>"
    using assms(1) False by (auto simp: update_producers_permission_def bindR_eq_Inr Let_def split: prod.splits if_splits)
  have b: "index_base (permissions (auth_db d))" "tree_ok (perms (auth_db d))" using assms(2) by (simp_all add: contract_ok_def perms_ok_def)
  obtain p where p: "index_base idx" "perms (auth_db d) i = Some p" "map_of (indices idx) = (perms (auth_db d))(i \<mapsto> ?f p)"
    using index_base_modify [OF m(1) b(1)] by metis
  have "perms_ok adb" using p tree_ok_update [OF b(2) p(2), of "?f p"] by (simp add: perms_ok_def m(2))
  moreover have "has_owner_active (perms adb) n" if "has_owner_active (perms (auth_db d)) n" for n
    using has_owner_active_update [OF that p(2), of "?f p"] p(3) by (simp add: m(2))
  ultimately show ?thesis using assms(2) by (simp add: contract_ok_def)
qed (use assms(2) in simp)

lemma producers_authority_ok:
  assumes "update_producers_authority ps st = Inr st'" "permissions_ok st"
  shows "permissions_ok st'"
proof -
  have "contract_ok ((cdb st)\<lparr>auth_db := adb\<rparr>)" if "foldR (update_producers_permission ps) rows (perms_of st) = Inr adb" for rows adb
    by (rule foldR_invariant [OF that, where P = "\<lambda>adb. contract_ok ((cdb st)\<lparr>auth_db := adb\<rparr>)"])
      (use assms(2) producers_permission_ok [where d = "(cdb st)\<lparr>auth_db := x\<rparr>" for x] in \<open>auto simp: permissions_ok_def\<close>)
  then show ?thesis using assms(1)
    by (auto simp: update_producers_authority_def on_permissions_def on_cdb_def bindR_eq_Inr permissions_ok_def simp del: foldR.simps)
qed

lemma clear_expired_cdb: "clear_expired_input_transactions t st = Inr st' \<Longrightarrow> cdb st' = cdb st"
  by (auto simp: clear_expired_input_transactions_def bindR_eq_Inr)

lemma record_transaction_cdb: "record_transaction i e st = Inr st' \<Longrightarrow> cdb st' = cdb st"
  by (auto simp: record_transaction_def split: sum.splits)

interpretation authorized_chain: block_invariant permissions_ok "\<lambda>_. True"
proof (unfold_locales, goal_cases)
  case 1 then show ?case by (rule contract_step_permissions)
next
  case (2 env st a d)
  then show ?case using native.step_inv [OF _ _ 2(1)] by (simp add: permissions_ok_def)
next
  case (9 env n ram st d)
  then show ?case using ensuresD [OF ensures_ram 9(1)] by (simp add: permissions_ok_def)
next
  case (13 env tid x st st')
  then show ?case by (simp add: permissions_ok_def record_transaction_cdb)
qed (simp_all add: producers_authority_ok, (auto simp: permissions_ok_def enter_block_def configure_def clear_expired_cdb intro: contract_ok_cong)?)

section \<open>The notification of memory usage\<close>

text \<open>Authorities that give nothing for nothing, as \<open>validate\<close> requires of every authority.\<close>

definition demanding :: "authorization_db \<Rightarrow> bool" where
  "demanding db \<longleftrightarrow> (\<forall>p auth. db_authority db p = Inr auth \<longrightarrow>
     0 < threshold auth \<and> (\<forall>w \<in> set (auth_waits auth). 0 < wait_sec w \<and> wait_sec w < 2 ^ 32))"

lemma nothing_authorized:
  assumes "authorized chk p" "provided_permissions chk = []" "provided_keys chk = []" "provided_delay chk = 0"
    and "permission_to_authority chk = db_authority db" "demanding db"
  shows False
  using assms
proof (induction rule: authorized.induct)
  case (authorized_derived p auth Q)
  have "Q = {}" using authorized_derived.IH authorized_derived.prems by blast
  with authorized_derived have a: "0 < threshold auth" "\<forall>w \<in> set (auth_waits auth). 0 < wait_sec w \<and> wait_sec w < 2 ^ 32" "Q = {}"
    by (simp_all add: demanding_def)
  have "0 < seconds (int (wait_sec w))" if "w \<in> set (auth_waits auth)" for w
    using bspec [OF a(2) that] by (simp add: seconds_def i64_id is_i64_def)
  then have "granted chk Q f = 0" if "f \<in> set (factors auth)" for f
    using that authorized_derived.prems(1-3) a(3) by (fastforce simp: factors_def)
  then have "granted_weight chk Q auth = 0" by (simp add: granted_weight_def)
  then show False using authorized_derived(2) a(1) by simp
qed simp

section \<open>The state stays well-formed\<close>

context block_invariant
begin

lemma execute_chain_keeps:
  assumes "execute_chain cp bs st = Inr st'" "I st" "\<forall>(head, b, s) \<in> set bs. timestamp b \<noteq> 0 \<and> due (to_time_point (timestamp b))"
  shows "I st'"
proof (rule foldR_invariant [where P = I, OF assms(1) [unfolded execute_chain_def] assms(2)])
  fix x s t
  assume x: "x \<in> set bs" "I s" "(case x of (head, b, s) \<Rightarrow> \<lambda>st. bindR (execute_block cp head b s st) (\<lambda>(_, st). Inr st)) s = Inr t"
  obtain h b u b' where b: "x = (h, b, u)" "execute_block cp h b u s = Inr (b', t)" using x(3) by (cases x) (auto simp: bindR_eq_Inr)
  show "I t" using ensuresD [OF execute_block_keeps b(2)] x(1,2) assms(3) b(1) by auto
qed

end

lemma update_producers_tables: "update_producers_authority ps st = Inr st' \<Longrightarrow> table_ids st' = table_ids st \<and> key_values st' = key_values st"
  by (auto simp: update_producers_authority_def on_permissions_def on_cdb_def bindR_eq_Inr)

lemma inputs_tables:
  "clear_expired_input_transactions t st = Inr st' \<Longrightarrow> table_ids st' = table_ids st \<and> key_values st' = key_values st"
  "record_transaction i e st = Inr st' \<Longrightarrow> table_ids st' = table_ids st \<and> key_values st' = key_values st"
  by (auto simp: clear_expired_input_transactions_def record_transaction_def bindR_eq_Inr split: sum.splits)

lemma tables_indexed_cong: "tables_indexed st \<Longrightarrow> table_ids st' = table_ids st \<and> key_values st' = key_values st \<Longrightarrow> tables_indexed st'"
  by (simp add: tables_indexed_def)

interpretation tables: block_invariant tables_indexed "\<lambda>_. True"
proof (unfold_locales, goal_cases)
  case (1 env c c')
  then have "confined (receiver c) (foreign_rows (receiver c) (chain c)) c" by (simp add: confined_def)
  with contract_step_confined [OF 1(1)] show ?case by (simp add: confined_def)
qed (auto simp: enter_block_def configure_def dest: update_producers_tables inputs_tables elim: tables_indexed_cong)

definition state_ok :: "chain_state \<Rightarrow> bool" where
  "state_ok st \<longleftrightarrow> contract_ok (cdb st) \<and> index_base (input_transactions st) \<and> index_base (table_ids st) \<and> index_base (key_values st)"

lemma execute_chain_state_ok:
  assumes "execute_chain cp bs st = Inr st'" "state_ok st" "\<forall>(head, b, s) \<in> set bs. timestamp b \<noteq> 0"
  shows "state_ok st'"
  using assms indexing.execute_chain_keeps [OF assms(1)] tables.execute_chain_keeps [OF assms(1)] authorized_chain.execute_chain_keeps [OF assms(1)]
  by (simp add: state_ok_def permissions_ok_def inputs_indexed_def tables_indexed_def)

end
