(* ===== verification/SampleChain.thy ===== *)
theory SampleChain
  imports BlockInvariants
begin

text \<open>
  A small chain for examples: an account with one key, one producer, and a block with one signed transaction that is executed from its bytes to the header
      of the
  block.  The steps are evaluated one by one; conditions and the values of binds are simplified before what follows them.
\<close>

section \<open>The chain\<close>

definition sample_config :: chain_config where
  "sample_config = \<lparr>max_block_net_usage = 1048576, target_block_net_usage_pct = 1000, max_transaction_net_usage = 524288,
     base_per_transaction_net_usage = 12, net_usage_leeway = 500, context_free_discount_net_usage_num = 20, context_free_discount_net_usage_den = 100,
     max_block_cpu_usage = 200000, target_block_cpu_usage_pct = 1000, max_transaction_cpu_usage = 150000, min_transaction_cpu_usage = 100,
     max_transaction_lifetime = 3600, deferred_trx_expiration_window = 600, cfg_max_transaction_delay = 3888000,
     max_inline_action_size = 4096, max_inline_action_depth = 4, cfg_max_authority_depth = 6\<rparr>"

lemma sample_config_fields:
  "max_block_net_usage sample_config = 1048576" "target_block_net_usage_pct sample_config = 1000" "max_transaction_net_usage sample_config = 524288"
  "base_per_transaction_net_usage sample_config = 12" "net_usage_leeway sample_config = 500"
  "max_block_cpu_usage sample_config = 200000" "target_block_cpu_usage_pct sample_config = 1000" "max_transaction_cpu_usage sample_config = 150000"
  "min_transaction_cpu_usage sample_config = 100" "max_transaction_lifetime sample_config = 3600" "cfg_max_transaction_delay sample_config = 3888000"
  "max_inline_action_depth sample_config = 4" "cfg_max_authority_depth sample_config = 6"
  "context_free_discount_net_usage_num sample_config = 20" "context_free_discount_net_usage_den sample_config = 100"
  by (simp_all add: sample_config_def)

definition sample_settings :: node_settings where
  "sample_settings = \<lparr>actor_whitelist = [], actor_blacklist = [], contract_whitelist = [], contract_blacklist = [], action_blacklist = [],
     resource_greylist = [], allow_ram_billing_in_notify = False, subjective_cpu_leeway = None, light_validation = False, speculative = True\<rparr>"

definition sample_codec :: trx_env where
  "sample_codec = sum_env\<lparr>recover := (\<lambda>_ _. Inr (K1 2))\<rparr>"

definition sample_chain_params :: chain_params where
  "sample_chain_params = \<lparr>cp_crypto = time_crypto, cp_contract = sample_env, cp_trx = sample_codec, cp_settings = sample_settings,
     cp_chain_id = default_digest, cp_force_all_checks = False, cp_disable_replay_opts = False, cp_replaying = False,
     replay_head_time = None, pack_header = (\<lambda>_. []), cp_key_valid = (\<lambda>_. True), cp_instantiated = (\<lambda>_. True),
     cp_wasm = (\<lambda>_ _ _. Return), clocks = (\<lambda>_ _ _ _. 0)\<rparr>"

lemma sample_params_fields:
  "cp_crypto sample_chain_params = time_crypto" "cp_contract sample_chain_params = sample_env" "cp_trx sample_chain_params = sample_codec"
  "cp_settings sample_chain_params = sample_settings" "replay_head_time sample_chain_params = None" "clocks sample_chain_params a b c d = 0"
  "cp_force_all_checks sample_chain_params = False" "cp_disable_replay_opts sample_chain_params = False" "pack_header sample_chain_params h = []"
  "cp_chain_id sample_chain_params = default_digest"
  by (simp_all add: sample_chain_params_def)

definition sample_head :: block_header_state where
  "sample_head = bhs time_genesis"

lemma sample_head_eq: "sample_head = default_header_state\<lparr>block_id := SHA256 16777216 20 0 0, block_num := 1,
     header := default_signed_header\<lparr>timestamp := 20, action_mroot := default_digest\<rparr>,
     active_schedule := \<lparr>version = 0, producers = [\<lparr>producer_name = 1, block_signing_key = K1 7\<rparr>]\<rparr>,
     pending_schedule := \<lparr>version = 0, producers = [\<lparr>producer_name = 1, block_signing_key = K1 7\<rparr>]\<rparr>, pending_schedule_hash := default_digest\<rparr>"
  by (simp add: sample_head_def time_genesis_def genesis_block_def block_state_of_def time_crypto_def header_eval block_header.defs signed_block_header.defs num_from_time_id)

definition one_producer :: authority where
  "one_producer = producers_authority [\<lparr>producer_name = 1, block_signing_key = K1 7\<rparr>] 2 3"

definition sample_permissions :: "permission_object generic_index" where
  "sample_permissions = empty_index\<lparr>next_id := 6, indices := [(0, reserved_permission),
     (1, sample_perm 0 7 owner_name (authority_of_key (K1 1) 0)), (2, sample_perm 1 7 active_name (authority_of_key (K1 2) 0)),
     (3, sample_perm 0 producers_account_name active_name one_producer),
     (4, sample_perm 3 producers_account_name majority_producers_permission_name one_producer),
     (5, sample_perm 4 producers_account_name minority_producers_permission_name one_producer)]\<rparr>"

definition sample_chain_auth :: authorization_db where
  "sample_chain_auth = \<lparr>permissions = sample_permissions, permission_usages = empty_index\<lparr>next_id := 1, indices := [(0, \<lparr>last_used =
      0\<rparr>)]\<rparr>,
     permission_links = empty_index, generated_transactions = [], pending_block_time = to_time_point 21,
     max_transaction_delay = 3888000, max_authority_depth = 6\<rparr>"

definition sample_resources :: resource_db where
  "sample_resources = initialize_database\<lparr>limits := [(7, unlimited)], usages := [(7, no_usage)]\<rparr>"

definition sample_contracts :: contract_db where
  "sample_contracts = \<lparr>auth_db = sample_chain_auth, accounts = empty_index\<lparr>next_id := 1, indices := [(0, sample_account 7)]\<rparr>,
     account_sequences = empty_index\<lparr>next_id := 1, indices := [(0, \<lparr>seq_name = 7, recv_sequence = 0, auth_sequence = 0, code_sequence = 0,
         abi_sequence = 0\<rparr>)]\<rparr>,
     resources = sample_resources, used_authorizations = [], validate_ram_usage = []\<rparr>"

definition sample_chain_state :: chain_state where
  "sample_chain_state = \<lparr>cdb = sample_contracts,
     gpo = \<lparr>proposed_schedule_block_num = None, proposed_schedule = empty_schedule, configuration = sample_config\<rparr>,
     global_action_sequence = 0, block_summaries = (\<lambda>_. default_digest), input_transactions = empty_index, table_ids = empty_index, key_values =
         empty_index\<rparr>"

lemma sample_state_fields:
  "cdb sample_chain_state = sample_contracts" "config_of sample_chain_state = sample_config" "proposed_schedule_block_num (gpo sample_chain_state) = None"
  "block_summaries sample_chain_state n = default_digest" "input_transactions sample_chain_state = empty_index" "global_action_sequence sample_chain_state = 0"
  "auth_db sample_contracts = sample_chain_auth" "resources sample_contracts = sample_resources" "validate_ram_usage sample_contracts = []"
  "used_authorizations sample_contracts = []"
  "indices (accounts sample_contracts) = [(0, sample_account 7)]"
  "account_sequences sample_contracts = empty_index\<lparr>next_id := 1, indices := [(0, \<lparr>seq_name = 7, recv_sequence = 0, auth_sequence = 0,
      code_sequence = 0, abi_sequence = 0\<rparr>)]\<rparr>"
  "permissions sample_chain_auth = sample_permissions" "permission_links sample_chain_auth = empty_index" "generated_transactions sample_chain_auth = []"
  "permission_usages sample_chain_auth = empty_index\<lparr>next_id := 1, indices := [(0, \<lparr>last_used = 0\<rparr>)]\<rparr>"
  "max_transaction_delay sample_chain_auth = 3888000" "max_authority_depth sample_chain_auth = 6" "pending_block_time sample_chain_auth = to_time_point 21"
  by (simp_all add: sample_chain_state_def sample_contracts_def sample_chain_auth_def)

lemma entered: "enter_block 21 sample_chain_state = sample_chain_state"
  by (simp add: enter_block_def configure_def sample_chain_state_def sample_contracts_def sample_chain_auth_def sample_config_def)

definition sample_input :: signed_transaction where
  "sample_input = \<lparr>expiration = 946684820, ref_block_num = 0, ref_block_prefix = 0, max_net_usage_words = 0,
     max_cpu_usage_ms = 0, delay_sec = 0, context_free_actions = [],
     actions = [\<lparr>act_account = 7, act_name = 6, act_authorization = [Permission_Level 7 active_name], act_data = []\<rparr>],
     transaction_extensions = [], signatures = [SIG_K1 9], context_free_data = []\<rparr>"

definition sample_packed :: packed_transaction where
  "sample_packed = \<lparr>pt_signatures = [SIG_K1 9], compression = 0, packed_context_free_data = [],
     packed_trx = [148, 67, 109, 56, 0, 0, 0, 0, 0, 0, 0, 0, 0, 0, 1, 7, 0, 0, 0, 0, 0, 0, 0, 6, 0, 0, 0, 0, 0, 0, 0, 1,
       7, 0, 0, 0, 0, 0, 0, 0, 0, 0, 0, 0, 168, 237, 50, 50, 0, 0], unpacked_trx = None\<rparr>"

definition sample_metadata :: transaction_metadata where
  "sample_metadata = \<lparr>md_id = SHA256 907 0 0 0, md_trx = sample_input,
     md_packed = sample_packed\<lparr>unpacked_trx := Some (transaction.truncate sample_input)\<rparr>, md_implicit = False\<rparr>"

definition sample_receipt :: transaction_receipt where
  "sample_receipt = \<lparr>status = executed, cpu_usage_us = 100, net_usage_words = 12, receipt_trx = Inr sample_packed\<rparr>"

definition one_block :: signed_block where
  "one_block = time_block\<lparr>transactions := [sample_receipt]\<rparr>"

section \<open>Evaluation\<close>

lemmas serialization_eval = INT64_MAX_def MAX_NUM_ARRAY_ELEMENTS_def MAX_SIZE_OF_BYTE_ARRAYS_def UINT64_MAX_def block_interval_ms_def
  block_timestamp_epoch_def cache_emplace_back_def char_at_def char_to_symbol_def clashes_def default_public_key_def default_signature_def ds_read_def
  emplace_def enabled_def find_object_def fixed_net_overhead_of_packed_trx_def get_object_def get_prunable_size_def get_signature_keys_def
  get_signed_transaction_def get_transaction_def get_unprunable_size_def i64_def key_clash_def local_unpack_def map_emplace_def milliseconds_def
  modify_def of_option_def on_create_def on_modify_def pack_action_def pack_bytes_def pack_context_free_data_def pack_name_def pack_pair_def
  pack_permission_level_def pack_sha256_def pack_size_def pack_struct_def pack_transaction_def pack_uint_def pack_unsigned_int_def pack_vector_def
  packed_of_signed_def recover_cached_def recovery_cache_size_def seconds_def set_reference_block_def set_time_point_def set_transaction_def
  string_to_name_def tdiv_def to_time_point_def to_u64_def trim_cache_def trx_id_def trx_sig_digest_def u128_def u16_def u32_def u32_sub_def u64_def
  u64_sub_def u8_def unpack_action_def unpack_all_def unpack_bytes_def unpack_context_free_data_def unpack_name_def unpack_pair_def
  unpack_permission_level_def unpack_struct_def unpack_transaction_def unpack_uint_def unpack_unsigned_int_def unpack_vector_def
  verify_reference_block_def

lemmas headers_eval = calc_dpos_last_irreversible_def calcluate_max_depth_def clz_power_2_def default_digest_def default_header_state_def
  default_signed_header_def empty_incremental_merkle_def empty_schedule_def endian_reverse_u32_def generate_next_def get_scheduled_producer_def
  grow_confirm_count_def maximum_tracked_dpos_confirmations_def maybe_promote_pending_def merkle_append_def next_power_of_2_def num_from_id_def
  producer_repetitions_def set_confirmed_def

lemmas resources_eval = add_account_usage_def add_transaction_usage_def advance_def average_def bes_percent_def bill_account_def
  downgrade_cast_u64_def elastic_validate_def get_account_cpu_limit_def get_account_cpu_limit_ex_def get_account_limits_def get_account_net_limit_def
  get_account_net_limit_ex_def get_block_cpu_limit_def get_block_net_limit_def get_usage_def integer_divide_ceil_def max_raw_value_def
  max_user_use_in_window_def new_accumulator_def no_usage_def process_account_limit_updates_def process_block_usage_def rate_limiting_precision_def
  ratio_mult_def set_block_parameters_def unlimited_def update_account_usage_def update_elastic_limit_def usage_add_def used_in_window_def

lemmas permissions_eval = active_name_def all_keys_used_def canceldelay_name_def capture_and_rethrow_def check_authorization_def check_collected_def
  collect_action_def collect_auth_def db_authority_def delay_max_limit_def deleteauth_name_def effective_delay_def find_account_def find_by_def
  find_link_def find_permission_def get_account_def get_account_sequence_def get_permission_def initialize_permission_cache_def linkauth_name_def
  lookup_linked_permission_def lookup_minimum_permission_def make_auth_checker_def meta_permission_set_def newaccount_name_def owner_name_def
  permission_status_in_cache_def require_satisfies_def satisfied_def satisfied_delay_def satisfies_def sequence_clash_def setabi_name_def
  setcode_name_def special_case_def system_account_name_def unlinkauth_name_def update_permission_usage_def updateauth_name_def usage_clash_def

lemmas execution_eval = account_can_pay_def add_net_usage_def apply_code_def apply_handler_def apply_transaction_def apply_wasm_def at_clock_def
  authorize_transaction_def begin_transaction_def billed_accounts_def block_cpu_usage_average_window_ms_def block_limit_def
  block_size_average_window_ms_def block_slot_def check_net_usage_def checktime_def clear_expired_input_transactions_def configure_context_def
  count_authorization_def count_sequence_def discounted_size_def empty_block_def empty_cache_def exec_one_def expiration_after_def final_limits_def
  finalize_def first_actor_def fresh_context_def get_on_block_transaction_def get_on_upramusage_transaction_def has_apply_handler_def init_def
  init_accounts_def init_check_def init_for_implicit_trx_def init_for_input_trx_def init_limits_def initial_limits_def input_context_def
  input_net_usage_def is_fc_exception_def large_number_no_overflow_def majority_producers_permission_name_def
  max_bandwidth_billed_accounts_can_pay_def metadata_of_packed_def metadata_of_signed_def minority_producers_permission_name_def new_apply_context_def
  new_transaction_context_def next_auth_sequence_def next_global_sequence_def next_reading_def next_recv_sequence_def notify_ram_usage_def now_def
  on_cdb_def on_permissions_def on_resources_def producers_account_name_def producers_authority_def push_onblock_def record_action_def
  record_transaction_def sec_to_time_def signing_keys_def time_maximum_def touch_permission_def trace_of_def transaction_clash_def trx_exec_def
  unsigned_transaction_def update_billed_cpu_time_def update_block_limits_def update_producers_authority_def update_producers_permission_def
  validate_action_def validate_authorizer_def validate_cpu_usage_to_bill_def validate_expiration_def validate_referenced_accounts_def
  validate_tapos_def dispatch_action.simps exec_notified.simps push_transaction.simps

lemmas chain_eval = serialization_eval headers_eval resources_eval permissions_eval execution_eval

lemma bindR_weak: "m = m' \<Longrightarrow> bindR m k = bindR m' k"
  by simp

lemma foldR_weak: "xs = ys \<Longrightarrow> s = t \<Longrightarrow> foldR f xs s = foldR f ys t"
  by simp

lemma mapR_weak: "xs = ys \<Longrightarrow> mapR f xs = mapR f ys"
  by simp

lemma bes_assert_weak: "b = b' \<Longrightarrow> bes_assert b e k = bes_assert b' e k"
  by simp

lemma bes_assert_eval: "bes_assert True e k = k" "bes_assert False e k = Inl e"
  by (simp_all add: bes_assert_def)

lemmas weak_congs = bindR_weak foldR_weak mapR_weak let_weak_cong bes_assert_weak if_weak_cong

lemma push_eval: "push_transaction 2 = push_transaction (Suc (Suc 0))"
  by (simp add: numeral_2_eq_2)

lemma foldR_eval: "foldR f [] s = Inr s" "foldR f (x # xs) s = bindR (f x s) (foldR f xs)"
  by (simp_all add: foldR.simps)

definition pending_one :: block_header_state where
  "pending_one = projr (generate_next time_crypto sample_head 21)"

lemma next_one: "generate_next time_crypto sample_head 21 = Inr pending_one" "header pending_one = default_signed_header\<lparr>timestamp := 21, previous
  := SHA256 16777216 20 0 0, producer := 1\<rparr>"
   "active_schedule pending_one = \<lparr>version = 0, producers = [\<lparr>producer_name = 1, block_signing_key = K1 7\<rparr>]\<rparr>" "block_num pending_one = 2"
  by (simp_all add: pending_one_def chain_eval sample_head_eq default_header_state_def default_signed_header_def time_crypto_def null_crypto_def
      bes_assert_eval cong: weak_congs)

definition promoted_one :: block_header_state where
  "promoted_one = snd (maybe_promote_pending (set_confirmed 0 pending_one))"

lemma promoted_one_fields: "maybe_promote_pending (set_confirmed 0 pending_one) = (True, promoted_one)" "header promoted_one = (header pending_one)\<lparr>confirmed := 0\<rparr>"
  "active_schedule promoted_one = active_schedule pending_one" "producers (pending_schedule promoted_one) = []" "block_num promoted_one = 2"
  by (simp_all add: promoted_one_def chain_eval pending_one_def sample_head_eq default_header_state_def default_signed_header_def time_crypto_def
      null_crypto_def bes_assert_eval cong: weak_congs)

definition onblock_env :: vm_env where
  "onblock_env = block_env sample_chain_params sample_head promoted_one Complete True"

definition input_env :: vm_env where
  "input_env = block_env sample_chain_params sample_head promoted_one Complete False"

lemma env_fields: "contract onblock_env = sample_env" "trx_codec onblock_env = sample_codec" "settings onblock_env = sample_settings" "chain_id onblock_env
  = default_digest" "skip_auth_check onblock_env = False"
  "skip_trx_checks onblock_env = False" "head_id onblock_env = SHA256 16777216 20 0 0" "block_time onblock_env = 21"
  "contract input_env = sample_env" "trx_codec input_env = sample_codec" "settings input_env = sample_settings" "chain_id input_env = default_digest"
      "skip_auth_check input_env = False"
  "skip_trx_checks input_env = False" "head_id input_env = SHA256 16777216 20 0 0" "block_time input_env = 21"
  by (simp_all add: onblock_env_def input_env_def block_env_def sample_params_fields promoted_one_fields next_one sample_head_eq sample_env_def default_signed_header_def
      light_validation_allowed_def sample_settings_def)

lemmas sample_eval = varint_bytes.simps Let_def push_eval foldR_eval chain_eval reserved_permission_def sample_perm_def authority_of_key_def
  transaction.defs le_bytes_numeral name_values bes_assert_eval
  next_one env_fields sample_state_fields sample_params_fields sample_config_fields empty_index_def sample_resources_def default_config_def
      initialize_database_def sample_codec_def sample_settings_def sample_env_def sum_env_def sample_id_def

lemma onblock_fails: "push_onblock sample_chain_params onblock_env sample_head (empty_block, sample_chain_state) = Inr (empty_block, sample_chain_state)"
  by (simp add: sample_eval cong: weak_congs)

lemma producers_unchanged: "update_producers_authority [\<lparr>producer_name = 1, block_signing_key = K1 7\<rparr>] sample_chain_state = Inr
  sample_chain_state"
  by (simp add: sample_permissions_def one_producer_def sample_eval cong: weak_congs)

lemma nothing_expired: "clear_expired_input_transactions (to_time_point 21) sample_chain_state = Inr sample_chain_state"
  by (simp add: sample_eval cong: weak_congs)

definition new_context :: transaction_context where
  "new_context = \<lparr>tc_trx = sample_input, tc_id = SHA256 907 0 0 0, tc_start = 0, tc_published = 0,
    executed_actions = [], bill_to_accounts = [], tc_delay = 0,
    is_input = False, apply_context_free = True,
    can_subjectively_fail = True, deadline = 9223372036854775807,
    leeway = 3000, billed_cpu_time_us = 100,
    explicit_billed_cpu_time = True, is_initialized = False, net_limit = 0,
    net_limit_due_to_block = True, net_limit_due_to_greylist = False,
    eager_net_limit = 0, trx_net_usage = 0,
    cpu_limit_due_to_greylist = False, initial_objective_duration_limit = 0,
    objective_duration_limit = 0, tc_deadline = 9223372036854775807,
    deadline_exception_code = block_cpu_usage_exceeded,
    billing_timer_exception_code = block_cpu_usage_exceeded,
    pseudo_start = 0, billed_time = 0, billing_timer_duration_limit = 0,
    readings = 1\<rparr>"

definition begun_context :: transaction_context where
  "begun_context = new_context\<lparr>tc_published := to_time_point 21, bill_to_accounts := [7], is_input := True, is_initialized := True,
    net_limit := 524288, net_limit_due_to_block := False, eager_net_limit := 524288, trx_net_usage := 92,
    initial_objective_duration_limit := 150000, objective_duration_limit := 150000, 
    deadline_exception_code := deadline_exception, billing_timer_exception_code := tx_cpu_usage_exceeded,
    billing_timer_duration_limit := 150000, readings := 2\<rparr>"

definition sample_usage :: "nat \<Rightarrow> nat \<Rightarrow> nat \<Rightarrow> nat \<Rightarrow> resource_usage_object" where
  "sample_usage nx n cx c = \<lparr>net_usage = \<lparr>last_ordinal = 21, value_ex = nx, consumed = n\<rparr>, cpu_usage = \<lparr>last_ordinal = 21,
      value_ex = cx, consumed = c\<rparr>, ram_usage = 0\<rparr>"

definition begun_state :: chain_state where
  "begun_state = sample_chain_state\<lparr>cdb := sample_contracts\<lparr>resources := sample_resources\<lparr>usages := [(7, sample_usage 0 0 0
      0)]\<rparr>\<rparr>,
   input_transactions := empty_index\<lparr>next_id := 1, indices := [(0, \<lparr>to_expiration = 946684820, to_trx_id = SHA256 907 0 0
       0\<rparr>)]\<rparr>\<rparr>"

definition run_context :: transaction_context where
  "run_context = begun_context\<lparr>executed_actions := [\<lparr>ar_receiver = 7, act_digest = SHA256 526 0 0 0,
          ar_global_sequence = 1, ar_recv_sequence = 1,
          ar_auth_sequence = [(7, 1)], ar_code_sequence = 0,
          ar_abi_sequence = 0\<rparr>]\<rparr>"

definition run_state :: chain_state where
  "run_state = begun_state\<lparr>cdb := (cdb begun_state)\<lparr>account_sequences := empty_index\<lparr>next_id := 1, indices := [(0, \<lparr>seq_name =
      7, recv_sequence = 1, auth_sequence = 1, code_sequence = 0, abi_sequence = 0\<rparr>)]\<rparr>\<rparr>,
    global_action_sequence := 1\<rparr>"

definition final_context :: transaction_context where
  "final_context = run_context\<lparr>trx_net_usage := 96, readings := 3\<rparr>"

definition final_state :: chain_state where
  "final_state = run_state\<lparr>cdb := (cdb run_state)\<lparr>resources := sample_resources\<lparr>usages := [(7, sample_usage 556 96 579 100)],
       rl_state := (rl_state sample_resources)\<lparr>pending_net_usage := 96, pending_cpu_usage := 100\<rparr>\<rparr>,
     auth_db := sample_chain_auth\<lparr>permission_usages := empty_index\<lparr>next_id := 1, indices := [(0, \<lparr>last_used = to_time_point
         21\<rparr>)]\<rparr>\<rparr>\<rparr>\<rparr>"

lemma sample_account_fields: "acct_name (sample_account n) = n" "acct_code (sample_account n) = []" "privileged (sample_account n) = False"
  by (simp_all add: sample_account_def)

lemma sample_packs: "packed_of_signed sample_codec sample_input 0 = Inr sample_packed"
  by (simp add: sample_packed_def sample_input_def sample_eval cong: weak_congs)

lemma sample_unpacks: "metadata_of_packed sample_codec sample_packed = Inr sample_metadata"
  by (simp add: sample_packed_def sample_metadata_def sample_input_def sample_eval cong: weak_congs)

abbreviation clocked_env :: vm_env where
  "clocked_env \<equiv> input_env\<lparr>clock := (\<lambda>_ _. 0)\<rparr>"

lemma sample_context: "input_context clocked_env sample_metadata time_maximum 100 True = Inr new_context"
  by (simp add: new_context_def sample_input_def sample_metadata_def sample_eval cong: weak_congs)

lemma sample_fresh: "fresh_context sample_chain_state = sample_chain_state"
  by (simp add: fresh_context_def sample_chain_state_def sample_contracts_def)

definition marked_context :: transaction_context where
  "marked_context = new_context\<lparr>tc_published := to_time_point 21, is_input := True\<rparr>"

definition limited_context :: transaction_context where
  "limited_context = marked_context\<lparr>net_limit := 524288, net_limit_due_to_block := False, tc_deadline := 150000,
    initial_objective_duration_limit := 150000, objective_duration_limit := 150000, billing_timer_exception_code := tx_cpu_usage_exceeded\<rparr>"

lemma sample_limits: "initial_limits sample_chain_state marked_context = limited_context"
  by (simp add: limited_context_def marked_context_def new_context_def sample_input_def sample_eval cong: weak_congs)

definition used_resources :: resource_db where
  "used_resources = sample_resources\<lparr>usages := [(7, sample_usage 0 0 0 0)]\<rparr>"

lemma sample_usage_updated: "update_account_usage [7] 21 sample_resources = Inr used_resources"
  by (simp add: used_resources_def sample_usage_def sample_eval cong: weak_congs)

lemma sample_can_pay: "max_bandwidth_billed_accounts_can_pay clocked_env False [7] (begun_state\<lparr>input_transactions := empty_index\<rparr>) = Inr
  (4611686018427387903, 4611686018427387903, False, False)"
  by (simp add: begun_state_def used_resources_def sample_usage_def sample_eval cong: weak_congs)

definition paid_context :: transaction_context where
  "paid_context = (init_accounts limited_context)\<lparr>eager_net_limit := 524288\<rparr>"

lemma paid_eq: "(init_accounts limited_context)\<lparr>net_limit_due_to_greylist := net_limit_due_to_greylist (init_accounts limited_context) \<or> False,
                    cpu_limit_due_to_greylist := cpu_limit_due_to_greylist (init_accounts limited_context) \<or> False,
                    eager_net_limit := net_limit (init_accounts limited_context)\<rparr> = paid_context" by (simp add: paid_context_def limited_context_def
                        marked_context_def new_context_def init_accounts_def)

lemma paid_fields: "eager_net_limit paid_context = 524288" "leeway paid_context = 3000" "tc_deadline paid_context = 150000" "tc_start paid_context = 0"
  "explicit_billed_cpu_time paid_context = True" "deadline paid_context = 9223372036854775807"
  by (simp_all add: paid_context_def limited_context_def marked_context_def new_context_def init_accounts_def)

lemma paid_limited: "limit_by_accounts sample_chain_state (4611686018427387903, 4611686018427387903, False, False) (init_accounts limited_context) =
  paid_context\<lparr>billing_timer_duration_limit := 150000, tc_deadline := 9223372036854775807, deadline_exception_code := deadline_exception,
  eager_net_limit := 524288\<rparr>"
  unfolding limit_by_accounts_def split_conv paid_eq
  by (simp add: paid_fields to_u64_def i64_def sample_state_fields sample_config_fields)

lemma sample_billed: "bill_to_accounts (init_accounts limited_context) = [7]"
  by (simp add: init_accounts_def billed_accounts_def limited_context_def marked_context_def new_context_def sample_input_def)

lemma sample_limited: "limit_by_accounts sample_chain_state (4611686018427387903, 4611686018427387903, False, False) (init_accounts limited_context) =
  begun_context\<lparr>trx_net_usage := 0, is_initialized := False, readings := 1\<rparr>"
  unfolding paid_limited by (simp add: begun_context_def paid_context_def limited_context_def marked_context_def new_context_def init_accounts_def
      sample_billed billed_accounts_def sample_input_def)

lemma sample_net_added: "add_net_usage clocked_env 92 (begun_context\<lparr>trx_net_usage := 0, is_initialized := False, readings := 1\<rparr>) = Inr
  (begun_context\<lparr>is_initialized := False, readings := 1\<rparr>)"
  by (simp add: begun_context_def marked_context_def new_context_def sample_input_def sample_eval cong: weak_congs)

lemma sample_in_time: "checktime clocked_env (begun_context\<lparr>is_initialized := False, readings := 1\<rparr>) = Inr
  (begun_context\<lparr>is_initialized := False\<rparr>)"
  by (simp add: begun_context_def marked_context_def new_context_def sample_input_def sample_eval cong: weak_congs)

lemma sample_not_expired: "validate_expiration clocked_env sample_input sample_chain_state = Inr ()" 
  by (simp add: sample_input_def sample_eval cong: weak_congs)

lemma sample_tapos: "validate_tapos sample_input sample_chain_state = Inr ()"
  by (simp add: sample_input_def sample_eval cong: weak_congs)

lemma sample_accounts:  "validate_referenced_accounts sample_input sample_chain_state = Inr ()" 
  by (simp add: sample_input_def sample_permissions_def sample_eval sample_account_fields cong: weak_congs)

lemma sample_net: "input_net_usage sample_config sample_input 66 67 = 92"
  by (simp add: sample_input_def sample_eval cong: weak_congs)

lemma sample_unprunable: "get_unprunable_size (md_packed sample_metadata) = Inr 66"
  by (simp add: sample_metadata_def sample_packed_def get_unprunable_size_def fixed_net_overhead_of_packed_trx_def u64_def u32_def bes_assert_def)

lemma sample_prunable: "get_prunable_size (md_packed sample_metadata) = Inr 67"
  by (simp add: sample_metadata_def sample_packed_def get_prunable_size_def u64_def u32_def bes_assert_def pack_vector_def pack_unsigned_int_def
      varint_bytes.simps pack_size_def pack_pair_def MAX_NUM_ARRAY_ELEMENTS_def)

lemma sample_init: "init clocked_env 92 (sample_chain_state, marked_context) = Inr (begun_state\<lparr>input_transactions := empty_index\<rparr>,
  begun_context)"
proof -
  have "init_check clocked_env sample_chain_state marked_context = Inr ()" unfolding init_check_def sample_limits by (simp add: marked_context_def
      new_context_def limited_context_def sample_eval cong: weak_congs)
  moreover have t: "begun_context\<lparr>is_initialized := True\<rparr> = begun_context" by (simp add: begun_context_def)
  moreover have "block_slot clocked_env = 21" using set_time_point_slot [of 21 0] by (simp add: block_slot_def env_fields)
  moreover have "on_resources (update_account_usage [7] 21) sample_chain_state = Inr (begun_state\<lparr>input_transactions := empty_index\<rparr>)"
    by (simp add: on_resources_def on_cdb_def sample_usage_updated sample_state_fields begun_state_def used_resources_def sample_chain_state_def)
  moreover have "limit_by_accounts (begun_state\<lparr>input_transactions := empty_index\<rparr>) p t = limit_by_accounts sample_chain_state p t" for p t
    by (simp add: limit_by_accounts_def begun_state_def)
  ultimately show ?thesis unfolding init_def split_conv init_limits_def sample_limits by (simp add: sample_can_pay sample_limited sample_net_added
      sample_in_time sample_billed t del: One_nat_def)
qed

lemma sample_recorded: "record_transaction (SHA256 907 0 0 0) 946684820 (begun_state\<lparr>input_transactions := empty_index\<rparr>) = Inr begun_state"
  by (simp add: begun_state_def sample_eval cong: weak_congs)

lemma sample_authorized: "authorize_transaction clocked_env sample_input (begun_state, begun_context) = Inr ()"
  by (simp add: begun_state_def begun_context_def new_context_def sample_input_def sample_permissions_def satisfied_at.simps sample_eval
      sample_account_fields cong: weak_congs)

lemma sample_runs: "trx_exec clocked_env (begun_state, begun_context) = Inr (run_state, run_context)"
  by (simp add: run_state_def run_context_def begun_state_def begun_context_def new_context_def sample_input_def  sample_eval sample_account_fields cong:
      weak_congs)

lemma sample_finalized: "finalize clocked_env (run_state, run_context) = Inr (final_state, final_context)"
  by (simp add: final_state_def final_context_def run_state_def run_context_def begun_state_def begun_context_def new_context_def sample_permissions_def
      sample_usage_def sample_input_def  sample_eval sample_account_fields cong: weak_congs)

lemma sample_begins: "begin_transaction sample_chain_params clocked_env sample_metadata (sample_chain_state, new_context) = Inr (begun_state, begun_context)"
proof -
  have i: "tc_trx new_context = sample_input" "new_context\<lparr>tc_published := to_time_point 21, is_input := True\<rparr> = marked_context" "tc_id
      begun_context = SHA256 907 0 0 0" "md_trx sample_metadata = sample_input"
    "\<not> md_implicit sample_metadata" "expiration sample_input = 946684820" "delay_sec sample_input = 0" "tc_delay begun_context = 0" "\<not>
        is_producing_block sample_env"
    by (simp_all add: new_context_def marked_context_def begun_context_def sample_metadata_def sample_input_def sample_env_def)
  have "begun_context\<lparr>tc_delay := 0\<rparr> = begun_context" using i(8) by simp
  with i show ?thesis unfolding begin_transaction_def
    by (simp add: init_for_input_trx_def env_fields sample_params_fields sample_state_fields sample_init sample_not_expired sample_tapos sample_accounts
        sample_net sample_unprunable sample_prunable sample_recorded sec_to_time_def seconds_def i64_def)
qed

lemma notification_fails: "notify_ram_usage clocked_env (push_transaction (Suc 0) sample_chain_params clocked_env time_maximum 1 True) sample_input
  (empty_block, begun_state) = Inr (empty_block\<lparr>attempts := 1\<rparr>, begun_state)"
  by (simp add: begun_state_def sample_input_def sample_eval cong: weak_congs)

definition one_receipt :: pending_block where
  "one_receipt = \<lparr>pb_transactions = [sample_receipt\<lparr>receipt_trx := Inr (md_packed sample_metadata)\<rparr>], pb_actions = executed_actions
      final_context, attempts = 1\<rparr>"

lemma sample_completed: "complete_transaction clocked_env sample_metadata final_context (empty_block\<lparr>attempts := 1\<rparr>) = Inr one_receipt"
  by (simp add: one_receipt_def final_context_def run_context_def begun_context_def new_context_def sample_receipt_def sample_metadata_def empty_block_def
      complete_transaction_def append_actions_def push_receipt_def u32_def to_u64_def bes_assert_def)

lemma final_fresh: "fresh_context final_state = final_state"
  by (simp add: fresh_context_def final_state_def run_state_def begun_state_def sample_contracts_def sample_chain_state_def)

lemma sample_pushed: "push_transaction 2 sample_chain_params input_env time_maximum 100 True sample_metadata (empty_block, sample_chain_state) = Inr (None,
  one_receipt, final_state)"
proof -
  have e: "at_clock sample_chain_params 0 l input_env = clocked_env" "at_clock sample_chain_params 0 l clocked_env = clocked_env" for l by (simp_all add:
      at_clock_def sample_params_fields fun_eq_iff)
  have f: "\<not> producing clocked_env" "\<not> skip_auth_check clocked_env" "\<not> md_implicit sample_metadata" "md_trx sample_metadata = sample_input"
      "attempts empty_block = 0" "time_maximum \<noteq> 0"
    by (simp_all add: env_fields sample_env_def sample_metadata_def empty_block_def time_maximum_def INT64_MAX_def)
  have "apply_transaction sample_chain_params clocked_env (push_transaction (Suc 0) sample_chain_params clocked_env time_maximum 1 True) sample_metadata
      new_context (empty_block, sample_chain_state) = Inr (one_receipt, final_state)"
    unfolding apply_transaction_def split_conv sample_fresh by (simp add: sample_begins f sample_authorized notification_fails sample_runs sample_finalized
        sample_completed final_fresh env_fields sample_env_def del: One_nat_def)
  then show ?thesis
    unfolding push_eval push_transaction.simps(2) [of "Suc 0"] by (simp add: e f sample_context trace_of_def bes_assert_def capture_and_rethrow_def
        one_receipt_def)
qed

lemma sample_receipt_fields: "receipt_trx sample_receipt = Inr sample_packed" "cpu_usage_us sample_receipt = 100"
  by (simp_all add: sample_receipt_def)

lemma sample_receipt_pushed: "push_block_receipt sample_chain_params input_env sample_receipt (empty_block, sample_chain_state) = Inr (one_receipt,
  final_state)"
  unfolding push_block_receipt_def
  by (simp add: sample_receipt_fields sample_params_fields sample_unpacks sample_pushed)
    (simp add: sample_receipt_def empty_block_def one_receipt_def bes_assert_def transaction_receipt_header.defs)

definition limits_state :: chain_state where
  "limits_state = projr (on_resources (update_block_limits (config_of final_state) 2) final_state)"

lemma limits_updated: "on_resources (update_block_limits sample_config 2) final_state = Inr limits_state" "config_of final_state = sample_config"
  by (simp_all add: limits_state_def final_state_def run_state_def begun_state_def sample_eval cong: weak_congs)

lemma one_digests: "\<exists>ds. mapR (action_receipt_digest sample_codec) (pb_actions one_receipt) = Inr ds" "\<exists>ds. mapR (receipt_digest
  sample_codec) (pb_transactions one_receipt) = Inr ds"
  by (simp_all add: final_context_def run_context_def one_receipt_def sample_receipt_def sample_metadata_def sample_packed_def action_receipt_digest_def
      receipt_digest_def packed_digest_def
     pack_vector_def pack_pair_def pack_unsigned_int_def pack_bytes_def pack_uint_def pack_sha256_def pack_struct_def pack_name_def
         MAX_NUM_ARRAY_ELEMENTS_def MAX_SIZE_OF_BYTE_ARRAYS_def)

lemma one_started: "start_block sample_chain_params sample_head 21 0 Complete sample_chain_state = Inr (promoted_one, empty_block, sample_chain_state)"
proof -
  have t: "timestamp (header pending_one) = 21" by (simp add: next_one default_signed_header_def)
  show ?thesis unfolding start_block_def
    by (simp add: sample_params_fields next_one(1) promoted_one_fields t entered onblock_env_def [symmetric] onblock_fails producers_unchanged
        nothing_expired next_one(3) promote_proposed_def sample_state_fields sample_settings_def del: One_nat_def)
qed

lemma one_finalized: "\<exists>p st. finalize_block sample_chain_params promoted_one (one_receipt, final_state) = Inr (p, st) \<and> timestamp (header p) =
  21 \<and> previous (header p) = SHA256 16777216 20 0 0"
  unfolding finalize_block_def using one_digests by (auto simp: limits_updated promoted_one_fields sample_params_fields capture_and_rethrow_def Let_def
      next_one default_signed_header_def)

lemma one_block_fields: "block_extensions one_block = []" "timestamp one_block = 21" "confirmed one_block = 0" "transactions one_block = [sample_receipt]"
  by (simp_all add: one_block_def time_block_def block_of_header_def block_at_def default_signed_header_def signed_block_header.defs)

lemma one_executed: "\<exists>b st. execute_block sample_chain_params sample_head one_block Complete sample_chain_state = Inr (b, st)"
proof -
  obtain p st where f: "finalize_block sample_chain_params promoted_one (one_receipt, final_state) = Inr (p, st)" "timestamp (header p) = 21" "previous
      (header p) = SHA256 16777216 20 0 0" using one_finalized by blast
  have "header_id time_crypto one_block = header_id time_crypto (header p)"
    by (simp add: header_id_def header_digest_def header_block_num_def time_crypto_def null_crypto_def one_block_def f time_ids(3) block_header.defs
        one_block_fields [unfolded one_block_def])
  then show ?thesis unfolding execute_block_def
    by (simp add: one_block_fields one_started input_env_def [symmetric] sample_receipt_pushed f sample_params_fields bes_assert_def del: One_nat_def)
qed

section \<open>A node\<close>

lemma one_header: "signed_block_header.truncate one_block = signed_block_header.truncate time_block"
  by (simp add: one_block_def signed_block_header.defs)

lemma one_id: "header_id time_crypto one_block = time_id" "previous one_block = SHA256 16777216 20 0 0"
proof -
  have "header_block_num one_block = header_block_num time_block" "header_digest time_crypto one_block = header_digest time_crypto time_block"
    by (simp_all add: one_block_def header_block_num_def header_digest_def block_header.defs)
  then show "header_id time_crypto one_block = time_id" by (simp only: header_id_def)
  show "previous one_block = SHA256 16777216 20 0 0" using time_ids(3) by (simp add: one_block_def)
qed

lemma one_next: "\<exists>r. next_state time_crypto sample_head (signed_block_header.truncate one_block) False = Inr r
   \<and> block_num r = 2 \<and> dpos_irreversible_blocknum r = 0 \<and> bft_irreversible_blocknum r = 0"
  unfolding one_header sample_head_def
  by (simp add: time_genesis_def genesis_block_def block_state_of_def time_block_def block_of_header_def time_crypto_def header_eval
      block_header.defs signed_block_header.defs)

lemma one_admissible: "header_admissible (Next (signed_block_header.truncate one_block) t)"
  using time_block_admissible by (simp add: one_header)

definition one_forks :: fork_database where
  "one_forks = (case fork_add time_crypto one_block False time_db of Inl _ \<Rightarrow> time_db | Inr (n, db) \<Rightarrow> db)"

lemma one_forks:
  "\<exists>n. fork_add time_crypto one_block False time_db = Inr (n, one_forks)" "fork_head one_forks = Some time_id"
  "bs_prev (objects one_forks time_id) = bs_id time_genesis" "bs_id time_genesis \<in> set (by_block_id one_forks)" "signalled one_forks = []"
  "time_id \<in> set (by_block_id one_forks)" "objects one_forks (bs_id time_genesis) = time_genesis"
  "bs_block (objects one_forks time_id) = Some one_block" "bs_id (objects one_forks time_id) = time_id"
proof -
  obtain r where r: "next_state time_crypto (bhs time_genesis) (signed_block_header.truncate one_block) False = Inr r"
    "block_num r = 2" "dpos_irreversible_blocknum r = 0" "bft_irreversible_blocknum r = 0" using one_next by (auto simp: sample_head_def)
  note h = next_state_header [OF time_genesis_ok(1) r(1) one_admissible]
  have "previous (signed_block_header.truncate one_block) = previous one_block" by (cases one_block) (simp add: signed_block_header.defs)
  then have p: "previous (header r) = SHA256 16777216 20 0 0" using h(1) one_id(2) by simp
  have "block_id r = SHA256 33554432 21 0 0" using h(2) one_header time_ids(2) by simp
  moreover have "signalled time_db = []" by (simp add: time_db_def fork_set_def index_insert_def empty_fork_database_def Let_def)
  ultimately have "\<exists>n db. fork_add time_crypto one_block False time_db = Inr (n, db) \<and> fork_head db = Some time_id
     \<and> bs_prev (objects db time_id) = bs_id time_genesis \<and> bs_id time_genesis \<in> set (by_block_id db) \<and> signalled db = []
     \<and> time_id \<in> set (by_block_id db) \<and> objects db (bs_id time_genesis) = time_genesis
     \<and> bs_block (objects db time_id) = Some one_block \<and> bs_id (objects db time_id) = time_id"
    using r p by (simp add: fork_add_def time_db_fields time_ids one_id get_block_def next_block_state_def fork_add_state_def index_insert_def
        first_of_def Let_def on_objects_def lib_less_def num_less_def time_genesis_fields)
  then show "\<exists>n. fork_add time_crypto one_block False time_db = Inr (n, one_forks)" "fork_head one_forks = Some time_id"
    "bs_prev (objects one_forks time_id) = bs_id time_genesis" "bs_id time_genesis \<in> set (by_block_id one_forks)" "signalled one_forks = []"
    "time_id \<in> set (by_block_id one_forks)" "objects one_forks (bs_id time_genesis) = time_genesis"
    "bs_block (objects one_forks time_id) = Some one_block" "bs_id (objects one_forks time_id) = time_id" by (auto simp: one_forks_def)
qed

definition sample_node :: "chain_state node" where
  "sample_node = chain_node sample_chain_params"

definition sample_genesis :: "chain_state controller" where
  "sample_genesis = initialize_fork_db sample_node sample_head sample_chain_state"

lemma sample_node_fields: "crypto sample_node = time_crypto" "\<not> force_all_checks sample_node" "\<not> replaying sample_node"
  "run_block sample_node = execute_block sample_chain_params"
  by (simp_all add: sample_node_def chain_node_def sample_chain_params_def)

lemma sample_runner: "block_runner sample_node"
  unfolding sample_node_def by (rule chain_node_runner) (simp_all add: sample_chain_params_def sample_settings_def)

lemma sample_genesis_fields: "fork_db sample_genesis = time_db" "chain_head sample_genesis = bs_id time_genesis"
  "chain_db sample_genesis = \<lparr>contents = sample_chain_state, versions = [], version_num = 1\<rparr>" "pending sample_genesis = None"
proof -
  have "genesis_block (bhs time_genesis) = time_genesis" by (simp add: time_genesis_def genesis_block_def block_state_of_def)
  then show "fork_db sample_genesis = time_db" "chain_head sample_genesis = bs_id time_genesis"
    "chain_db sample_genesis = \<lparr>contents = sample_chain_state, versions = [], version_num = 1\<rparr>" "pending sample_genesis = None"
    by (simp_all add: sample_genesis_def initialize_fork_db_def sample_node_fields sample_head_def time_db_def time_genesis_fields)
qed

lemma sample_received_sync: "\<exists>S R r ids. sync sample_node S R r ids (sample_genesis\<lparr>fork_db := one_forks\<rparr>)"
proof -
  have s: "sync sample_node (\<lambda>_. sample_chain_state) (\<lambda>_. one_block) (bs_id time_genesis) [] sample_genesis"
    unfolding sample_genesis_def sample_head_def by (rule genesis_sync) (use time_genesis_ok in \<open>simp_all add: sample_node_fields\<close>)
  obtain n where a: "fork_add (crypto sample_node) one_block False (fork_db sample_genesis) = Inr (n, one_forks)"
    using one_forks(1) by (auto simp: sample_node_fields sample_genesis_fields)
  have "chain_head sample_genesis \<in> set (by_block_id one_forks)" using one_forks(4) by (simp add: sample_genesis_fields)
  from add_sync [OF s a one_admissible this] obtain r' ids' c' where
    c': "deliver_irreversible sample_node (length (signalled (fork_db sample_genesis))) (sample_genesis\<lparr>fork_db := one_forks\<rparr>) = (Inr (), c')"
    "sync sample_node (\<lambda>_. sample_chain_state) (\<lambda>_. one_block) r' ids' c'" by blast
  have "c' = sample_genesis\<lparr>fork_db := one_forks\<rparr>" using c'(1) one_forks(5) by (simp add: deliver_irreversible_def)
  then show ?thesis using c'(2) by blast
qed

lemma sample_reaches: "\<exists>c. node_reaches sample_node sample_genesis c \<and> chain_head c = time_id"
proof -
  let ?c = "sample_genesis\<lparr>fork_db := one_forks\<rparr>"
  obtain S R r ids where s: "sync sample_node S R r ids ?c" using sample_received_sync by blast
  have i: "time_id \<in> set (by_block_id (fork_db ?c))" "bs_prev (objects (fork_db ?c) time_id) = chain_head ?c"
    by (simp_all add: one_forks sample_genesis_fields)
  have "objects (fork_db ?c) (chain_head ?c) = time_genesis" by (simp add: one_forks sample_genesis_fields)
  then have "apply_known sample_node time_id Complete ?c \<noteq> (Inl e, ?c)" for e
    using block_runner.apply_known_sync [OF sample_runner s i, of Complete] one_executed one_forks(8)
    by (auto simp: skip_db_sessions_def sample_node_fields sample_genesis_fields sample_head_def)
  then obtain c where x: "extend_chain sample_node Complete time_id ?c = (Inr (), c)" "chain_head c = time_id"
    using block_runner.extend_chain_sync [OF sample_runner s i, of Complete] by (auto simp: skip_db_sessions_def)
  obtain n where a: "fork_add time_crypto one_block False time_db = Inr (n, one_forks)" using one_forks(1) by blast
  moreover have "signalled time_db = []" by (simp add: time_db_def fork_set_def index_insert_def empty_fork_database_def Let_def)
  ultimately have "push_block sample_node one_block Complete sample_genesis = (Inr (), c)"
    using x(1) i(2) by (simp add: push_block_def maybe_switch_forks_def sample_genesis_fields sample_node_fields one_forks deliver_irreversible_def and_then_def)
  moreover have "switchable ?c" by (simp add: switchable_def sample_genesis_fields one_forks)
  then have "can_follow sample_node one_block Complete sample_genesis" using a by (simp add: can_follow_def sample_node_fields sample_genesis_fields)
  ultimately have "node_reaches sample_node sample_genesis c"
    using reach_block [OF reach_start, of sample_node one_block Complete sample_genesis "Inr ()" c] one_admissible by simp
  then show ?thesis using x(2) by blast
qed

section \<open>A contract\<close>

text \<open>A contract that finds a row of another contract and stores a row of its own.\<close>

definition foreign_state :: chain_state where
  "foreign_state = sample_chain_state\<lparr>table_ids := empty_index\<lparr>next_id := 1, indices := [(0, \<lparr>tab_code = 8, tab_scope = 8, tab_table = 5, tab_payer = 8, tab_count = 1\<rparr>)]\<rparr>,
     key_values := empty_index\<lparr>next_id := 1, indices := [(0, \<lparr>kv_t_id = 0, primary_key = 1, kv_payer = 8, kv_value = [9]\<rparr>)]\<rparr>\<rparr>"

definition sample_call :: apply_context where
  "sample_call = \<lparr>chain = foreign_state, trx_context = new_context,
     act = \<lparr>act_account = 7, act_name = 1, act_authorization = [Permission_Level 7 active_name], act_data = []\<rparr>, receiver = 7,
     ctx_privileged = False, context_free = False, recurse_depth = 0, notified = [7], inline_actions = [], cfa_inline_actions = [], keyval_cache = empty_cache\<rparr>"

lemma foreign_state_fields:
  "cdb foreign_state = sample_contracts"
  "table_ids foreign_state = empty_index\<lparr>next_id := 1, indices := [(0, \<lparr>tab_code = 8, tab_scope = 8, tab_table = 5, tab_payer = 8, tab_count = 1\<rparr>)]\<rparr>"
  "key_values foreign_state = empty_index\<lparr>next_id := 1, indices := [(0, \<lparr>kv_t_id = 0, primary_key = 1, kv_payer = 8, kv_value = [9]\<rparr>)]\<rparr>"
  by (simp_all add: foreign_state_def sample_state_fields)

lemma foreign_indexed: "index_base (table_ids (chain sample_call))" "index_base (key_values (chain sample_call))"
  by (simp_all add: sample_call_def foreign_state_fields index_base_def sorted_keys_def empty_index_def)

lemmas table_eval = sample_call_def foreign_state_fields sample_state_fields db_store_i64_def find_or_create_table_def find_table_def find_by_def empty_index_def
  update_db_usage_def on_chain_def on_cdb_def add_ram_usage_def add_pending_ram_usage_def get_usage_def sample_resources_def initialize_database_def no_usage_def
  emplace_def clashes_def key_clash_def table_clash_def key_value_clash_def count_rows_def modify_def cache_table_def cache_add_def empty_cache_def map_emplace_def
  table_id_object_size_def key_value_object_size_def billable_size_v_def overhead_per_row_per_index_ram_bytes_def billable_alignment_def on_create_def to_u64_def u64_def u64_sub_def i64_def u32_def

lemma sample_store: "\<exists>c'. db_store_i64 input_env 7 5 7 1 [1, 2] sample_call = Inr (0, c')"
  by (simp add: sample_eval table_eval cong: weak_congs)

definition sample_run :: contract_run where
  "sample_run = Db_Find 8 8 5 1 (\<lambda>_. Db_Store 7 5 7 1 [1, 2] (\<lambda>_. Return))"

lemma sample_run_returns: "\<exists>c'. run_contract input_env sample_run sample_call = Inr c'"
  by (simp add: sample_run_def context_aware_def db_find_i64_def in_table_def iterator_of_def sample_eval table_eval cong: weak_congs)

end
