(* ===== verification/Spec2Isabelle.thy ===== *)
theory Spec2Isabelle
  imports Names Merkle Chainbase Keys BlockHeader ResourceLimits Authority Raw Transactions Permissions BesioContract ForkDatabase Controller
    TransactionContext ApplyContext BlockExecution BlockInvariants SampleChain
begin

text \<open>
  A verification development for BitEOS, the blockchain node software of \<^verbatim>\<open>src/\<close> (a fork of EOSIO; the sources call it
  \<^verbatim>\<open>besio\<close>).

  \<^bold>\<open>The program.\<close>  The chain library \<^verbatim>\<open>libraries/chain\<close> is the core of the node.  It keeps its state (accounts, permissions, resource
  usage, contract tables) in a database of indexed objects with an undo stack, \<^verbatim>\<open>libraries/chainbase\<close>.  A block arrives as a
  header that has to follow from the header state of its predecessor: the producer whose turn it is, its signature, the Merkle root
  of all blocks, and the confirmations that make earlier blocks irreversible.  The transactions of a block are
  unpacked, their signatures are recovered to keys, the keys are checked against the authorities of the declared
  permissions, their actions are applied, and the resources they use are billed.  Whatever throws is undone by the
  undo sessions of the database.

  \<^bold>\<open>Theories and sources.\<close>
  \<^item> \<open>Prelude\<close>: integers of fixed width, exceptions, results (an exception or a value) with sequencing, assertion and loops, rules for
    what a function ensures when it does not throw, the locales \<open>guarded_machine\<close> and \<open>refinement\<close> for components with state, and
    maps that iterate in key order.
  \<^item> \<open>Names\<close>: \<^verbatim>\<open>name.hpp\<close>, \<^verbatim>\<open>name.cpp\<close>.  Names are 64-bit words of five-bit symbols; parsing and printing are inverse, and it
    is exactly the normalized strings that are accepted.
  \<^item> \<open>Merkle\<close>: \<^verbatim>\<open>merkle.cpp\<close>, \<^verbatim>\<open>incremental_merkle.hpp\<close>.  The incremental tree has the root of the batch computation after any
    number of appends below \<open>2 ^ 63\<close>.
  \<^item> \<open>Chainbase\<close>: \<^verbatim>\<open>chainbase.hpp\<close>, \<^verbatim>\<open>chainbase.cpp\<close>.  An index with its undo stack refines a stack of snapshots, for every sequence of
    operations that does not exchange unique keys within a session; sessions, \<open>squash\<close>, \<open>commit\<close> and \<open>undo_all\<close> are included.
  \<^item> \<open>Keys\<close>: public keys and signatures as values, block timestamps (\<^verbatim>\<open>block_timestamp.hpp\<close>).
  \<^item> \<open>BlockHeader\<close>: \<^verbatim>\<open>block_header_state.cpp\<close> with block headers and producer schedules.  The irreversible block is the one
    that more than two thirds of the producers have implied; the invariant of reachable header states; when irreversibility is
    monotone and when not.
  \<^item> \<open>ResourceLimits\<close>: \<^verbatim>\<open>resource_limits.cpp\<close>.  The invariant of the accounting over all sequences of operations, exactness of the
    moving averages, limits that hold after billing, and the exact conditions of failure.
  \<^item> \<open>Authority\<close>: \<^verbatim>\<open>authority.hpp\<close>, \<^verbatim>\<open>authority_checker.hpp\<close>.  The checker is sound for an inductive relation of derivable
    permissions, and accepts what provided keys and permissions reach directly.
  \<^item> \<open>Raw\<close>: \<^verbatim>\<open>fc/io/raw.hpp\<close>.  The locale \<open>codec\<close> says that unpacking inverts packing and leaves the rest of the stream; it is
    interpreted for every format and composed for vectors, pairs and structures.
  \<^item> \<open>Transactions\<close>: \<^verbatim>\<open>transaction.cpp\<close>.  Packed transactions are unpacked to what was packed, with and without compression; the
    cache of recovered keys does not change results.
  \<^item> \<open>Permissions\<close>: \<^verbatim>\<open>authorization_manager.cpp\<close>, \<^verbatim>\<open>permission_object.hpp\<close>.  The tables are indices of \<open>Chainbase\<close>, the checks use
    \<open>Authority\<close>.  Comparison of permissions decides the hierarchy; a checked transaction has derivable authorizations that are at
    least the minimum permissions of its actions.
  \<^item> \<open>BesioContract\<close>: \<^verbatim>\<open>besio_contract.cpp\<close>.  The native actions change \<open>Permissions\<close>, the account tables and \<open>ResourceLimits\<close>
    together; the invariant of accounts and permissions holds after every sequence of them.

  \<^bold>\<open>How the code is modelled.\<close>  A class with state is a record, a method a function from the state and the arguments to
  the new state; a method that may throw returns a \<open>result\<close>, whose left values are the exceptions.  An operation that throws
  leaves the state to be rolled back by the caller, so \<open>run_ops\<close> continues a run from the state before.
  \<open>undefined_behaviour\<close> is the result where C++ gives the execution no meaning.  Integers are words where the code works bitwise, and
  otherwise numbers with the wrap-around written out (\<open>u64\<close>, \<open>i64\<close>, \<open>to_u64\<close>).

  \<^bold>\<open>Loops and bounds.\<close>  Loops over containers are folds.  The recursion of the authority checker ends by its own depth limit, which is its
  termination measure.  \<open>undo_all\<close> recurses on the undo stack.  The walk up the parents of a permission is followed for as many rounds
  as there are permissions; \<open>satisfies_iff_above\<close> shows that this is always enough in a forest, so the loop of the
  code ends, and \<open>native_actions_keep_permissions\<close> that the permissions always are a forest.

  \<^bold>\<open>Parameters.\<close>  Hash functions, the recovery of a key from a signature, \<^verbatim>\<open>zlib\<close>, the unpacking of the data of native actions, the validation
  of WebAssembly code, the clock that bounds checks, and the configuration of the node.

  \<^bold>\<open>Not modelled.\<close>  The network, HTTP, wallet and history plugins, the command line programs and the WebAssembly engines, which do
  input and output or are other programs; the block log and the memory-mapped files, which are storage; the controller beyond the
  genesis header state, the registration of handlers and the key blacklist; the contracts.
\<close>

section \<open>The node\<close>



section \<open>Blocks and transactions\<close>

text \<open>
  C2. No transaction is applied twice.  In a chain of blocks that were executed one after the other, with increasing times, no input
  transaction occurs twice, neither in one block nor in two: the ids of the transactions are recorded until they expire, and expired transactions are refused.
\<close>

theorem no_transaction_is_applied_twice:
  assumes "execute_chain cp bs st = Inr st'" "successive t bs" "index_base (input_transactions st)" "replay_head_time cp = None" "\<not> light_validation (cp_settings cp)"
  shows "distinct (inputs_of_chain cp bs)"
  using assms
proof (induction bs arbitrary: st t)
  case (Cons x bs)
  obtain h b s where x: "x = (h, b, s)" by (cases x)
  from Cons.prems(1,2) obtain b' st1 where b: "execute_block cp h b Complete st = Inr (b', st1)" "execute_chain cp bs st1 = Inr st'"
    "timestamp b \<noteq> 0" "successive (timestamp b) bs"
    by (auto simp: execute_chain_def x bindR_eq_Inr)
  note r = block_records [OF b(1,3) _ Cons.prems(4,5)] and n = recorded_not_again [OF b(2,4) _ Cons.prems(4,5)]
  show ?case using r n Cons.IH [OF b(2,4)] Cons.prems(3-5) by (fastforce simp: inputs_of_chain_def x inputs_indexed_def)
qed (simp add: inputs_of_chain_def)

lemma sample_chain_runs: "\<exists>st. execute_chain sample_chain_params [(sample_head, one_block, Complete)] sample_chain_state = Inr st"
  using one_executed by (auto simp: execute_chain_def)

lemma sample_chain_inputs: "inputs_of_chain sample_chain_params [(sample_head, one_block, Complete)] = [(SHA256 907 0 0 0, 946684820)]"
  by (simp add: inputs_of_chain_def inputs_of_block_def input_of_def one_block_fields sample_receipt_fields sample_params_fields sample_unpacks)
    (simp add: sample_metadata_def sample_input_def)

theorem no_transaction_is_applied_twice_witness:
  "(\<exists>st. execute_chain sample_chain_params [(sample_head, one_block, Complete)] sample_chain_state = Inr st)
     \<and> distinct (inputs_of_chain sample_chain_params [(sample_head, one_block, Complete)])
     \<and> inputs_of_chain sample_chain_params [(sample_head, one_block, Complete)] = [(SHA256 907 0 0 0, 946684820)]"
proof -
  obtain st where st: "execute_chain sample_chain_params [(sample_head, one_block, Complete)] sample_chain_state = Inr st" using sample_chain_runs by blast
  have s: "successive 20 [(sample_head, one_block, Complete)]" by (simp add: one_block_fields sample_head_eq default_signed_header_def)
  have p: "index_base (input_transactions sample_chain_state)" "replay_head_time sample_chain_params = None" "\<not> light_validation (cp_settings sample_chain_params)"
    by (simp_all add: sample_state_fields sample_params_fields sample_settings_def empty_index_def index_base_def sorted_keys_def)
  show ?thesis using no_transaction_is_applied_twice [OF st s p] st sample_chain_inputs by blast
qed

text \<open>
  C3. Blocks keep accounts and permissions consistent.  Whatever blocks are executed, with whatever contracts, native actions,
  scheduled transactions and producers: the permissions stay a forest of single-account trees, and every account has its permission
  \<open>owner\<close> at a root and its permission \<open>active\<close> directly below it; so comparing two permissions always terminates with an answer.
\<close>

theorem blocks_keep_permissions:
  assumes "contract_ok (cdb st)" "execute_chain cp bs st = Inr st'" "\<forall>(head, b, s) \<in> set bs. timestamp b \<noteq> 0"
  shows "tree_ok (perms (perms_of st'))
    \<and> (\<forall>i a. map_of (indices (accounts (cdb st'))) i = Some a \<longrightarrow> has_owner_active (perms (perms_of st')) (acct_name a))
    \<and> (\<forall>i p j q. perms (perms_of st') i = Some p \<and> perms (perms_of st') j = Some q \<and> i \<noteq> 0 \<and> j \<noteq> 0
         \<longrightarrow> satisfies (i, p) (j, q) (permissions (perms_of st')) = Inr (above (perms (perms_of st')) i j))"
proof -
  have "permissions_ok st'" using authorized_chain.execute_chain_keeps [OF assms(2)] assms(1,3) by (simp add: permissions_ok_def)
  then show ?thesis by (auto simp: permissions_ok_def contract_ok_def perms_ok_def intro: satisfies_above)
qed

lemma sample_contracts_ok: "contract_ok sample_contracts"
proof -
  let ?m = "perms sample_chain_auth"
  have "has_owner_active ?m 7" unfolding has_owner_active_def
    by (intro exI [of _ 1] exI [of _ "the (?m 1)"] exI [of _ 2] exI [of _ "the (?m 2)"])
      (simp add: sample_state_fields sample_permissions_def sample_perm_def empty_index_def)
  moreover have "tree_ok ?m"
    by (auto simp: tree_ok_def sample_state_fields sample_permissions_def sample_perm_def reserved_permission_def empty_index_def producers_account_name_def
        string_to_name_def string_to_name_loop.simps char_at_def char_to_symbol_def split: if_splits)
  moreover have "index_base sample_permissions" "index_base (accounts sample_contracts)"
    by (auto simp: index_base_def sorted_keys_def sample_permissions_def sample_contracts_def empty_index_def split: if_splits)
  ultimately show ?thesis by (auto simp: contract_ok_def perms_ok_def sample_state_fields sample_account_def split: if_splits)
qed

theorem blocks_keep_permissions_witness:
  "\<exists>st. execute_chain sample_chain_params [(sample_head, one_block, Complete)] sample_chain_state = Inr st \<and> tree_ok (perms (perms_of st))"
proof -
  obtain st where st: "execute_chain sample_chain_params [(sample_head, one_block, Complete)] sample_chain_state = Inr st" using sample_chain_runs by blast
  have "contract_ok (cdb sample_chain_state)" using sample_contracts_ok by (simp add: sample_state_fields)
  from blocks_keep_permissions [OF this st] st show ?thesis by (auto simp: one_block_fields)
qed





text \<open>
  C40. The notification of memory usage is refused.  When an input transaction was authorized, \<open>push_transaction\<close> calls itself with an unsigned transaction
  for the account that pays; as no key signs it, its check of the authorization throws, whatever the permissions are, as long as authorities
  demand something.  So the notification never has an effect.
\<close>

theorem ram_usage_notification_refused:
  assumes "get_on_upramusage_transaction env n = Inr t" "demanding (perms_of (fst s))" "0 < max_transaction_delay (perms_of (fst s))"
    "max_transaction_delay (perms_of (fst s)) < 2 ^ 32" "tc_delay (snd s) = 0"
  shows "\<exists>e. authorize_transaction env' t s = Inl e"
proof (rule ccontr)
  assume "\<nexists>e. authorize_transaction env' t s = Inl e"
  then have a: "authorize_transaction env' t s = Inr ()" by (metis (full_types) old.sum.exhaust old.unit.exhaust)
  let ?db = "perms_of (fst s)" and ?p = "Permission_Level n active_name"
  obtain data where t: "signatures t = []"
    "actions t = [\<lparr>act_account = system_account_name, act_name = string_to_name ''onramusage'', act_authorization = [?p], act_data = data\<rparr>]"
    using assms(1) by (auto simp: get_on_upramusage_transaction_def unsigned_transaction_def set_reference_block_def bindR_eq_Inr)
  obtain keys where k: "signing_keys env' t = Inr keys" and c: "check_authorization (native_codec.truncate (ce_codec (contract env'))) (\<lambda>_. Inr ()) (actions t) keys [] 0 False ?db = Inr ()"
    using a assms(5) by (auto simp: authorize_transaction_def bindR_eq_Inr)
  have e: "keys = []" using k by (auto simp: signing_keys_def get_signature_keys_def t(1) split: sum.splits prod.splits)
  have d: "effective_delay ?db 0 = 0" using assms(3,4) by (simp add: effective_delay_def delay_max_limit_def seconds_def i64_id is_i64_def)
  have n: "string_to_name ''onramusage'' \<notin> {updateauth_name, deleteauth_name, linkauth_name, unlinkauth_name, canceldelay_name}"
    by (simp add: name_values string_to_name_def string_to_name_loop.simps char_at_def char_to_symbol_def)
  have "special_case nc ?db 0 (hd (actions t)) = Inr (False, 0)" for nc using n by (simp add: special_case_def t(2))
  then have "authorized (fst (make_auth_checker (db_authority ?db) (max_authority_depth ?db) [] [] 0)) ?p"
    using check_authorization_derives [OF c, of "hd (actions t)"] by (auto simp: e d t(2))
  then show False by (rule nothing_authorized [OF _ _ _ _ _ assms(2)]) (simp_all add: make_auth_checker_def)
qed

lemma sample_demanding: "demanding sample_chain_auth"
proof -
  have q: "0 < threshold (perm_auth q) \<and> auth_waits (perm_auth q) = []" if "(i, q) \<in> set (indices sample_permissions)" "perm_owner q \<noteq> 0" for i q
    using that by (auto simp: sample_permissions_def empty_index_def sample_perm_def reserved_permission_def authority_of_key_def one_producer_def
        producers_authority_def u32_def)
  have "0 < threshold auth \<and> auth_waits auth = []" if "db_authority sample_chain_auth p = Inr auth" for p auth
    using that by (auto simp: db_authority_def get_permission_def find_by_def find_Some_iff of_option_def bes_assert_def bindR_eq_Inr sample_state_fields
        split: option.splits if_splits dest!: nth_mem intro: q [THEN conjunct1] q [THEN conjunct2])
  then show ?thesis by (simp add: demanding_def)
qed

theorem ram_usage_notification_refused_witness:
  "\<exists>t e. get_on_upramusage_transaction input_env 7 = Inr t \<and> authorize_transaction input_env t (sample_chain_state, new_context) = Inl e"
proof -
  have "\<exists>t. get_on_upramusage_transaction input_env 7 = Inr t" by (simp add: get_on_upramusage_transaction_def pack_name_def pack_uint_def)
  then obtain t where t: "get_on_upramusage_transaction input_env 7 = Inr t" by blast
  have "tc_delay new_context = 0" by (simp add: new_context_def)
  with ram_usage_notification_refused [OF t, of "(sample_chain_state, new_context)" input_env] t sample_demanding
  show ?thesis by (auto simp: sample_state_fields)
qed

section \<open>Contracts\<close>

theorem contract_writes_own_tables_witness:
  "((8, 8, 5), 1, 8, [9]) \<in> foreign_rows 7 foreign_state
    \<and> (\<exists>c'. run_contract input_env sample_run sample_call = Inr c' \<and> foreign_rows 7 (chain c') = foreign_rows 7 foreign_state)"
proof
  show "((8, 8, 5), 1, 8, [9]) \<in> foreign_rows 7 foreign_state"
    by (auto simp: foreign_rows_def foreign_table_def foreign_state_fields empty_index_def)
  obtain c' where "run_contract input_env sample_run sample_call = Inr c'" using sample_run_returns by blast
  then show "\<exists>c'. run_contract input_env sample_run sample_call = Inr c' \<and> foreign_rows 7 (chain c') = foreign_rows 7 foreign_state"
    using contract_writes_own_tables [OF _ foreign_indexed] by (fastforce simp: sample_call_def)
qed

theorem stored_row_is_found_witness:
  "\<exists>c'. db_store_i64 input_env 7 5 7 1 [1, 2] sample_call = Inr (0, c') \<and> db_get_i64 0 c' = Inr [1, 2] \<and> db_find_i64 7 7 5 1 c' = (0, c')"
proof -
  obtain c' where "db_store_i64 input_env 7 5 7 1 [1, 2] sample_call = Inr (0, c')" using sample_store by blast
  then show ?thesis using stored_row_is_found [OF _ foreign_indexed] by (fastforce simp: sample_call_def)
qed

end
